(* ===== verification/Prelude.thy ===== *)
theory Prelude
  imports Main "HOL-Library.Word"
begin

text \<open>
  Shared vocabulary of the development: the C types of the modelled programs, arrays as
  lists with bounds-checked reads and writes, and the generic lemmas on words, lists and
  arrays that the component theories use.

  The programs are built for ARM Linux, where plain \<^verbatim>\<open>char\<close> is an unsigned byte and
  \<^verbatim>\<open>int\<close>, \<^verbatim>\<open>unsigned int\<close> and \<^verbatim>\<open>unsigned long\<close> are 32 bits wide.
\<close>

unbundle bit_operations_syntax

type_synonym byte = "8 word"
type_synonym u32 = "32 word"

named_theorems array_simps \<open>reads, writes and prefixes of arrays\<close>
named_theorems byte_simps \<open>closed facts on single bytes\<close>

section \<open>Bytes\<close>

lemma unat_byte_less: "unat (x :: byte) < 256"
proof -
  have "unat x < 2 ^ LENGTH(8)" by (rule unsigned_less)
  then show ?thesis by simp
qed

lemma uint_byte_less [simp]: "uint (x :: byte) < 256"
proof -
  have "uint x < 2 ^ LENGTH(8)" by (rule unsigned_less)
  then show ?thesis by simp
qed

lemma uint_byte_neq [simp]: "uint (x :: byte) \<noteq> -1" "-1 \<noteq> uint (x :: byte)"
  using uint_nonnegative [of x] by linarith+

lemma uint_byte_inject [simp]: "uint (x :: byte) = uint y \<longleftrightarrow> x = y"
  by (simp add: word_uint_eq_iff)

lemma bit_less_8: "bit (x :: byte) n \<Longrightarrow> n < 8"
  using bit_imp_le_length [of x n] by simp

lemma bit_less_16: "bit (x :: 16 word) n \<Longrightarrow> n < 16"
  using bit_imp_le_length [of x n] by simp

lemmas bit_less = bit_less_8 bit_less_16

text \<open>A property of one byte can be checked on all 256 values.\<close>

lemma byte_exhaust:
  fixes x :: byte
  assumes "list_all P (map of_nat [0..<256])"
  shows "P x"
proof -
  have "unat x \<in> set [0..<256]" using unat_byte_less [of x] by simp
  then have "of_nat (unat x) \<in> set (map of_nat [0..<256] :: byte list)"
    by (simp only: set_map image_eqI)
  with assms have "P (of_nat (unat x))" by (simp only: list_all_iff)
  then show ?thesis by simp
qed

lemma word_xor_cancel [simp]: "(x XOR z = y XOR z) = (x = y)" for x y z :: "'a::len word"
  by (metis xor.assoc xor_self_eq xor.right_neutral)

lemma byte_below:
  fixes x :: byte
  assumes "list_all P (map of_nat [0..<n])" "unat x < n"
  shows "P x"
proof -
  have "of_nat (unat x) \<in> set (map of_nat [0..<n] :: byte list)"
    unfolding set_map set_upt by (rule imageI) (simp add: assms(2))
  with assms(1) have "P (of_nat (unat x))" by (simp only: list_all_iff)
  then show ?thesis by simp
qed

lemma byte_AND_128: "b AND 128 = (if bit b 7 then 128 else 0)" for b :: byte
proof -
  have *: "bit (2 ^ 7 :: byte) n \<longleftrightarrow> n = 7" for n by (auto simp: bit_exp_iff simp del: power_numeral power_Suc)
  have "b AND 2 ^ 7 = (if bit b 7 then 2 ^ 7 else 0)"
    by (rule bit_word_eqI) (auto simp: bit_and_iff * simp del: power_numeral)
  then show ?thesis by simp
qed

lemma byte_split: "(b AND 127) OR (b AND 128) = b" for b :: byte
proof -
  have "(b AND 127) OR (b AND 128) = b AND (127 OR 128)" by (rule bit.conj_disj_distrib [symmetric])
  also have "(127 OR 128 :: byte) = mask LENGTH(8)" by (simp add: mask_numeral)
  also have "b AND mask LENGTH(8) = b" using take_bit_length_eq [of b] by (simp only: take_bit_eq_mask)
  finally show ?thesis .
qed

lemma eighth_bit: "b AND 128 \<noteq> 0 \<Longrightarrow> (b AND 127) OR 128 = b" "b AND 128 = 0 \<Longrightarrow> b AND 127 = b" for b :: byte
  using byte_split [of b] byte_AND_128 [of b] by (auto split: if_splits)

lemma word_xor_eq_0: "x XOR y = 0 \<longleftrightarrow> x = y" for x y :: "'a::len word"
  using word_xor_cancel [of x y y] by simp

lemma byte_low7: "c < 127 \<Longrightarrow> c AND 127 = c" for c :: byte
proof -
  assume "c < 127"
  then have "unat c < 2 ^ 7" by (simp add: word_less_nat_alt)
  then have "take_bit 7 (unat c) = unat c" by (simp add: take_bit_nat_eq_self)
  then have "unat (take_bit 7 c) = unat c" by (simp add: unsigned_take_bit_eq)
  then have "take_bit 7 c = c" by (simp only: word_unat_eq_iff)
  then show ?thesis by (simp add: take_bit_eq_mask mask_numeral)
qed

section \<open>Arrays\<close>

text \<open>
  A C array is a list of its cells. \<open>aget\<close> and \<open>aput\<close> return \<open>None\<close> for an index outside
  the array, where the C program has no defined behaviour.
\<close>

definition aget :: "'a list \<Rightarrow> int \<Rightarrow> 'a option" where
  "aget a i = (if 0 \<le> i \<and> i < int (length a) then Some (a ! nat i) else None)"

definition aput :: "'a list \<Rightarrow> int \<Rightarrow> 'a \<Rightarrow> 'a list option" where
  "aput a i v = (if 0 \<le> i \<and> i < int (length a) then Some (a[nat i := v]) else None)"

text \<open>\<open>strlen\<close> of the string that starts at the head of the list: the cells before the first NUL.\<close>

definition cstr :: "byte list \<Rightarrow> byte list" where
  "cstr a = takeWhile (\<lambda>b. b \<noteq> 0) a"

lemma take_Suc_update [array_simps]:
  "n < length a \<Longrightarrow> take (Suc n) (a[n := v]) = take n a @ [v]"
  by (simp add: take_Suc_conv_app_nth)

lemma cstr_append_NUL [array_simps]: "0 \<notin> set xs \<Longrightarrow> cstr (xs @ 0 # ys) = xs"
  unfolding cstr_def by (induction xs) auto

lemma cstr_no_NUL: "0 \<notin> set (cstr a)"
  unfolding cstr_def by (auto dest: set_takeWhileD)

section \<open>Outcomes\<close>

text \<open>
  What a call does: it returns a value and the new state, it ends the process with an exit code,
  it touches memory outside an object (\<open>Wild\<close>), or it waits for an event that never comes (\<open>Hang\<close>).
\<close>

datatype ('a, 's) outcome = Ret 'a 's | Exit int 's | Wild | Hang

fun kbind :: "('a, 's) outcome \<Rightarrow> ('a \<Rightarrow> 's \<Rightarrow> ('b, 's) outcome) \<Rightarrow> ('b, 's) outcome" where
  "kbind (Ret a s) f = f a s"
| "kbind (Exit n s) f = Exit n s"
| "kbind Wild f = Wild"
| "kbind Hang f = Hang"

lemma kbind_Ret_iff: "kbind m f = Ret b t \<longleftrightarrow> (\<exists>a s. m = Ret a s \<and> f a s = Ret b t)"
  by (cases m) auto

lemma kbind_Wild_iff: "kbind m f = Wild \<longleftrightarrow> m = Wild \<or> (\<exists>a s. m = Ret a s \<and> f a s = Wild)"
  by (cases m) auto

lemma kbind_Exit_iff: "kbind m f = Exit n t \<longleftrightarrow> m = Exit n t \<or> (\<exists>a s. m = Ret a s \<and> f a s = Exit n t)"
  by (cases m) auto

lemma kbind_assoc: "kbind (kbind m f) g = kbind m (\<lambda>a s. kbind (f a s) g)"
  by (cases m) auto

lemma kbind_cong [fundef_cong]:
  "m = m' \<Longrightarrow> (\<And>a s. m' = Ret a s \<Longrightarrow> f a s = g a s) \<Longrightarrow> kbind m f = kbind m' g"
  by (cases m') auto

end
