(* ===== verification/Ctext.thy ===== *)
theory Ctext
  imports Prelude
begin

text \<open>
  Text as the programs handle it: string literals, the character classes of the C locale, and decimal
  numerals.
\<close>

text \<open>String literals of the source.\<close>

definition cbytes :: "string \<Rightarrow> byte list" where
  "cbytes t = map of_char t"

text \<open>Character classes of the C locale.\<close>

definition islower :: "byte \<Rightarrow> bool" where "islower c \<longleftrightarrow> 97 \<le> c \<and> c \<le> 122"
definition isupper :: "byte \<Rightarrow> bool" where "isupper c \<longleftrightarrow> 65 \<le> c \<and> c \<le> 90"
definition toupper :: "byte \<Rightarrow> byte" where "toupper c = (if islower c then c - 32 else c)"
definition tolower :: "byte \<Rightarrow> byte" where "tolower c = (if isupper c then c + 32 else c)"
definition isdigit :: "byte \<Rightarrow> bool" where "isdigit c \<longleftrightarrow> 48 \<le> c \<and> c \<le> 57"
definition isalnum :: "byte \<Rightarrow> bool" where "isalnum c \<longleftrightarrow> islower c \<or> isupper c \<or> isdigit c"
definition isspace :: "byte \<Rightarrow> bool" where "isspace c \<longleftrightarrow> c = 32 \<or> 9 \<le> c \<and> c \<le> 13"

text \<open>Decimal numerals, as \<open>sprintf\<close> writes them.\<close>

fun decimal :: "nat \<Rightarrow> byte list" where
  "decimal n = (if n < 10 then [of_nat (48 + n)] else decimal (n div 10) @ [of_nat (48 + n mod 10)])"

declare decimal.simps [simp del]

lemma length_decimal: "n < 10 ^ k \<Longrightarrow> 0 < k \<Longrightarrow> length (decimal n) \<le> k"
proof (induction n arbitrary: k rule: decimal.induct)
  case (1 n)
  show ?case
  proof (cases "n < 10")
    case False
    obtain m where k: "k = Suc m" using "1.prems" by (cases k) auto
    moreover have "0 < m" using False k "1.prems" by (cases m) auto
    ultimately have m: "k = Suc m" "0 < m" by auto
    then have "n div 10 < 10 ^ m" using "1.prems" by (simp add: div_less_iff_less_mult mult.commute)
    with 1(1) [OF False] m False show ?thesis by (subst decimal.simps) simp
  qed (use 1 in \<open>subst decimal.simps, simp\<close>)
qed

text \<open>The value of a string of digits, as \<open>atoi\<close> and \<open>strtoul\<close> compute it.\<close>

fun digits_value :: "byte list \<Rightarrow> nat \<Rightarrow> nat" where
  "digits_value [] n = n"
| "digits_value (c # cs) n = digits_value cs (10 * n + (unat c - 48))"

lemma digits_value_append: "digits_value (xs @ ys) n = digits_value ys (digits_value xs n)"
  by (induction xs n rule: digits_value.induct) auto

lemma unat_digit: "d < 10 \<Longrightarrow> unat (48 + of_nat d :: byte) = 48 + d"
proof -
  assume "d < 10"
  then have "unat (of_nat (48 + d) :: byte) = 48 + d" unfolding unsigned_of_nat by (subst take_bit_nat_eq_self) auto
  then show ?thesis by simp
qed

lemma decimal_value: "digits_value (decimal n) 0 = n"
proof (induction n rule: decimal.induct)
  case (1 n)
  show ?case
  proof (cases "n < 10")
    case True
    then show ?thesis using unat_digit [of n] by (subst decimal.simps) simp
  next
    case False
    then show ?thesis using 1 unat_digit [of "n mod 10"] by (subst decimal.simps) (simp add: digits_value_append)
  qed
qed

lemma decimal_digits: "list_all isdigit (decimal n)"
proof (induction n rule: decimal.induct)
  case (1 n)
  have d: "isdigit (of_nat (48 + d))" if "d < 10" for d
    using unat_digit [OF that] that by (simp add: isdigit_def word_le_nat_alt)
  show ?case using 1 d [of n] d [of "n mod 10"] by (subst decimal.simps) auto
qed

lemma decimal_nonempty: "decimal n \<noteq> []"
  by (subst decimal.simps) simp

end
