(* ===== verification/Gwart.thy ===== *)
theory Gwart
  imports Ctext
begin

text \<open>
  gwart.c, the generator that turns gproto.w into the protocol module: its symbol table, its
  tokenizer, the parsing of state and rule sections, the state sets of the rules, and the table of
  actions it writes into the generated program.
\<close>

section \<open>Definitions\<close>

text \<open>
  The state of a run: what is left of the input file, what has been written, the line counter, the
  counters of states and actions, the last word token, the hash table and the action table.
\<close>

record gw =
  ginp :: "byte list"
  gout :: "byte list"
  lines :: nat
  nstates :: nat
  nacts :: nat
  tokval :: "byte list"
  htab :: "(byte list \<times> int) list list"
  tbl :: "int list"

abbreviation MAXSTATES :: nat where "MAXSTATES \<equiv> 50"
abbreviation MAXWORD :: nat where "MAXWORD \<equiv> 50"
abbreviation SBYTES :: nat where "SBYTES \<equiv> 7"
abbreviation HASHSIZE :: nat where "HASHSIZE \<equiv> 101"

definition fatal :: "gw \<Rightarrow> ('a, gw) outcome" where
  "fatal s = Exit 1 s"

definition put :: "byte list \<Rightarrow> gw \<Rightarrow> gw" where
  "put bs s = s\<lparr>gout := gout s @ bs\<rparr>"

subsection \<open>The symbol table\<close>

definition hash_step :: "u32 \<Rightarrow> byte \<Rightarrow> u32" where
  "hash_step n c = n + (n + ucast c)"

definition hash_sum :: "byte list \<Rightarrow> u32" where
  "hash_sum name = foldl hash_step 0 name"

text \<open>\<open>sum %= HASHSIZE\<close> on a signed \<open>sum\<close> has the sign of \<open>sum\<close>.\<close>

definition crem :: "int \<Rightarrow> int \<Rightarrow> int" where
  "crem a b = (if a < 0 then - ((- a) mod b) else a mod b)"

definition hash :: "byte list \<Rightarrow> nat" where
  "hash name =
     (let n = crem (sint (hash_sum name)) (int HASHSIZE)
      in nat (if n < 0 then n + int HASHSIZE else n))"

definition clrhash :: "gw \<Rightarrow> gw" where
  "clrhash s = s\<lparr>htab := replicate HASHSIZE []\<rparr>"

fun chain_find :: "(byte list \<times> int) list \<Rightarrow> byte list \<Rightarrow> int" where
  "chain_find [] name = -1"
| "chain_find ((n, v) # r) name = (if n = name then v else chain_find r name)"

definition lkup :: "byte list \<Rightarrow> gw \<Rightarrow> int" where
  "lkup name s = chain_find (htab s ! hash name) name"

definition enter :: "byte list \<Rightarrow> int \<Rightarrow> gw \<Rightarrow> (unit, gw) outcome" where
  "enter name svalue s =
     (if lkup name s \<noteq> -1 then Exit 1 s
      else
        (let h = hash name
         in if h < length (htab s) then Ret () (s\<lparr>htab := (htab s)[h := (name, svalue) # htab s ! h]\<rparr>) else Wild))"

subsection \<open>Words and tokens\<close>

definition isword :: "byte \<Rightarrow> bool" where
  "isword c \<longleftrightarrow> isalnum c \<or> c \<in> {46, 37, 95, 45, 36, 64}"

text \<open>\<open>rdword\<close> stores at most 49 characters; the one that ends the word goes back to the input.\<close>

definition rdword :: "byte list \<Rightarrow> byte list \<times> byte list" where
  "rdword inp = (let w = take (MAXWORD - 1) (takeWhile isword inp) in (w, drop (length w) inp))"

datatype gtok = SEP | LBRACK | RBRACK | WORD | COMMA

definition newlines :: "byte list \<Rightarrow> nat" where
  "newlines bs = length (filter (\<lambda>c. c = 10) bs)"

definition skip_space :: "byte list \<Rightarrow> nat \<Rightarrow> byte list \<times> nat" where
  "skip_space inp n = (dropWhile isspace inp, n + newlines (takeWhile isspace inp))"

fun rdcmnt :: "bool \<Rightarrow> bool \<Rightarrow> byte list \<Rightarrow> nat \<Rightarrow> (byte list \<times> nat) option" where
  "rdcmnt star prcnt [] n = None"
| "rdcmnt star prcnt (c # r) n =
     (if c = 47 \<and> star then Some (r, n)
      else if prcnt \<and> c = 37 then None
      else rdcmnt (c = 42) (c = 37) r (if c = 10 then Suc n else n))"

text \<open>
  A token that starts with a percent sign gets its second character unchecked (255 at the end of the
  file) and a word behind it; \<open>tokval\<close> has 50 cells.
\<close>

definition percent_word :: "byte \<Rightarrow> gw \<Rightarrow> (gtok, gw) outcome" where
  "percent_word c s =
     (case rdword (ginp s) of (w, r) \<Rightarrow>
        if length w + 3 > MAXWORD then Wild
        else Ret WORD (s\<lparr>ginp := r, tokval := cstr (37 # c # w)\<rparr>))"

lemma rdcmnt_length: "rdcmnt star prcnt inp n = Some (r, m) \<Longrightarrow> length r < length inp"
  by (induction star prcnt inp n rule: rdcmnt.induct) (auto split: if_splits)

lemma skip_space_length: "skip_space inp n = (r, m) \<Longrightarrow> length r \<le> length inp"
  by (auto simp: skip_space_def length_dropWhile_le)

function gettoken :: "gw \<Rightarrow> (gtok, gw) outcome" where
  "gettoken s =
     (case skip_space (ginp s) (lines s) of
        ([], n) \<Rightarrow> Ret SEP (s\<lparr>ginp := [], lines := n\<rparr>)
      | (c # r, n) \<Rightarrow>
          (let s1 = s\<lparr>ginp := r, lines := n\<rparr>
           in if c = 37 then
                (case r of
                   [] \<Rightarrow> percent_word 255 s1
                 | d # r' \<Rightarrow> if d = 37 then Ret SEP (s1\<lparr>ginp := r'\<rparr>) else percent_word d (s1\<lparr>ginp := r'\<rparr>))
              else if c = 60 then Ret LBRACK s1
              else if c = 62 then Ret RBRACK s1
              else if c = 44 then Ret COMMA s1
              else if c = 47 then
                (case r of
                   [] \<Rightarrow> fatal s1
                 | d # r' \<Rightarrow>
                     if d = 42 then
                       (case rdcmnt False False r' n of
                          None \<Rightarrow> fatal s1
                        | Some (r'', n') \<Rightarrow> gettoken (s\<lparr>ginp := r'', lines := n'\<rparr>))
                     else fatal s1)
              else if isword c then
                (case rdword (c # r) of (w, r') \<Rightarrow> Ret WORD (s1\<lparr>ginp := r', tokval := w\<rparr>))
              else fatal s1))"
  by pat_completeness auto
termination
  by (relation "measure (\<lambda>s. length (ginp s))") (auto dest!: rdcmnt_length skip_space_length [OF sym])

declare gettoken.simps [simp del]

subsection \<open>State sets and rules\<close>

record transx =
  states :: "byte list"
  anyst :: bool
  inchr :: byte
  actno :: int

definition setwstate :: "int \<Rightarrow> transx \<Rightarrow> transx option" where
  "setwstate state t =
     (let idx = state div 8; msk = drop_bit (nat (state mod 8)) 0x80
      in case aget (states t) idx of
           None \<Rightarrow> None
         | Some b \<Rightarrow> Some (t\<lparr>states := (states t)[nat idx := b OR msk]\<rparr>))"

definition teststate :: "int \<Rightarrow> transx \<Rightarrow> bool option" where
  "teststate state t =
     (let idx = state div 8; msk = drop_bit (nat (state mod 8)) 0x80
      in case aget (states t) idx of None \<Rightarrow> None | Some b \<Rightarrow> Some (b AND msk \<noteq> 0))"

text \<open>\<open>inchr\<close> and \<open>actno\<close> are set before they are read.\<close>

definition newtrans :: transx where
  "newtrans = \<lparr>states = replicate SBYTES 0, anyst = False, inchr = 0, actno = 0\<rparr>"

lemma rdword_length: "rdword inp = (w, r) \<Longrightarrow> length r \<le> length inp"
  by (auto simp: rdword_def Let_def)

lemma rdword_shorter: "rdword (c # inp) = (w, r) \<Longrightarrow> isword c \<Longrightarrow> length r < length (c # inp)"
  by (auto simp: rdword_def Let_def)

lemma percent_word_length: "percent_word c s = Ret t s' \<Longrightarrow> length (ginp s') \<le> length (ginp s)"
  by (auto simp: percent_word_def split: prod.splits if_splits dest: rdword_length)

lemma gettoken_length: "gettoken s = Ret t s' \<Longrightarrow> length (ginp s') + (if t = SEP then 0 else 1) \<le> length (ginp s)"
proof (induction s rule: gettoken.induct)
  case (1 s)
  obtain q n where k: "skip_space (ginp s) (lines s) = (q, n)" by fastforce
  note l = skip_space_length [OF k]
  show ?case
  proof (cases q)
    case Nil
    with k 1 show ?thesis by (subst (asm) (2) gettoken.simps) auto
  next
    case (Cons c r)
    note e = "1.prems" [unfolded gettoken.simps [of s] k [unfolded Cons] prod.case list.case Let_def]
    have ih: "length (ginp s') + (if t = SEP then 0 else 1) \<le> Suc (Suc (length r'))"
      if "rdcmnt False False r' n = Some (r'', n')" "r = 42 # r'" "c = 47"
        "gettoken (s\<lparr>ginp := r'', lines := n'\<rparr>) = Ret t s'" for r' r'' n'
      using "1.IH" [OF k [unfolded Cons, symmetric] refl refl _ _ _ _ that(3,2) refl that(1) refl that(4)]
        rdcmnt_length [OF that(1)] that(3) by simp
    have w: "rdword (c # r) = (w, r') \<Longrightarrow> isword c \<Longrightarrow> length r' \<le> length r" for w r'
      by (auto dest: rdword_shorter)
    have "length (ginp s') + (if t = SEP then 0 else 1) \<le> length (c # r)"
      using e by (auto simp: fatal_def Cons split: if_splits list.splits option.splits prod.splits
          dest!: percent_word_length dest: w ih)
    then show ?thesis using l Cons by simp
  qed
qed

function statelist :: "gtok \<Rightarrow> transx \<Rightarrow> gw \<Rightarrow> (transx, gw) outcome" where
  "statelist curtok t s =
     (if curtok = RBRACK then Ret t s
      else if curtok \<noteq> COMMA then fatal s
      else kbind (gettoken s) (\<lambda>tok s.
             if tok \<noteq> WORD then fatal s
             else
               (let sval = lkup (tokval s) s
                in if sval = -1 then fatal s
                   else case setwstate sval t of
                          None \<Rightarrow> Wild
                        | Some t \<Rightarrow> kbind (gettoken s) (\<lambda>tok s. statelist tok t s))))"
  by pat_completeness auto
termination
  by (relation "measure (\<lambda>(tok, t, s). length (ginp s))") (fastforce dest!: gettoken_length)+

lemma statelist_length: "statelist tok t s = Ret t' s' \<Longrightarrow> length (ginp s') \<le> length (ginp s)"
proof (induction tok t s rule: statelist.induct)
  case (1 tok t s)
  show ?case
  proof (cases "tok = RBRACK")
    case True
    then show ?thesis using "1.prems" by (subst (asm) statelist.simps) simp
  next
    case False
    with "1.prems" obtain s1 t1 tok2 s2 where g: "tok = COMMA" "gettoken s = Ret WORD s1" "lkup (tokval s1) s1 \<noteq> -1"
      "setwstate (lkup (tokval s1) s1) t = Some t1" "gettoken s1 = Ret tok2 s2" "statelist tok2 t1 s2 = Ret t' s'"
      by (subst (asm) statelist.simps) (auto simp: fatal_def kbind_Ret_iff Let_def split: if_splits option.splits)
    have "length (ginp s') \<le> length (ginp s2)"
      using "1.IH" [OF False _ g(2) _ refl g(3,4,5,6)] g(1) by simp
    then show ?thesis using gettoken_length [OF g(2)] gettoken_length [OF g(5)] by simp
  qed
qed

declare statelist.simps [simp del]

text \<open>
  Copying an action: in braces, counting them, or up to the end of the line. \<open>copy_braces\<close> returns the
  characters copied, the rest of the input and the braces still open.
\<close>

fun copy_braces :: "nat \<Rightarrow> byte list \<Rightarrow> byte list \<times> byte list \<times> nat" where
  "copy_braces 0 inp = ([], inp, 0)"
| "copy_braces (Suc b) [] = ([], [], Suc b)"
| "copy_braces (Suc b) (c # r) =
     (case copy_braces (if c = 123 then Suc (Suc b) else if c = 125 then b else Suc b) r of
        (w, r', b') \<Rightarrow> (c # w, r', b'))"

definition copyact :: "nat \<Rightarrow> gw \<Rightarrow> (unit, gw) outcome" where
  "copyact act s =
     (let s = put (cbytes ''case '' @ decimal act @ cbytes '':'' @ [10]) s;
          finish = (\<lambda>s. Ret () (put ([10] @ cbytes ''    break;'' @ [10]) s))
      in case skip_space (ginp s) (lines s) of
           (c # r, n) \<Rightarrow>
             if c = 123 then
               (case copy_braces 1 r of (w, r', b) \<Rightarrow>
                  (let s = put (cbytes ''    '' @ 123 # w) (s\<lparr>ginp := r', lines := n + newlines w\<rparr>)
                   in if b > 0 then fatal s else finish s))
             else
               (let w = takeWhile (\<lambda>c. c \<noteq> 10) (c # r)
                in finish (put w (s\<lparr>ginp := drop (Suc (length w)) (c # r), lines := Suc n\<rparr>)))
         | ([], n) \<Rightarrow> finish (s\<lparr>ginp := [], lines := Suc n\<rparr>))"

lemma copy_braces_length: "copy_braces b inp = (w, r, b') \<Longrightarrow> length r \<le> length inp"
  by (induction b inp arbitrary: w rule: copy_braces.induct) (auto split: prod.splits)

lemma copyact_length: "copyact n s = Ret u s' \<Longrightarrow> length (ginp s') \<le> length (ginp s)"
  by (auto simp: copyact_def Let_def put_def fatal_def split: prod.splits list.splits if_splits
      dest!: skip_space_length copy_braces_length)

function rdrules :: "transx option \<Rightarrow> transx list \<Rightarrow> gw \<Rightarrow> (transx list, gw) outcome" where
  "rdrules cur head s =
     kbind (gettoken s) (\<lambda>tok s.
       if tok = SEP then Ret head s
       else if tok = LBRACK then
         (case cur of
            Some t \<Rightarrow> fatal s
          | None \<Rightarrow> kbind (statelist COMMA newtrans s) (\<lambda>t s. rdrules (Some t) head s))
       else if tok = WORD then
         (if length (tokval s) \<noteq> 1 then fatal s
          else
            (let t = (case cur of None \<Rightarrow> newtrans\<lparr>anyst := True\<rparr> | Some t \<Rightarrow> t);
                 s = s\<lparr>nacts := Suc (nacts s)\<rparr>;
                 t = t\<lparr>actno := int (nacts s), inchr := hd (tokval s) - 32\<rparr>
             in kbind (copyact (nacts s) s) (\<lambda>_ s. rdrules None (head @ [t]) s)))
       else fatal s)"
  by pat_completeness auto
termination
  by (relation "measure (\<lambda>(cur, head, s). length (ginp s))")
     (fastforce dest!: gettoken_length statelist_length copyact_length)+

declare rdrules.simps [simp del]

subsection \<open>The definitions section\<close>

lemma hash_less: "hash name < HASHSIZE"
proof -
  have m: "0 \<le> a mod 101 \<and> a mod 101 < 101" for a :: int by simp
  show ?thesis using m [of "sint (hash_sum name)"] m [of "- sint (hash_sum name)"] by (auto simp: hash_def crem_def Let_def)
qed

lemma lkup_put [simp]: "lkup name (put bs s) = lkup name s" "ginp (put bs s) = ginp s" "htab (put bs s) = htab s"
  by (simp_all add: lkup_def put_def)

lemma lkup_enter:
  assumes "enter name v s = Ret u s'"
  shows "lkup n s' = (if n = name then v else lkup n s)" "ginp s' = ginp s" "length (htab s') = length (htab s)"
  using assms by (auto simp: enter_def lkup_def Let_def nth_list_update split: if_splits)

text \<open>
  A character that is neither white space nor part of a word is not consumed: the empty word is
  entered as a state, and the second attempt to enter it ends the run.
\<close>

function rdstates :: "gw \<Rightarrow> (unit, gw) outcome" where
  "rdstates s =
     (case ginp s of
        [] \<Rightarrow> Ret () (s\<lparr>lines := Suc (lines s)\<rparr>)
      | c # r \<Rightarrow>
          if c = 10 then Ret () (s\<lparr>ginp := r, lines := Suc (lines s)\<rparr>)
          else if isspace c then rdstates (s\<lparr>ginp := r\<rparr>)
          else
            (case rdword (c # r) of
               (w, r') \<Rightarrow>
                 kbind (enter w (int (Suc (nstates s))) (s\<lparr>ginp := r', nstates := Suc (nstates s)\<rparr>)) (\<lambda>_ s.
                   rdstates (put (cbytes ''#define '' @ w @ [32] @ decimal (nstates s) @ [10]) s))))"
  by pat_completeness auto
termination
proof (relation "measures [\<lambda>s. length (ginp s), \<lambda>s. if lkup [] s = -1 then 1 else 0]", goal_cases)
  case (3 s c r w r' u s')
  show ?case
  proof (cases "isword c")
    case True
    then show ?thesis using 3 rdword_shorter [of c r w r'] lkup_enter(2) [OF 3(5)] by auto
  next
    case False
    then have "w = []" "r' = c # r" using 3(4) by (auto simp: rdword_def)
    moreover from this have "lkup [] s = -1" using 3(5) by (auto simp: enter_def lkup_def split: if_splits)
    ultimately show ?thesis using 3 lkup_enter(1,2) [OF 3(5)] by auto
  qed
qed auto

lemma rdstates_length: "rdstates s = Ret u s' \<Longrightarrow> length (ginp s') \<le> length (ginp s)"
proof (induction s rule: rdstates.induct)
  case (1 s)
  show ?case
  proof (cases "ginp s")
    case (Cons c r)
    consider "c = 10" | "c \<noteq> 10" "isspace c" | "c \<noteq> 10" "\<not> isspace c" by blast
    then show ?thesis
    proof cases
      case 1
      then show ?thesis using "1.prems" Cons by (subst (asm) rdstates.simps) auto
    next
      case 2
      then have "rdstates (s\<lparr>ginp := r\<rparr>) = Ret u s'" using "1.prems" Cons by (subst (asm) rdstates.simps) simp
      from "1.IH"(1) [OF Cons 2 this] Cons show ?thesis by simp
    next
      case 3
      obtain w r' where w: "rdword (c # r) = (w, r')" by fastforce
      with 3 "1.prems" Cons obtain v s1 where e: "enter w (int (Suc (nstates s))) (s\<lparr>ginp := r', nstates := Suc (nstates s)\<rparr>) = Ret v s1"
        "rdstates (put (cbytes ''#define '' @ w @ [32] @ decimal (nstates s1) @ [10]) s1) = Ret u s'"
        by (subst (asm) rdstates.simps) (auto simp: kbind_Ret_iff)
      from "1.IH"(2) [OF Cons 3 w [symmetric] e] lkup_enter(2) [OF e(1)] rdword_length [OF w] Cons show ?thesis by simp
    qed
  qed (use "1.prems" in \<open>subst (asm) rdstates.simps, auto\<close>)
qed

declare rdstates.simps [simp del]

function initial :: "gw \<Rightarrow> (unit, gw) outcome" where
  "initial s =
     (case ginp s of
        [] \<Rightarrow> Ret () s
      | c # r \<Rightarrow>
          if c = 37 then
            (case rdword r of
               (w, r') \<Rightarrow>
                 if w = cbytes ''states'' then kbind (rdstates (s\<lparr>ginp := r'\<rparr>)) (\<lambda>_ s. initial s)
                 else if w = [37] then Ret () (s\<lparr>ginp := r'\<rparr>)
                 else initial (put (37 # w) (s\<lparr>ginp := r'\<rparr>)))
          else initial (put [c] (s\<lparr>ginp := r, lines := (if c = 10 then Suc (lines s) else lines s)\<rparr>)))"
  by pat_completeness auto
termination
  by (relation "measure (\<lambda>s. length (ginp s))")
     (auto dest!: rdword_length [OF sym] rdstates_length)

declare initial.simps [simp del]

subsection \<open>The action table\<close>

text \<open>\<open>None\<close> is a read beyond the state set of a rule.\<close>

fun faction :: "transx list \<Rightarrow> int \<Rightarrow> int \<Rightarrow> int option" where
  "faction [] state chr = Some (-1)"
| "faction (t # ts) state chr =
     (case (if anyst t then Some True else teststate state t) of
        None \<Rightarrow> None
      | Some b \<Rightarrow>
          if b \<and> (inchr t = 46 - 32 \<or> inchr t = word_of_int chr) then Some (actno t)
          else faction ts state chr)"

definition emptytbl :: "gw \<Rightarrow> (unit, gw) outcome" where
  "emptytbl s =
     (let n = nstates s * 96
      in if length (tbl s) < n then Wild else Ret () (s\<lparr>tbl := replicate n (-1) @ drop n (tbl s)\<rparr>))"

definition addaction :: "int \<Rightarrow> int \<Rightarrow> int \<Rightarrow> gw \<Rightarrow> (unit, gw) outcome" where
  "addaction act state chr s =
     (case aput (tbl s) (state * 96 + chr) act of None \<Rightarrow> Wild | Some t \<Rightarrow> Ret () (s\<lparr>tbl := t\<rparr>))"

text \<open>The loops of \<open>main\<close>: over the characters 1 to 95, and over the states 0 to \<open>nstates\<close>.\<close>

fun fill_row :: "transx list \<Rightarrow> nat \<Rightarrow> nat list \<Rightarrow> gw \<Rightarrow> (unit, gw) outcome" where
  "fill_row ts state [] s = Ret () s"
| "fill_row ts state (c # cs) s =
     (case faction ts (int state) (int c) of
        None \<Rightarrow> Wild
      | Some act \<Rightarrow> kbind (addaction act (int state) (int c) s) (\<lambda>_ s. fill_row ts state cs s))"

fun fill_rows :: "transx list \<Rightarrow> nat list \<Rightarrow> gw \<Rightarrow> (unit, gw) outcome" where
  "fill_rows ts [] s = Ret () s"
| "fill_rows ts (st # sts) s = kbind (fill_row ts st [1..<96] s) (\<lambda>_ s. fill_rows ts sts s)"

text \<open>Printing the table: \<open>%2d\<close>, sixteen to a line, the last one without a comma.\<close>

definition dec2 :: "int \<Rightarrow> byte list" where
  "dec2 i = (let d = (if i < 0 then 45 # decimal (nat (- i)) else decimal (nat i))
             in if length d < 2 then 32 # d else d)"

fun warray_loop :: "nat \<Rightarrow> int list \<Rightarrow> byte list" where
  "warray_loop i [] = []"
| "warray_loop i (x # xs) =
     [32] @ dec2 x @ [44] @ (if Suc i mod 16 = 0 then [10] else []) @ warray_loop (Suc i) xs"

definition warray :: "byte list \<Rightarrow> int list \<Rightarrow> nat \<Rightarrow> byte list \<Rightarrow> byte list" where
  "warray nam cont siz typ =
     typ @ [32] @ nam @ cbytes ''[] = {'' @ [10] @ warray_loop 0 (take (siz - 1) cont) @
     dec2 (cont ! (siz - 1)) @ [10] @ cbytes ''};'' @ [10]"

definition writetbl :: "gw \<Rightarrow> gw" where
  "writetbl s = put (warray (cbytes ''tbl'') (tbl s) (96 * (nstates s + 1)) (cbytes ''short'')) s"

subsection \<open>The whole program\<close>

definition txt1 :: "byte list" where
  "txt1 = 10 # cbytes ''#define BEGIN state ='' @ [10, 10] @ cbytes ''int state = 0;'' @ [10, 10] @ cbytes ''int'' @ [10]"

definition txt2 :: "byte list" where
  "txt2 = cbytes ''()'' @ [10, 123, 10] @ cbytes ''    int c,actno;'' @ [10] @ cbytes ''    extern ''"

definition txt2a :: "byte list" where
  "txt2a = cbytes '' tbl[];'' @ [10] @ cbytes ''    while (1) {'' @ [10, 9] @ cbytes ''c = input() - 32;'' @ [10, 9] @
     cbytes ''if (c < 0 || c > 95) c = 0;'' @ [10]"

definition txt2b :: "byte list" where
  "txt2b = 9 # cbytes ''if ((actno = tbl[c + state*96]) != -1)'' @ [10, 9] @ cbytes ''    switch(actno) {'' @ [10]"

definition txt3 :: "byte list" where
  "txt3 = [10, 9] @ cbytes ''    }'' @ [10] @ cbytes ''    }'' @ [10, 125, 10, 10]"

definition prolog :: "gw \<Rightarrow> gw" where
  "prolog s = put (txt1 @ cbytes ''gwart'' @ txt2 @ cbytes ''short'' @ txt2a @ txt2b) s"

definition epilogue :: "gw \<Rightarrow> gw" where
  "epilogue s = put txt3 s"

definition copyrest :: "gw \<Rightarrow> gw" where
  "copyrest s = put (ginp s) (s\<lparr>ginp := []\<rparr>)"

definition warning_text :: "byte list" where
  "warning_text =
     10 # cbytes ''/* WARNING -- This C source program generated by gwart preprocessor. */'' @ [10] @
     cbytes ''/* Do not edit this file; edit the gwart-format source file instead, */'' @ [10] @
     cbytes ''/* and then run it through gwart to produce a new C source file.     */'' @ [10, 10]"

definition rdinput :: "gw \<Rightarrow> (transx list, gw) outcome" where
  "rdinput s =
     (let s = put warning_text (s\<lparr>lines := 1, nstates := 0, nacts := 0\<rparr>)
      in kbind (initial s) (\<lambda>_ s. kbind (rdrules None [] (prolog s)) (\<lambda>x s. Ret x (epilogue s))))"

definition build_table :: "transx list \<Rightarrow> gw \<Rightarrow> (unit, gw) outcome" where
  "build_table head s = kbind (emptytbl s) (\<lambda>_ s. fill_rows head [0..<Suc (nstates s)] s)"

definition gw_start :: "byte list \<Rightarrow> gw" where
  "gw_start inp = \<lparr>ginp = inp, gout = [], lines = 0, nstates = 0, nacts = 0, tokval = [], htab = replicate HASHSIZE [],
     tbl = replicate (MAXSTATES * 96) 0\<rparr>"

text \<open>\<open>main\<close> on an input file that could be opened; the result is the file it writes.\<close>

definition gwart_main :: "byte list \<Rightarrow> (unit, gw) outcome" where
  "gwart_main inp =
     kbind (rdinput (clrhash (gw_start inp))) (\<lambda>head s.
       kbind (build_table head s) (\<lambda>_ s. Ret () (copyrest (writetbl s))))"

section \<open>The symbol table is a finite map\<close>

text \<open>What the parser relies on: names can be entered once, and are found afterwards with their values.\<close>

locale symbol_table =
  fixes empty :: 't
    and enter_sym :: "byte list \<Rightarrow> int \<Rightarrow> 't \<Rightarrow> 't option"
    and lookup :: "'t \<Rightarrow> byte list \<Rightarrow> int option"
    and invar :: "'t \<Rightarrow> bool"
  assumes lookup_empty: "lookup empty = (\<lambda>_. None)"
    and enter_new: "invar t \<Longrightarrow> lookup t n = None \<Longrightarrow> v \<noteq> -1 \<Longrightarrow>
      \<exists>t'. enter_sym n v t = Some t' \<and> invar t' \<and> lookup t' = (lookup t)(n \<mapsto> v)"
    and enter_twice: "invar t \<Longrightarrow> lookup t n \<noteq> None \<Longrightarrow> enter_sym n v t = None"
    and invar_empty: "invar empty"
begin

lemma enter_all_map:
  assumes "invar t" "distinct (map fst bs)" "list_all (\<lambda>b. snd b \<noteq> -1) bs" "\<forall>b \<in> set bs. lookup t (fst b) = None"
  shows "\<exists>t'. foldl (\<lambda>m b. Option.bind m (enter_sym (fst b) (snd b))) (Some t) bs = Some t' \<and> invar t' \<and>
    lookup t' = lookup t ++ map_of bs"
  using assms
proof (induction bs arbitrary: t)
  case (Cons b bs)
  from Cons.prems obtain t1 where t1: "enter_sym (fst b) (snd b) t = Some t1" "invar t1" "lookup t1 = (lookup t)(fst b \<mapsto> snd b)"
    using enter_new [of t "fst b" "snd b"] by auto
  have "\<forall>c \<in> set bs. lookup t1 (fst c) = None" using Cons.prems(2,4) t1(3) by (auto simp: image_iff)
  with Cons.IH [OF t1(2)] Cons.prems obtain t' where
    t': "foldl (\<lambda>m b. Option.bind m (enter_sym (fst b) (snd b))) (Some t1) bs = Some t'" "invar t'" "lookup t' = lookup t1 ++ map_of bs"
    by auto
  have "fst b \<notin> dom (map_of bs)" using Cons.prems(2) by (simp add: dom_map_of_conv_image_fst)
  then have "lookup t' = lookup t ++ map_of (b # bs)"
    using t'(3) t1(3) by (cases b) (simp add: map_add_upd_left map_add_upd)
  moreover have "foldl (\<lambda>m b. Option.bind m (enter_sym (fst b) (snd b))) (Some t) (b # bs) = Some t'" using t1(1) t'(1) by simp
  ultimately show ?case using t'(2) by blast
qed simp

end

definition table_lookup :: "gw \<Rightarrow> byte list \<Rightarrow> int option" where
  "table_lookup s n = (if lkup n s = -1 then None else Some (lkup n s))"

definition enter_opt :: "byte list \<Rightarrow> int \<Rightarrow> gw \<Rightarrow> gw option" where
  "enter_opt n v s = (case enter n v s of Ret _ s' \<Rightarrow> Some s' | _ \<Rightarrow> None)"

definition htab_ok :: "gw \<Rightarrow> bool" where
  "htab_ok s \<longleftrightarrow> length (htab s) = HASHSIZE"

lemma lkup_start: "lkup n (clrhash (gw_start inp)) = -1"
  using hash_less [of n] by (simp add: lkup_def clrhash_def)

interpretation sym: symbol_table "clrhash (gw_start inp)" enter_opt table_lookup htab_ok for inp
proof unfold_locales
  show "table_lookup (clrhash (gw_start inp)) = (\<lambda>_. None)" by (simp add: table_lookup_def lkup_start fun_eq_iff)
  show "htab_ok (clrhash (gw_start inp))" by (simp add: htab_ok_def clrhash_def)
next
  fix t n and v :: int
  assume a: "htab_ok t" "table_lookup t n = None" "v \<noteq> -1"
  then have "lkup n t = -1" by (simp add: table_lookup_def split: if_splits)
  then obtain t' where t': "enter n v t = Ret () t'" using a(1) hash_less [of n] by (simp add: enter_def htab_ok_def Let_def)
  then show "\<exists>t'. enter_opt n v t = Some t' \<and> htab_ok t' \<and> table_lookup t' = (table_lookup t)(n \<mapsto> v)"
    using a lkup_enter [OF t'] by (auto simp: enter_opt_def htab_ok_def table_lookup_def fun_eq_iff)
next
  fix t n v
  assume "htab_ok t" "table_lookup t n \<noteq> None"
  then show "enter_opt n v t = None" by (auto simp: enter_opt_def enter_def table_lookup_def split: if_splits)
qed

text \<open>
  C20. The symbol table is the map of the names entered into it: starting from the
  cleared table, entering names that differ from each other succeeds, whatever chains they hash to,
  and afterwards \<open>lkup\<close> finds each name with its value and no other name.
\<close>

theorem symbols_found:
  assumes "distinct (map fst bs)" "list_all (\<lambda>b. snd b \<noteq> -1) bs"
  shows "\<exists>s. foldl (\<lambda>m b. Option.bind m (enter_opt (fst b) (snd b))) (Some (clrhash (gw_start inp))) bs = Some s \<and>
    (\<forall>n. lkup n s = (case map_of bs n of None \<Rightarrow> -1 | Some v \<Rightarrow> v))"
proof -
  have "\<forall>b \<in> set bs. table_lookup (clrhash (gw_start inp)) (fst b) = None" by (simp add: table_lookup_def lkup_start)
  from sym.enter_all_map [OF sym.invar_empty assms this] obtain s where
    s: "foldl (\<lambda>m b. Option.bind m (enter_opt (fst b) (snd b))) (Some (clrhash (gw_start inp))) bs = Some s"
    "table_lookup s = table_lookup (clrhash (gw_start inp)) ++ map_of bs" by blast
  have "lkup n s = (case map_of bs n of None \<Rightarrow> -1 | Some v \<Rightarrow> v)" for n
  proof -
    have "table_lookup s n = map_of bs n"
      using s(2) by (simp add: sym.lookup_empty)
    moreover have "map_of bs n \<noteq> Some (-1)" using assms(2) map_of_SomeD [of bs n "-1"] by (force simp: list_all_iff)
    ultimately show ?thesis by (cases "map_of bs n") (auto simp: table_lookup_def split: if_splits)
  qed
  with s(1) show ?thesis by blast
qed

theorem symbols_found_witness:
  "\<exists>s. foldl (\<lambda>m b. Option.bind m (enter_opt (fst b) (snd b))) (Some (clrhash (gw_start []))) [([97], 1), ([98], 2)] = Some s \<and>
     lkup [98] s = 2 \<and> lkup [99] s = -1"
  using symbols_found [of "[([97], 1), ([98], 2)]" "[]"] by auto

section \<open>State sets\<close>

lemma state_mask: "k < 8 \<Longrightarrow> drop_bit k (0x80 :: byte) = push_bit (7 - k) 1"
proof -
  assume "k < 8"
  then have "k = 0 \<or> k = 1 \<or> k = 2 \<or> k = 3 \<or> k = 4 \<or> k = 5 \<or> k = 6 \<or> k = 7" by linarith
  then show ?thesis by (elim disjE; simp; code_simp)
qed

lemma teststate_bit:
  assumes "length (states t) = SBYTES" "0 \<le> j" "j < 56"
  shows "teststate j t = Some (bit (states t ! nat (j div 8)) (7 - nat (j mod 8)))"
proof -
  have "0 \<le> j div 8" "j div 8 < 7" "nat (j mod 8) < 8" using assms(2,3) by auto
  then show ?thesis
    using assms(1) state_mask [of "nat (j mod 8)"]
    by (simp add: teststate_def aget_def Let_def bit_iff_and_push_bit_not_eq_0)
qed

lemma setwstate_set:
  assumes "length (states t) = SBYTES" "0 \<le> i" "i < 56"
  shows "\<exists>t'. setwstate i t = Some t' \<and> length (states t') = SBYTES \<and> anyst t' = anyst t \<and>
    (\<forall>j. 0 \<le> j \<and> j < 56 \<longrightarrow> teststate j t' = Some (j = i \<or> teststate j t = Some True))"
proof -
  have i: "0 \<le> i div 8" "i div 8 < 7" "nat (i mod 8) < 8" using assms(2,3) by auto
  define b where "b = states t ! nat (i div 8) OR push_bit (7 - nat (i mod 8)) 1"
  define t' where "t' = t\<lparr>states := (states t)[nat (i div 8) := b]\<rparr>"
  have s: "setwstate i t = Some t'"
    using assms(1) i state_mask [of "nat (i mod 8)"] by (simp add: setwstate_def aget_def Let_def t'_def b_def)
  have l: "length (states t') = SBYTES" using assms(1) by (simp add: t'_def)
  have "teststate j t' = Some (j = i \<or> teststate j t = Some True)" if j: "0 \<le> j" "j < 56" for j
  proof -
    have jj: "0 \<le> j div 8" "j div 8 < 7" "nat (j mod 8) < 8" using j by auto
    have eq: "j = i \<longleftrightarrow> j div 8 = i div 8 \<and> nat (j mod 8) = nat (i mod 8)"
      by (metis div_mult_mod_eq nat_eq_iff2 pos_mod_sign zero_less_numeral)
    show ?thesis
    proof (cases "j div 8 = i div 8")
      case True
      define m n where "m = nat (j mod 8)" and "n = nat (i mod 8)"
      have mn: "m < 8" "n < 8" using jj(3) i(3) by (simp_all add: m_def n_def)
      have "bit b (7 - m) \<longleftrightarrow> bit (states t ! nat (i div 8)) (7 - m) \<or> bit (push_bit (7 - n) 1 :: byte) (7 - m)"
        by (simp only: b_def bit_or_iff n_def)
      moreover have "bit (push_bit (7 - n) 1 :: byte) (7 - m) \<longleftrightarrow> m = n"
        unfolding bit_push_bit_iff bit_1_iff using mn by (auto simp: possible_bit_def)
      ultimately have "bit b (7 - nat (j mod 8)) \<longleftrightarrow> bit (states t ! nat (i div 8)) (7 - nat (j mod 8)) \<or> nat (j mod 8) = nat (i mod 8)"
        by (simp only: m_def n_def)
      moreover have "states t' ! nat (j div 8) = b" using True i assms(1) by (simp add: t'_def)
      ultimately show ?thesis using True eq unfolding teststate_bit [OF l j] teststate_bit [OF assms(1) j] by auto
    next
      case False
      then have "nat (j div 8) \<noteq> nat (i div 8)" using jj(1) i(1) by linarith
      then have "states t' ! nat (j div 8) = states t ! nat (j div 8)" by (simp add: t'_def)
      then show ?thesis using False eq unfolding teststate_bit [OF l j] teststate_bit [OF assms(1) j] by auto
    qed
  qed
  with s l show ?thesis by (auto simp: t'_def)
qed

section \<open>The table holds the first matching rule\<close>

definition trans_ok :: "transx \<Rightarrow> bool" where
  "trans_ok t \<longleftrightarrow> length (states t) = SBYTES"

text \<open>The action a rule list prescribes: that of the first rule for the state and the character.\<close>

definition first_rule :: "transx list \<Rightarrow> int \<Rightarrow> int \<Rightarrow> int" where
  "first_rule ts state chr =
     (case find (\<lambda>t. (anyst t \<or> teststate state t = Some True) \<and> (inchr t = 46 - 32 \<or> inchr t = word_of_int chr)) ts of
        None \<Rightarrow> -1 | Some t \<Rightarrow> actno t)"

lemma faction_first:
  assumes "list_all trans_ok ts" "0 \<le> state" "state < 56"
  shows "faction ts state chr = Some (first_rule ts state chr)"
  using assms(1)
proof (induction ts)
  case (Cons t ts)
  then have "\<exists>b. teststate state t = Some b" using teststate_bit assms(2,3) by (auto simp: trans_ok_def)
  with Cons show ?case by (auto simp: first_rule_def split: if_splits)
qed (simp add: first_rule_def)

lemma fill_row_spec:
  assumes "list_all trans_ok ts" "st < MAXSTATES" "length (tbl s) = MAXSTATES * 96" "set cs \<subseteq> {1..<96}"
  shows "\<exists>u. fill_row ts st cs s = Ret () (s\<lparr>tbl := u\<rparr>) \<and> length u = MAXSTATES * 96 \<and>
    (\<forall>i < MAXSTATES * 96. u ! i = (if i div 96 = st \<and> i mod 96 \<in> set cs then first_rule ts (int st) (int (i mod 96)) else tbl s ! i))"
  using assms(3,4)
proof (induction cs arbitrary: s)
  case (Cons c cs)
  have c: "1 \<le> c" "c < 96" using Cons.prems(2) by auto
  have f: "faction ts (int st) (int c) = Some (first_rule ts (int st) (int c))"
    using assms(1,2) by (intro faction_first) auto
  define s1 where "s1 = s\<lparr>tbl := (tbl s)[st * 96 + c := first_rule ts (int st) (int c)]\<rparr>"
  have ix: "nat (int st * 96 + int c) = st * 96 + c" by (simp add: nat_plus_as_int)
  have "st * 96 + c < MAXSTATES * 96" using assms(2) c by simp
  then have a: "addaction (first_rule ts (int st) (int c)) (int st) (int c) s = Ret () s1"
    using Cons.prems(1) by (simp add: addaction_def aput_def ix s1_def)
  have l1: "length (tbl s1) = MAXSTATES * 96" using Cons.prems(1) by (simp add: s1_def)
  from Cons.IH [OF l1] Cons.prems(2) obtain u where u: "fill_row ts st cs s1 = Ret () (s1\<lparr>tbl := u\<rparr>)" "length u = MAXSTATES * 96"
    "\<forall>i < MAXSTATES * 96. u ! i = (if i div 96 = st \<and> i mod 96 \<in> set cs then first_rule ts (int st) (int (i mod 96)) else tbl s1 ! i)"
    by auto
  have e: "i = st * 96 + c \<longleftrightarrow> i div 96 = st \<and> i mod 96 = c" for i using c div_mult_mod_eq [of i 96] by auto
  have "u ! i = (if i div 96 = st \<and> i mod 96 \<in> set (c # cs) then first_rule ts (int st) (int (i mod 96)) else tbl s ! i)"
    if "i < MAXSTATES * 96" for i
    using u(3) that Cons.prems(1) e [of i] by (auto simp: s1_def nth_list_update)
  moreover have "fill_row ts st (c # cs) s = Ret () (s\<lparr>tbl := u\<rparr>)" using f a u(1) by (simp add: s1_def)
  ultimately show ?case using u(2) by blast
next
  case Nil
  then show ?case by (intro exI [of _ "tbl s"]) simp
qed

lemma fill_rows_spec:
  assumes "list_all trans_ok ts" "set sts \<subseteq> {..<MAXSTATES}" "length (tbl s) = MAXSTATES * 96"
  shows "\<exists>u. fill_rows ts sts s = Ret () (s\<lparr>tbl := u\<rparr>) \<and> length u = MAXSTATES * 96 \<and>
    (\<forall>i < MAXSTATES * 96. u ! i = (if i div 96 \<in> set sts \<and> i mod 96 \<noteq> 0 then first_rule ts (int (i div 96)) (int (i mod 96)) else tbl s ! i))"
  using assms(2,3)
proof (induction sts arbitrary: s)
  case (Cons st sts)
  from fill_row_spec [OF assms(1) _ Cons.prems(2), of st "[1..<96]"] Cons.prems(1) obtain u where
    u: "fill_row ts st [1..<96] s = Ret () (s\<lparr>tbl := u\<rparr>)" "length u = MAXSTATES * 96"
    "\<forall>i < MAXSTATES * 96. u ! i = (if i div 96 = st \<and> i mod 96 \<in> {1..<96} then first_rule ts (int st) (int (i mod 96)) else tbl s ! i)"
    by auto
  from Cons.IH [of "s\<lparr>tbl := u\<rparr>"] Cons.prems(1) u(2) obtain v where
    v: "fill_rows ts sts (s\<lparr>tbl := u\<rparr>) = Ret () (s\<lparr>tbl := v\<rparr>)" "length v = MAXSTATES * 96"
    "\<forall>i < MAXSTATES * 96. v ! i = (if i div 96 \<in> set sts \<and> i mod 96 \<noteq> 0 then first_rule ts (int (i div 96)) (int (i mod 96)) else u ! i)"
    by auto
  have "v ! i = (if i div 96 \<in> set (st # sts) \<and> i mod 96 \<noteq> 0 then first_rule ts (int (i div 96)) (int (i mod 96)) else tbl s ! i)"
    if "i < MAXSTATES * 96" for i
    using u(3) v(3) that by (auto simp: Suc_le_eq)
  then show ?case using u(1) v(1,2) by auto
next
  case Nil
  then show ?case by (intro exI [of _ "tbl s"]) simp
qed

text \<open>What parsing leaves alone, and what it guarantees of the rules.\<close>

lemma gettoken_tbl: "gettoken s = Ret t s' \<Longrightarrow> tbl s' = tbl s"
proof (induction s rule: gettoken.induct)
  case (1 s)
  obtain q n where k: "skip_space (ginp s) (lines s) = (q, n)" by fastforce
  show ?case
  proof (cases q)
    case Nil
    with k 1 show ?thesis by (subst (asm) (2) gettoken.simps) auto
  next
    case (Cons c r)
    note e = "1.prems" [unfolded gettoken.simps [of s] k [unfolded Cons] prod.case list.case Let_def]
    have ih: "tbl s' = tbl s"
      if "rdcmnt False False r' n = Some (r'', n')" "r = 42 # r'" "c = 47"
        "gettoken (s\<lparr>ginp := r'', lines := n'\<rparr>) = Ret t s'" for r' r'' n'
      using "1.IH" [OF k [unfolded Cons, symmetric] refl refl _ _ _ _ that(3,2) refl that(1) refl that(4)] that(3) by simp
    show ?thesis
      using e by (auto simp: fatal_def percent_word_def split: if_splits list.splits option.splits prod.splits dest: ih)
  qed
qed

lemma setwstate_ok: "setwstate i t = Some t' \<Longrightarrow> trans_ok t \<Longrightarrow> trans_ok t'"
  by (auto simp: setwstate_def trans_ok_def Let_def split: option.splits)

lemma statelist_ok: "statelist tok t s = Ret t' s' \<Longrightarrow> trans_ok t \<Longrightarrow> trans_ok t' \<and> tbl s' = tbl s"
proof (induction tok t s rule: statelist.induct)
  case (1 tok t s)
  show ?case
  proof (cases "tok = RBRACK")
    case True
    then show ?thesis using "1.prems" by (subst (asm) statelist.simps) simp
  next
    case False
    with "1.prems" obtain s1 t1 tok2 s2 where g: "tok = COMMA" "gettoken s = Ret WORD s1" "lkup (tokval s1) s1 \<noteq> -1"
      "setwstate (lkup (tokval s1) s1) t = Some t1" "gettoken s1 = Ret tok2 s2" "statelist tok2 t1 s2 = Ret t' s'"
      by (subst (asm) statelist.simps) (auto simp: fatal_def kbind_Ret_iff Let_def split: if_splits option.splits)
    have "trans_ok t' \<and> tbl s' = tbl s2"
      using "1.IH" [OF False _ g(2) _ refl g(3,4,5,6)] g(1) setwstate_ok [OF g(4) "1.prems"(2)] by simp
    then show ?thesis using gettoken_tbl [OF g(2)] gettoken_tbl [OF g(5)] by simp
  qed
qed

lemma copyact_tbl: "copyact n s = Ret u s' \<Longrightarrow> tbl s' = tbl s"
  by (auto simp: copyact_def Let_def put_def fatal_def split: prod.splits list.splits if_splits)

lemma newtrans_ok: "trans_ok newtrans"
  by (simp add: trans_ok_def newtrans_def)

lemma rdrules_ok:
  assumes "rdrules cur head s = Ret ts s'" "list_all trans_ok head" "\<And>t. cur = Some t \<Longrightarrow> trans_ok t"
  shows "list_all trans_ok ts \<and> tbl s' = tbl s"
  using assms
proof (induction cur head s rule: rdrules.induct)
  case (1 cur head s)
  from "1.prems"(1) obtain tok s1 where g: "gettoken s = Ret tok s1"
    by (subst (asm) rdrules.simps) (auto simp: kbind_Ret_iff)
  have g1: "tbl s1 = tbl s" by (rule gettoken_tbl [OF g])
  consider (sep) "tok = SEP" | (br) "tok = LBRACK" | (w) "tok = WORD" | (other) "tok = RBRACK \<or> tok = COMMA" by (cases tok) auto
  then show ?case
  proof cases
    case sep
    then show ?thesis using "1.prems" g g1 by (subst (asm) rdrules.simps) auto
  next
    case br
    with "1.prems"(1) g obtain t s2 where t: "cur = None" "statelist COMMA newtrans s1 = Ret t s2" "rdrules (Some t) head s2 = Ret ts s'"
      by (subst (asm) rdrules.simps) (auto simp: kbind_Ret_iff fatal_def split: option.splits)
    note k = statelist_ok [OF t(2) newtrans_ok]
    from "1.IH"(1) [OF g _ br t(1,2,3) "1.prems"(2)] br k g1 show ?thesis by auto
  next
    case w
    define t0 where "t0 = (case cur of None \<Rightarrow> newtrans\<lparr>anyst := True\<rparr> | Some t \<Rightarrow> t)"
    define s2 where "s2 = s1\<lparr>nacts := Suc (nacts s1)\<rparr>"
    define t where "t = t0\<lparr>actno := int (nacts s2), inchr := hd (tokval s2) - 32\<rparr>"
    from w "1.prems"(1) g obtain v s3 where c: "length (tokval s1) = 1" "copyact (nacts s2) s2 = Ret v s3"
      "rdrules None (head @ [t]) s3 = Ret ts s'"
      by (subst (asm) rdrules.simps) (auto simp: kbind_Ret_iff fatal_def Let_def t_def t0_def s2_def split: if_splits)
    have "trans_ok t0" using "1.prems"(3) newtrans_ok by (auto simp: t0_def trans_ok_def split: option.splits)
    then have "trans_ok t" by (simp add: t_def trans_ok_def)
    then have "list_all trans_ok (head @ [t])" using "1.prems"(2) by simp
    from "1.IH"(2) [OF g _ _ w _ t0_def s2_def t_def c(2,3) this] w c(1) copyact_tbl [OF c(2)] g1 show ?thesis
      by (auto simp: s2_def)
  next
    case other
    then show ?thesis using "1.prems"(1) g by (subst (asm) rdrules.simps) (auto simp: fatal_def)
  qed
qed

lemma enter_tbl: "enter n v s = Ret u s' \<Longrightarrow> tbl s' = tbl s"
  by (auto simp: enter_def Let_def split: if_splits)

lemma rdstates_tbl: "rdstates s = Ret u s' \<Longrightarrow> tbl s' = tbl s"
proof (induction s rule: rdstates.induct)
  case (1 s)
  show ?case
  proof (cases "ginp s")
    case (Cons c r)
    consider "c = 10" | "c \<noteq> 10" "isspace c" | "c \<noteq> 10" "\<not> isspace c" by blast
    then show ?thesis
    proof cases
      case 1
      then show ?thesis using "1.prems" Cons by (subst (asm) rdstates.simps) auto
    next
      case 2
      then have "rdstates (s\<lparr>ginp := r\<rparr>) = Ret u s'" using "1.prems" Cons by (subst (asm) rdstates.simps) simp
      from "1.IH"(1) [OF Cons 2 this] show ?thesis by simp
    next
      case 3
      obtain w r' where w: "rdword (c # r) = (w, r')" by fastforce
      with 3 "1.prems" Cons obtain v s1 where e: "enter w (int (Suc (nstates s))) (s\<lparr>ginp := r', nstates := Suc (nstates s)\<rparr>) = Ret v s1"
        "rdstates (put (cbytes ''#define '' @ w @ [32] @ decimal (nstates s1) @ [10]) s1) = Ret u s'"
        by (subst (asm) rdstates.simps) (auto simp: kbind_Ret_iff)
      from "1.IH"(2) [OF Cons 3 w [symmetric] e] enter_tbl [OF e(1)] show ?thesis by (simp add: put_def)
    qed
  qed (use "1.prems" in \<open>subst (asm) rdstates.simps, auto\<close>)
qed

lemma initial_tbl: "initial s = Ret u s' \<Longrightarrow> tbl s' = tbl s"
proof (induction s rule: initial.induct)
  case (1 s)
  show ?case
  proof (cases "ginp s")
    case (Cons c r)
    show ?thesis
    proof (cases "c = 37")
      case True
      obtain w r' where w: "rdword r = (w, r')" by fastforce
      consider "w = cbytes ''states''" | "w \<noteq> cbytes ''states''" "w = [37]" | "w \<noteq> cbytes ''states''" "w \<noteq> [37]" by blast
      then show ?thesis
      proof cases
        case 1
        with "1.prems" Cons True w obtain v s1 where e: "rdstates (s\<lparr>ginp := r'\<rparr>) = Ret v s1" "initial s1 = Ret u s'"
          by (subst (asm) initial.simps) (auto simp: kbind_Ret_iff)
        from "1.IH"(1) [OF Cons True w [symmetric] 1 e] rdstates_tbl [OF e(1)] show ?thesis by simp
      next
        case 2
        then show ?thesis using "1.prems" Cons True w by (subst (asm) initial.simps) auto
      next
        case 3
        with "1.prems" Cons True w have "initial (put (37 # w) (s\<lparr>ginp := r'\<rparr>)) = Ret u s'"
          by (subst (asm) initial.simps) auto
        from "1.IH"(2) [OF Cons True w [symmetric] 3 this] show ?thesis by (simp add: put_def)
      qed
    next
      case False
      with "1.prems" Cons have "initial (put [c] (s\<lparr>ginp := r, lines := (if c = 10 then Suc (lines s) else lines s)\<rparr>)) = Ret u s'"
        by (subst (asm) initial.simps) auto
      from "1.IH"(3) [OF Cons False this] show ?thesis by (simp add: put_def)
    qed
  qed (use "1.prems" in \<open>subst (asm) initial.simps, auto\<close>)
qed

lemma rdinput_ok:
  assumes "rdinput s = Ret ts s'"
  shows "list_all trans_ok ts \<and> tbl s' = tbl s"
proof -
  from assms obtain u s1 s2 where i: "initial (put warning_text (s\<lparr>lines := 1, nstates := 0, nacts := 0\<rparr>)) = Ret u s1"
    "rdrules None [] (prolog s1) = Ret ts s2" "s' = epilogue s2"
    by (auto simp: rdinput_def Let_def kbind_Ret_iff)
  from rdrules_ok [OF i(2)] initial_tbl [OF i(1)] i(3) show ?thesis by (simp add: prolog_def epilogue_def put_def)
qed

lemma build_table_ok:
  assumes "list_all trans_ok ts" "nstates s < MAXSTATES" "length (tbl s) = MAXSTATES * 96"
  shows "\<exists>u. build_table ts s = Ret () (s\<lparr>tbl := u\<rparr>) \<and>
    (\<forall>st c. st \<le> nstates s \<and> 1 \<le> c \<and> c < 96 \<longrightarrow> u ! (st * 96 + c) = first_rule ts (int st) (int c)) \<and>
    (\<forall>st < nstates s. u ! (st * 96) = -1) \<and> u ! (nstates s * 96) = tbl s ! (nstates s * 96) \<and> length u = MAXSTATES * 96"
proof -
  let ?n = "nstates s * 96"
  define s1 where "s1 = s\<lparr>tbl := replicate ?n (-1) @ drop ?n (tbl s)\<rparr>"
  have e: "emptytbl s = Ret () s1" using assms(2,3) by (simp add: emptytbl_def s1_def Let_def)
  have l: "length (tbl s1) = MAXSTATES * 96" using assms(2,3) by (simp add: s1_def)
  have "set [0..<Suc (nstates s)] \<subseteq> {..<MAXSTATES}" using assms(2) by auto
  from fill_rows_spec [OF assms(1) this l] obtain u where u: "fill_rows ts [0..<Suc (nstates s)] s1 = Ret () (s1\<lparr>tbl := u\<rparr>)"
    "\<forall>i < MAXSTATES * 96. u ! i = (if i div 96 \<in> set [0..<Suc (nstates s)] \<and> i mod 96 \<noteq> 0
       then first_rule ts (int (i div 96)) (int (i mod 96)) else tbl s1 ! i)" "length u = MAXSTATES * 96" by blast
  have b: "build_table ts s = Ret () (s\<lparr>tbl := u\<rparr>)" using e u(1) by (simp add: build_table_def s1_def)
  have "u ! (st * 96 + c) = first_rule ts (int st) (int c)" if "st \<le> nstates s" "1 \<le> c" "c < 96" for st c
  proof -
    have "st * 96 + c < MAXSTATES * 96" "(st * 96 + c) div 96 = st" "(st * 96 + c) mod 96 = c" using that assms(2) by auto
    with u(2) that show ?thesis by simp
  qed
  moreover have "u ! (st * 96) = -1" if "st < nstates s" for st
  proof -
    have "st * 96 < ?n" using that by simp
    moreover have "?n \<le> MAXSTATES * 96" using assms(2) by simp
    ultimately show ?thesis using u(2) by (simp add: s1_def nth_append)
  qed
  moreover have "u ! ?n = tbl s ! ?n"
    using u(2) assms(2,3) by (simp add: s1_def nth_append)
  ultimately show ?thesis using b u(3) by blast
qed

text \<open>
  C19. The program gwart writes dispatches as the rules say: for every state of a
  specification with at most 49 states and every character from 33 to 127, the table entry the
  generated loop reads is the number of the first rule for that state and character, in the order of
  the file, or -1 when there is none; the entry for all other characters is one without an action.
\<close>

theorem gwart_table_correct:
  assumes "rdinput (clrhash (gw_start inp)) = Ret ts s" "nstates s < MAXSTATES"
  shows "\<exists>u. gwart_main inp = Ret () (copyrest (writetbl (s\<lparr>tbl := u\<rparr>))) \<and>
    (\<forall>st c. st \<le> nstates s \<and> 1 \<le> c \<and> c < 96 \<longrightarrow> u ! (st * 96 + c) = first_rule ts (int st) (int c)) \<and>
    (\<forall>st \<le> nstates s. u ! (st * 96) \<in> {-1, 0})"
proof -
  have ok: "list_all trans_ok ts" "tbl s = replicate (MAXSTATES * 96) 0"
    using rdinput_ok [OF assms(1)] by (simp_all add: clrhash_def gw_start_def)
  obtain u where u: "build_table ts s = Ret () (s\<lparr>tbl := u\<rparr>)"
    "\<forall>st c. st \<le> nstates s \<and> 1 \<le> c \<and> c < 96 \<longrightarrow> u ! (st * 96 + c) = first_rule ts (int st) (int c)"
    "\<forall>st < nstates s. u ! (st * 96) = -1" "u ! (nstates s * 96) = tbl s ! (nstates s * 96)"
    using build_table_ok [OF ok(1) assms(2)] ok(2) by auto
  have "u ! (st * 96) \<in> {-1, 0}" if "st \<le> nstates s" for st
    using u(3,4) that ok(2) assms(2) by (cases "st = nstates s") auto
  then show ?thesis using assms(1) u(1,2) by (auto simp: gwart_main_def)
qed

theorem gwart_table_correct_witness:
  "\<exists>ts s u. rdinput (clrhash (gw_start [37, 37, 10, 120, 10])) = Ret ts s \<and>
     gwart_main [37, 37, 10, 120, 10] = Ret () (copyrest (writetbl (s\<lparr>tbl := u\<rparr>))) \<and> u ! 88 = first_rule ts 0 88"
proof -
  have c: "isword 37" "\<not> isword 10" "isword 120" "isspace 10" "\<not> isspace 120" by code_simp+
  define s0 where "s0 = put warning_text ((clrhash (gw_start [37, 37, 10, 120, 10]))\<lparr>lines := 1, nstates := 0, nacts := 0\<rparr>)"
  define s1 where "s1 = prolog (s0\<lparr>ginp := [10, 120, 10]\<rparr>)"
  define s2 where "s2 = s1\<lparr>ginp := [10], lines := Suc (lines s1), tokval := [120]\<rparr>"
  have g: "ginp s0 = [37, 37, 10, 120, 10]" "ginp s1 = [10, 120, 10]" "ginp s2 = [10]" "tokval s2 = [120]" "nstates s2 = 0"
    by (simp_all add: s0_def s1_def s2_def prolog_def put_def clrhash_def gw_start_def)
  have "initial s0 = Ret () (s0\<lparr>ginp := [10, 120, 10]\<rparr>)"
    using c by (subst initial.simps) (simp add: g rdword_def cbytes_def)
  moreover have t: "gettoken s1 = Ret WORD s2"
    using c by (subst gettoken.simps) (simp add: g skip_space_def newlines_def rdword_def s2_def)
  define s3 where "s3 = s2\<lparr>nacts := Suc (nacts s2)\<rparr>"
  obtain s4 where k: "copyact (nacts s3) s3 = Ret () s4" "ginp s4 = []" "nstates s4 = 0"
    using c by (simp add: copyact_def put_def skip_space_def s3_def g Let_def)
  have e: "gettoken s4 = Ret SEP (s4\<lparr>ginp := []\<rparr>)"
    using k by (subst gettoken.simps) (simp add: skip_space_def newlines_def)
  define t where "t = newtrans\<lparr>anyst := True, actno := int (nacts s3), inchr := hd (tokval s3) - 32\<rparr>"
  have r: "rdrules None [] s1 = rdrules None [t] s4"
    using t k g by (subst rdrules.simps) (simp add: Let_def s3_def t_def)
  have "rdrules None [t] s4 = Ret [t] (s4\<lparr>ginp := []\<rparr>)" using e by (subst rdrules.simps) simp
  ultimately have i: "rdinput (clrhash (gw_start [37, 37, 10, 120, 10])) = Ret [t] (epilogue (s4\<lparr>ginp := []\<rparr>))"
    using r by (simp add: rdinput_def s0_def s1_def Let_def)
  have "nstates (epilogue (s4\<lparr>ginp := []\<rparr>)) < MAXSTATES" using k by (simp add: epilogue_def put_def)
  from gwart_table_correct [OF i this] obtain u where
    u: "gwart_main [37, 37, 10, 120, 10] = Ret () (copyrest (writetbl ((epilogue (s4\<lparr>ginp := []\<rparr>))\<lparr>tbl := u\<rparr>)))"
    "\<forall>st c. st \<le> nstates (epilogue (s4\<lparr>ginp := []\<rparr>)) \<and> 1 \<le> c \<and> c < 96 \<longrightarrow> u ! (st * 96 + c) = first_rule [t] (int st) (int c)"
    by blast
  have "u ! 88 = first_rule [t] 0 88" using u(2) [rule_format, of 0 88] by simp
  with i u(1) show ?thesis by blast
qed

text \<open>
  Fifty states, the maximum the program names, are one too many: state 0 needs
  a row of its own, so that the fifty-first row of the table lies beyond its end.
\<close>

lemma gwart_table_overflow:
  assumes "MAXSTATES \<le> nstates s" "length (tbl s) = MAXSTATES * 96"
  shows "build_table ts s = Wild"
proof (cases "nstates s = MAXSTATES")
  case False
  then have "length (tbl s) < nstates s * 96" using assms by simp
  then show ?thesis by (simp add: build_table_def emptytbl_def)
next
  case True
  define s1 where "s1 = s\<lparr>tbl := replicate (MAXSTATES * 96) (-1)\<rparr>"
  have e: "emptytbl s = Ret () s1" using True assms(2) by (simp add: emptytbl_def s1_def Let_def)
  have row: "fill_row ts st cs t = Wild \<or> (\<exists>t'. fill_row ts st cs t = Ret () t' \<and> length (tbl t') = length (tbl t))" for st cs t
  proof (induction cs arbitrary: t)
    case (Cons c cs)
    show ?case
      using Cons [of "t\<lparr>tbl := (tbl t)[nat (int st * 96 + int c) := the (faction ts (int st) (int c))]\<rparr>"]
      by (auto simp: addaction_def aput_def split: option.splits)
  qed simp
  have rows: "fill_rows ts sts t = Wild \<or> (\<exists>t'. fill_rows ts sts t = Ret () t' \<and> length (tbl t') = length (tbl t))" for sts t
  proof (induction sts arbitrary: t)
    case (Cons st sts)
    then show ?case using row [of st "[1..<96]" t] by auto metis
  qed simp
  have app: "fill_rows ts (xs @ ys) t = kbind (fill_rows ts xs t) (\<lambda>_ t. fill_rows ts ys t)" for xs ys t
  proof (induction xs arbitrary: t)
    case (Cons x xs)
    then have "fill_rows ts (xs @ ys) = (\<lambda>t. kbind (fill_rows ts xs t) (\<lambda>_ t. fill_rows ts ys t))" by (intro ext)
    then show ?case by (simp add: kbind_assoc)
  qed simp
  have last: "fill_row ts MAXSTATES [1..<96] t = Wild" if "length (tbl t) = MAXSTATES * 96" for t
  proof -
    have "[1..<96] = 1 # [2..<96]" by (simp add: upt_rec)
    then show ?thesis using that by (auto simp: addaction_def aput_def split: option.splits)
  qed
  have "[0..<Suc (nstates s1)] = [0..<MAXSTATES] @ [MAXSTATES]" using True by (simp only: upt_Suc s1_def) simp
  moreover have "fill_rows ts ([0..<MAXSTATES] @ [MAXSTATES]) s1 = Wild"
    using rows [of "[0..<MAXSTATES]" s1] last by (auto simp: app s1_def)
  ultimately show ?thesis unfolding build_table_def e kbind.simps by (simp only:)
qed

end
