(* ===== verification/Gwart_Parse.thy ===== *)
theory Gwart_Parse
  imports Gwart
begin

text \<open>
  What gwart's parser makes of a well-formed specification: the shape of such a file, as text, and
  the states and rules that \<open>rdinput\<close> reads from it.
\<close>

section \<open>The shape of a specification\<close>

text \<open>
  Between the rules stand white space and comments. A rule is an optional state in angle brackets, a
  letter and an action in braces; \<open>balanced 1 b\<close> says that \<open>b\<close> ends with the brace that closes the
  one before it.
\<close>

datatype gap = Blank string | Comment string

fun gap_text :: "gap \<Rightarrow> string" where
  "gap_text (Blank t) = t"
| "gap_text (Comment t) = ''/*'' @ t @ ''*/''"

fun gap_ok :: "gap \<Rightarrow> bool" where
  "gap_ok (Blank t) = (set t \<subseteq> set '' \<newline>	'')"
| "gap_ok (Comment t) = (CHR ''*'' \<notin> set t \<and> CHR ''%'' \<notin> set t)"

fun balanced :: "nat \<Rightarrow> string \<Rightarrow> bool" where
  "balanced 0 t = (t = [])"
| "balanced (Suc b) [] = False"
| "balanced (Suc b) (c # t) =
     balanced (if c = CHR 0x7B then Suc (Suc b) else if c = CHR 0x7D then b else Suc b) t"

record wrule =
  wgap :: "gap list"
  wst :: "string option"
  wchr :: char
  wbody :: string

definition gaps_text :: "gap list \<Rightarrow> string" where
  "gaps_text gs = concat (map gap_text gs)"

definition rule_text :: "wrule \<Rightarrow> string" where
  "rule_text r = gaps_text (wgap r) @ (case wst r of None \<Rightarrow> [] | Some n \<Rightarrow> ''<'' @ n @ ''>'') @ [wchr r] @ '' {'' @ wbody r"

definition states_text :: "string list \<Rightarrow> string" where
  "states_text ns = ''%states'' @ concat (map (\<lambda>n. CHR '' '' # n) ns) @ ''\<newline>''"

definition spec_text :: "string \<Rightarrow> string list list \<Rightarrow> string \<Rightarrow> wrule list \<Rightarrow> gap list \<Rightarrow> string \<Rightarrow> string" where
  "spec_text h nss m rs e z = h @ concat (map states_text nss) @ m @ ''%%'' @ concat (map rule_text rs) @ gaps_text e @ ''%%'' @ z"

text \<open>A name: up to 49 characters, all of a word, the first not a percent sign.\<close>

definition name_ok :: "string \<Rightarrow> bool" where
  "name_ok n \<longleftrightarrow> n \<noteq> [] \<and> list_all isword (cbytes n) \<and> length n < MAXWORD \<and> hd n \<noteq> CHR ''%''"

definition rule_ok :: "string list \<Rightarrow> wrule \<Rightarrow> bool" where
  "rule_ok ns r \<longleftrightarrow> list_all gap_ok (wgap r) \<and> (case wst r of None \<Rightarrow> True | Some n \<Rightarrow> n \<in> set ns) \<and> name_ok [wchr r] \<and>
     balanced 1 (wbody r)"

text \<open>The rule number \<open>k\<close> as the parser keeps it, where \<open>look\<close> gives the numbers of the states.\<close>

definition rule_trans :: "(byte list \<Rightarrow> int) \<Rightarrow> nat \<Rightarrow> wrule \<Rightarrow> transx" where
  "rule_trans look k r =
     (case wst r of None \<Rightarrow> newtrans\<lparr>anyst := True\<rparr> | Some n \<Rightarrow> the (setwstate (look (cbytes n)) newtrans))
       \<lparr>actno := int k, inchr := of_char (wchr r) - 32\<rparr>"

section \<open>Characters and bytes\<close>

lemma of_char_byte_eq [simp]: "(of_char c :: byte) = of_char d \<longleftrightarrow> c = d"
proof
  assume "(of_char c :: byte) = of_char d"
  then have "(of_nat (of_char c) :: byte) = of_nat (of_char d)" by (simp only: of_nat_of_char)
  then have "(of_char c :: nat) mod 256 = of_char d mod 256"
    by (simp only: word_of_nat_eq_iff take_bit_eq_mod) simp
  then show "c = d" by simp
qed simp

lemma byte_of_char: "(of_char c :: byte) = 37 \<longleftrightarrow> c = CHR ''%''" "(of_char c :: byte) = 42 \<longleftrightarrow> c = CHR ''*''"
  "(of_char c :: byte) = 123 \<longleftrightarrow> c = CHR 0x7B" "(of_char c :: byte) = 125 \<longleftrightarrow> c = CHR 0x7D"
  using of_char_byte_eq [of c "CHR ''%''"] of_char_byte_eq [of c "CHR ''*''"] of_char_byte_eq [of c "CHR 0x7B"]
    of_char_byte_eq [of c "CHR 0x7D"] by (simp_all del: of_char_byte_eq)

lemma cbytes_simps [simp]:
  "cbytes [] = []" "cbytes (c # t) = of_char c # cbytes t" "cbytes (t @ u) = cbytes t @ cbytes u" "length (cbytes t) = length t"
  by (simp_all add: cbytes_def)

lemma cbytes_mem: "37 \<in> set (cbytes t) \<longleftrightarrow> CHR ''%'' \<in> set t" "42 \<in> set (cbytes t) \<longleftrightarrow> CHR ''*'' \<in> set t"
  by (induction t) (auto simp: byte_of_char eq_commute [of "37 :: byte"] eq_commute [of "42 :: byte"])

lemma cbytes_inj: "cbytes t = cbytes u \<longleftrightarrow> t = u"
  by (auto simp: cbytes_def inj_map_eq_map inj_def)

lemma word_not_space: "isword c \<Longrightarrow> \<not> isspace c \<and> c \<notin> {60, 62, 44, 47}"
  by (auto simp: isword_def isalnum_def isdigit_def isupper_def islower_def isspace_def word_le_nat_alt)

section \<open>Tokens\<close>

lemma gettoken_blank:
  assumes "ginp s = xs @ r" "list_all isspace xs"
  shows "gettoken s = gettoken (s\<lparr>ginp := r, lines := lines s + newlines xs\<rparr>)"
proof -
  have "dropWhile isspace (xs @ r) = dropWhile isspace r" "takeWhile isspace (xs @ r) = xs @ takeWhile isspace r"
    using assms(2) by (auto simp: list_all_iff)
  then have "skip_space (ginp s) (lines s) = skip_space r (lines s + newlines xs)"
    by (simp add: skip_space_def assms(1) newlines_def)
  moreover have "s\<lparr>ginp := r, lines := m, ginp := a, lines := b\<rparr> = s\<lparr>ginp := a, lines := b\<rparr>"
    "ginp (s\<lparr>ginp := r, lines := m\<rparr>) = r" "lines (s\<lparr>ginp := r, lines := m\<rparr>) = m" for a b m by simp_all
  ultimately show ?thesis
    unfolding gettoken.simps [of s] gettoken.simps [of "s\<lparr>ginp := r, lines := lines s + newlines xs\<rparr>"] by (simp only:)
qed

lemma rdcmnt_skip:
  "42 \<notin> set xs \<Longrightarrow> 37 \<notin> set xs \<Longrightarrow> rdcmnt False False (xs @ 42 # 47 # r) n = Some (r, n + newlines xs)"
  by (induction xs arbitrary: n) (auto simp: newlines_def)

lemma gettoken_comment:
  assumes "ginp s = 47 # 42 # xs @ 42 # 47 # r" "42 \<notin> set xs" "37 \<notin> set xs"
  shows "gettoken s = gettoken (s\<lparr>ginp := r, lines := lines s + newlines xs\<rparr>)"
proof -
  have "\<not> isspace 47" by code_simp
  then show ?thesis
    using assms rdcmnt_skip [OF assms(2,3), of r "lines s"]
    by (subst gettoken.simps) (simp add: skip_space_def newlines_def)
qed

lemma gettoken_gaps:
  assumes "list_all gap_ok gs" "ginp s = cbytes (gaps_text gs) @ r"
  shows "\<exists>n. gettoken s = gettoken (s\<lparr>ginp := r, lines := n\<rparr>)"
  using assms
proof (induction gs arbitrary: s)
  case Nil
  then have "s = s\<lparr>ginp := r, lines := lines s\<rparr>" by (simp add: gaps_text_def)
  then show ?case by metis
next
  case (Cons g gs)
  have "\<exists>n. gettoken s = gettoken (s\<lparr>ginp := cbytes (gaps_text gs) @ r, lines := n\<rparr>)"
  proof (cases g)
    case (Blank t)
    have sp: "isspace 32" "isspace 10" "isspace 9" by code_simp+
    have "list_all isspace (cbytes t)"
      using Cons.prems(1) sp by (auto simp: Blank cbytes_def list_all_iff)
    then show ?thesis using gettoken_blank [of s "cbytes t"] Cons.prems(2) by (auto simp: Blank gaps_text_def)
  next
    case (Comment t)
    have "ginp s = 47 # 42 # cbytes t @ 42 # 47 # cbytes (gaps_text gs) @ r"
      using Cons.prems(2) by (simp add: Comment gaps_text_def)
    from gettoken_comment [OF this] Cons.prems(1) show ?thesis by (auto simp: Comment cbytes_mem)
  qed
  then obtain n where n: "gettoken s = gettoken (s\<lparr>ginp := cbytes (gaps_text gs) @ r, lines := n\<rparr>)" by blast
  with Cons.IH [of "s\<lparr>ginp := cbytes (gaps_text gs) @ r, lines := n\<rparr>"] Cons.prems(1) show ?case by simp
qed

lemma gettoken_word:
  assumes "ginp s = w @ c # r" "w \<noteq> []" "list_all isword w" "\<not> isword c" "length w < MAXWORD" "hd w \<noteq> 37"
  shows "gettoken s = Ret WORD (s\<lparr>ginp := c # r, tokval := w\<rparr>)"
proof -
  obtain b v where w: "w = b # v" using assms(2) by (cases w) auto
  have b: "isword b" "\<not> isspace b" "b \<notin> {60, 62, 44, 47}" "b \<noteq> 37" using assms(3,6) word_not_space [of b] by (auto simp: w)
  have "takeWhile isword (w @ c # r) = w" using assms(3,4) by (auto simp: list_all_iff)
  then have "rdword (b # v @ c # r) = (w, c # r)" using assms(5) by (simp add: rdword_def w Let_def)
  then show ?thesis using b assms(1) by (subst gettoken.simps) (simp add: skip_space_def newlines_def w)
qed

lemma gettoken_brackets:
  "ginp s = 60 # r \<Longrightarrow> gettoken s = Ret LBRACK (s\<lparr>ginp := r\<rparr>)"
  "ginp s = 62 # r \<Longrightarrow> gettoken s = Ret RBRACK (s\<lparr>ginp := r\<rparr>)"
  "ginp s = 37 # 37 # r \<Longrightarrow> gettoken s = Ret SEP (s\<lparr>ginp := r\<rparr>)"
proof -
  have "\<not> isspace 60" "\<not> isspace 62" "\<not> isspace 37" by code_simp+
  then show "ginp s = 60 # r \<Longrightarrow> gettoken s = Ret LBRACK (s\<lparr>ginp := r\<rparr>)"
    "ginp s = 62 # r \<Longrightarrow> gettoken s = Ret RBRACK (s\<lparr>ginp := r\<rparr>)"
    "ginp s = 37 # 37 # r \<Longrightarrow> gettoken s = Ret SEP (s\<lparr>ginp := r\<rparr>)"
    by (subst gettoken.simps, simp add: skip_space_def newlines_def)+
qed

section \<open>Rules\<close>

lemma copy_braces_balanced: "balanced b t \<Longrightarrow> copy_braces b (cbytes t @ r) = (cbytes t, r, 0)"
  by (induction b t rule: balanced.induct) (auto simp: byte_of_char)

definition kept :: "gw \<Rightarrow> gw \<Rightarrow> bool" where
  "kept s t \<longleftrightarrow> htab t = htab s \<and> nstates t = nstates s \<and> tbl t = tbl s"

lemma copyact_body:
  assumes "ginp s = 32 # 123 # cbytes b @ r" "balanced 1 b"
  shows "\<exists>t. copyact k s = Ret () t \<and> ginp t = r \<and> nacts t = nacts s \<and> kept s t"
proof -
  have "isspace 32" "\<not> isspace 123" by code_simp+
  then show ?thesis
    using assms copy_braces_balanced [OF assms(2), of r]
    by (simp add: copyact_def skip_space_def newlines_def put_def kept_def Let_def)
qed

lemma rdrules_cong: "gettoken s = gettoken t \<Longrightarrow> rdrules cur head s = rdrules cur head t"
  by (subst (1 2) rdrules.simps) simp

lemma rdrules_letter:
  assumes "name_ok [c]" "ginp s = of_char c # 32 # 123 # cbytes b @ r" "balanced 1 b"
  shows "\<exists>t. rdrules cur head s =
    rdrules None (head @ [(case cur of None \<Rightarrow> newtrans\<lparr>anyst := True\<rparr> | Some x \<Rightarrow> x)\<lparr>actno := int (Suc (nacts s)), inchr := of_char c - 32\<rparr>]) t \<and>
    ginp t = r \<and> nacts t = Suc (nacts s) \<and> kept s t"
proof -
  define s1 where "s1 = s\<lparr>ginp := 32 # 123 # cbytes b @ r, tokval := [of_char c]\<rparr>"
  define s2 where "s2 = s1\<lparr>nacts := Suc (nacts s)\<rparr>"
  have "\<not> isword 32" by code_simp
  then have g: "gettoken s = Ret WORD s1"
    using gettoken_word [of s "[of_char c]" 32] assms(1,2) by (simp add: name_ok_def byte_of_char s1_def)
  obtain t where t: "copyact (Suc (nacts s)) s2 = Ret () t" "ginp t = r" "nacts t = nacts s2" "kept s2 t"
    using copyact_body [of s2 b r "Suc (nacts s)"] assms(3) by (auto simp: s2_def s1_def)
  have "rdrules cur head s =
    rdrules None (head @ [(case cur of None \<Rightarrow> newtrans\<lparr>anyst := True\<rparr> | Some x \<Rightarrow> x)\<lparr>actno := int (Suc (nacts s)), inchr := of_char c - 32\<rparr>]) t"
    using g t(1) by (subst rdrules.simps) (simp add: Let_def s1_def s2_def split: option.split)
  with t show ?thesis by (auto simp: kept_def s2_def s1_def)
qed

lemma rdrules_rule:
  assumes "rule_ok ns r" "list_all name_ok ns" "\<forall>n \<in> set ns. 0 \<le> lkup (cbytes n) s \<and> lkup (cbytes n) s < 56"
    "ginp s = cbytes (rule_text r) @ z"
  shows "\<exists>t. rdrules None head s = rdrules None (head @ [rule_trans (\<lambda>n. lkup n s) (Suc (nacts s)) r]) t \<and>
    ginp t = z \<and> nacts t = Suc (nacts s) \<and> kept s t"
proof -
  let ?w = "of_char (wchr r) # 32 # 123 # cbytes (wbody r) @ z"
  have r: "list_all gap_ok (wgap r)" "name_ok [wchr r]" "balanced 1 (wbody r)" using assms(1) by (simp_all add: rule_ok_def)
  let ?v = "case wst r of None \<Rightarrow> ?w | Some n \<Rightarrow> 60 # cbytes n @ 62 # ?w"
  have "ginp s = cbytes (gaps_text (wgap r)) @ ?v" using assms(4) by (simp add: rule_text_def split: option.splits)
  from gettoken_gaps [OF r(1) this] obtain n where
    n: "\<And>cur head. rdrules cur head s = rdrules cur head (s\<lparr>ginp := ?v, lines := n\<rparr>)"
    using rdrules_cong by blast
  define s1 where "s1 = s\<lparr>ginp := ?v, lines := n\<rparr>"
  have s1: "kept s s1" "nacts s1 = nacts s" "lkup m s1 = lkup m s" for m by (simp_all add: s1_def kept_def lkup_def)
  show ?thesis
  proof (cases "wst r")
    case None
    then obtain t where "rdrules None head s1 = rdrules None (head @ [rule_trans (\<lambda>n. lkup n s) (Suc (nacts s)) r]) t"
      "ginp t = z" "nacts t = Suc (nacts s)" "kept s1 t"
      using rdrules_letter [OF r(2) _ r(3), of s1 z None head] by (auto simp: s1_def rule_trans_def)
    then show ?thesis using n s1 by (auto simp: kept_def s1_def)
  next
    case (Some m)
    have m: "m \<in> set ns" "name_ok m" using assms(1,2) Some by (auto simp: rule_ok_def list_all_iff)
    define s2 where "s2 = s1\<lparr>ginp := cbytes m @ 62 # ?w\<rparr>"
    define s3 where "s3 = s2\<lparr>ginp := 62 # ?w, tokval := cbytes m\<rparr>"
    define s4 where "s4 = s3\<lparr>ginp := ?w\<rparr>"
    have "gettoken s1 = Ret LBRACK s2" using Some by (intro trans [OF gettoken_brackets(1)]) (simp_all add: s1_def s2_def)
    then have l: "rdrules None head s1 = kbind (statelist COMMA newtrans s2) (\<lambda>t s. rdrules (Some t) head s)"
      by (subst rdrules.simps) simp
    have "\<not> isword 62" by code_simp
    then have g3: "gettoken s2 = Ret WORD s3"
      using m(2) gettoken_word [of s2 "cbytes m" 62 ?w] by (cases m) (auto simp: name_ok_def s2_def s3_def byte_of_char)
    have g4: "gettoken s3 = Ret RBRACK s4" by (intro trans [OF gettoken_brackets(2)]) (simp_all add: s3_def s4_def)
    have lk: "lkup (tokval s3) s3 = lkup (cbytes m) s" by (simp add: s3_def s2_def s1_def lkup_def)
    obtain x where x: "setwstate (lkup (cbytes m) s) newtrans = Some x"
      using setwstate_set [of newtrans "lkup (cbytes m) s"] assms(3) m(1) by (auto simp: newtrans_def)
    have "lkup (cbytes m) s \<noteq> -1" using assms(3) m(1) by fastforce
    then have "statelist COMMA newtrans s2 = Ret x s4"
      using g3 g4 lk x by (subst statelist.simps) (simp add: statelist.simps [of RBRACK])
    with l have "rdrules None head s1 = rdrules (Some x) head s4" by simp
    moreover obtain t where "rdrules (Some x) head s4 = rdrules None (head @ [rule_trans (\<lambda>n. lkup n s) (Suc (nacts s)) r]) t"
      "ginp t = z" "nacts t = Suc (nacts s)" "kept s4 t"
      using rdrules_letter [OF r(2) _ r(3), of s4 z "Some x" head] x Some by (auto simp: s1_def s2_def s3_def s4_def rule_trans_def)
    ultimately show ?thesis using n by (auto simp: kept_def s1_def s2_def s3_def s4_def)
  qed
qed

lemma rdrules_rules:
  assumes "list_all (rule_ok ns) rs" "list_all name_ok ns" "\<forall>n \<in> set ns. 0 \<le> lkup (cbytes n) s \<and> lkup (cbytes n) s < 56"
    "ginp s = cbytes (concat (map rule_text rs)) @ cbytes (gaps_text e) @ 37 # 37 # z" "list_all gap_ok e"
  shows "\<exists>t. rdrules None head s =
      Ret (head @ map (\<lambda>i. rule_trans (\<lambda>n. lkup n s) (Suc (nacts s + i)) (rs ! i)) [0..<length rs]) t \<and> kept s t"
  using assms
proof (induction rs arbitrary: head s)
  case Nil
  then obtain n where n: "gettoken s = gettoken (s\<lparr>ginp := 37 # 37 # z, lines := n\<rparr>)"
    using gettoken_gaps [of e s "37 # 37 # z"] by auto
  have "gettoken s = Ret SEP (s\<lparr>lines := n, ginp := z\<rparr>)" unfolding n by (intro trans [OF gettoken_brackets(3)]) simp_all
  then have "rdrules None head s = Ret head (s\<lparr>lines := n, ginp := z\<rparr>)" by (subst rdrules.simps) simp
  then show ?case by (simp add: kept_def)
next
  case (Cons r rs)
  let ?z = "cbytes (concat (map rule_text rs)) @ cbytes (gaps_text e) @ 37 # 37 # z"
  obtain t where t: "rdrules None head s = rdrules None (head @ [rule_trans (\<lambda>n. lkup n s) (Suc (nacts s)) r]) t"
    "ginp t = ?z" "nacts t = Suc (nacts s)" "kept s t"
    using rdrules_rule [of ns r s ?z head] Cons.prems by auto
  have lk: "lkup n t = lkup n s" for n using t(4) by (simp add: kept_def lkup_def)
  obtain u where u: "rdrules None (head @ [rule_trans (\<lambda>n. lkup n s) (Suc (nacts s)) r]) t =
      Ret ((head @ [rule_trans (\<lambda>n. lkup n s) (Suc (nacts s)) r]) @
        map (\<lambda>i. rule_trans (\<lambda>n. lkup n s) (Suc (nacts t + i)) (rs ! i)) [0..<length rs]) u" "kept t u"
    using Cons.IH [of t "head @ [rule_trans (\<lambda>n. lkup n s) (Suc (nacts s)) r]"] Cons.prems(1,2,3,5) t(2) lk by auto
  have "[0..<length (r # rs)] = 0 # map Suc [0..<length rs]" by (simp only: length_Cons map_Suc_upt upt_conv_Cons [OF zero_less_Suc])
  then have "map (\<lambda>i. rule_trans (\<lambda>n. lkup n s) (Suc (nacts s + i)) ((r # rs) ! i)) [0..<length (r # rs)] =
    rule_trans (\<lambda>n. lkup n s) (Suc (nacts s)) r # map (\<lambda>i. rule_trans (\<lambda>n. lkup n s) (Suc (nacts t + i)) (rs ! i)) [0..<length rs]"
    by (simp add: t(3) comp_def)
  then show ?case using t(1,4) u by (auto simp: kept_def)
qed

section \<open>States\<close>

text \<open>The names \<open>ns\<close> have the numbers from \<open>k + 1\<close> on.\<close>

definition numbered :: "nat \<Rightarrow> string list \<Rightarrow> gw \<Rightarrow> bool" where
  "numbered k ns s \<longleftrightarrow> (\<forall>i < length ns. lkup (cbytes (ns ! i)) s = int (Suc (k + i)))"

text \<open>What entering the names \<open>ns\<close> makes of the state \<open>s\<close>.\<close>

definition entered :: "string list \<Rightarrow> gw \<Rightarrow> gw \<Rightarrow> bool" where
  "entered ns s t \<longleftrightarrow> nstates t = nstates s + length ns \<and> tbl t = tbl s \<and> nacts t = nacts s \<and> length (htab t) = HASHSIZE \<and>
     numbered (nstates s) ns t \<and> (\<forall>n. n \<notin> cbytes ` set ns \<longrightarrow> lkup n t = lkup n s)"

lemma entered_trans:
  assumes "entered xs s t" "entered ys t u" "distinct (xs @ ys)"
  shows "entered (xs @ ys) s u"
proof -
  have "lkup (cbytes ((xs @ ys) ! i)) u = int (Suc (nstates s + i))" if i: "i < length (xs @ ys)" for i
  proof (cases "i < length xs")
    case True
    then have "xs ! i \<notin> set ys" using assms(3) by (metis Int_iff distinct_append empty_iff nth_mem)
    then have "cbytes (xs ! i) \<notin> cbytes ` set ys" by (auto simp: cbytes_inj)
    then show ?thesis using assms(1,2) True by (simp add: entered_def numbered_def nth_append)
  next
    case False
    then have "i - length xs < length ys" "nstates s + length xs + (i - length xs) = nstates s + i" using i by auto
    then show ?thesis using assms(1,2) False by (simp add: entered_def numbered_def nth_append)
  qed
  moreover have "lkup n u = lkup n s" if "n \<notin> cbytes ` set (xs @ ys)" for n
    using assms(1,2) that by (simp add: entered_def image_Un)
  ultimately show ?thesis using assms(1,2) by (simp add: entered_def numbered_def)
qed

lemma rdstates_word:
  assumes "ginp s = 32 # cbytes n @ c # r" "name_ok n" "\<not> isword c" "lkup (cbytes n) s = -1" "length (htab s) = HASHSIZE"
  shows "\<exists>t. rdstates s = rdstates t \<and> ginp t = c # r \<and> entered [n] s t"
proof -
  obtain b v where n: "cbytes n = b # v" "isword b" using assms(2) by (cases n) (auto simp: name_ok_def)
  have sp: "isspace 32" "(32 :: byte) \<noteq> 10" by (code_simp, simp)
  have b: "\<not> isspace b" "b \<noteq> 10" using word_not_space [OF n(2)] by (auto simp: isspace_def word_le_nat_alt)
  have "takeWhile isword (cbytes n @ c # r) = cbytes n" using assms(2,3) by (auto simp: name_ok_def list_all_iff)
  moreover have "length n = Suc (length v)" using n(1) by (metis cbytes_simps(4) length_Cons)
  ultimately have w: "rdword (b # v @ c # r) = (cbytes n, c # r)"
    using assms(2) n(1) by (simp add: rdword_def name_ok_def Let_def)
  define s1 where "s1 = s\<lparr>ginp := c # r, nstates := Suc (nstates s)\<rparr>"
  have "lkup (cbytes n) s1 = -1" using assms(4) by (simp add: lkup_def s1_def)
  then obtain s2 where e: "enter (cbytes n) (int (Suc (nstates s))) s1 = Ret () s2"
    using assms(5) hash_less [of "cbytes n"] by (simp add: enter_def s1_def Let_def)
  then have s2: "nstates s2 = Suc (nstates s)" "tbl s2 = tbl s" "nacts s2 = nacts s"
    by (auto simp: enter_def s1_def Let_def split: if_splits)
  define t where "t = put (cbytes ''#define '' @ cbytes n @ [32] @ decimal (nstates s2) @ [10]) s2"
  have "rdstates s = rdstates (s\<lparr>ginp := cbytes n @ c # r\<rparr>)" using assms(1) sp by (subst rdstates.simps) simp
  also have "\<dots> = rdstates t"
    using b w e by (subst rdstates.simps) (simp add: n(1) s1_def t_def)
  finally have "rdstates s = rdstates t" .
  moreover have "lkup m s1 = lkup m s" for m by (simp add: lkup_def s1_def)
  ultimately show ?thesis
    using lkup_enter [OF e] s2 assms(5)
    by (auto simp: entered_def numbered_def t_def s1_def put_def lkup_def intro!: exI [of _ t])
qed

lemma rdstates_line:
  assumes "ginp s = cbytes (concat (map (\<lambda>n. CHR '' '' # n) ns)) @ 10 # r" "list_all name_ok ns" "distinct ns"
    "\<forall>n \<in> set ns. lkup (cbytes n) s = -1" "length (htab s) = HASHSIZE"
  shows "\<exists>t. rdstates s = Ret () t \<and> ginp t = r \<and> entered ns s t"
  using assms
proof (induction ns arbitrary: s)
  case Nil
  then have "rdstates s = Ret () (s\<lparr>ginp := r, lines := Suc (lines s)\<rparr>)" by (subst rdstates.simps) simp
  then show ?case using Nil by (simp add: entered_def numbered_def lkup_def)
next
  case (Cons n ns)
  let ?z = "cbytes (concat (map (\<lambda>n. CHR '' '' # n) ns)) @ 10 # r"
  obtain c q where c: "?z = c # q" "\<not> isword c"
  proof (cases ns)
    case Nil
    have "\<not> isword 10" by code_simp
    then show ?thesis using that Nil by auto
  next
    case (Cons m ms)
    have "\<not> isword 32" by code_simp
    then show ?thesis using that Cons by auto
  qed
  obtain t where t: "rdstates s = rdstates t" "ginp t = c # q" "entered [n] s t"
    using rdstates_word [of s n c q] Cons.prems c by auto
  have "\<forall>m \<in> set ns. lkup (cbytes m) t = -1" "length (htab t) = HASHSIZE"
    using t(3) Cons.prems(3,4) by (simp_all add: entered_def) (metis cbytes_inj)
  then obtain u where u: "rdstates t = Ret () u" "ginp u = r" "entered ns t u"
    using Cons.IH [of t] Cons.prems(2,3) t(2) c(1) by auto
  then show ?case using t entered_trans [OF t(3) u(3)] Cons.prems(3) by auto
qed

section \<open>The whole file\<close>

lemma initial_text:
  assumes "ginp s = xs @ r" "37 \<notin> set xs"
  shows "\<exists>t. initial s = initial t \<and> ginp t = r \<and> nacts t = nacts s \<and> kept s t"
  using assms
proof (induction xs arbitrary: s)
  case Nil
  then show ?case by (auto simp: kept_def)
next
  case (Cons c xs)
  define t where "t = put [c] (s\<lparr>ginp := xs @ r, lines := (if c = 10 then Suc (lines s) else lines s)\<rparr>)"
  have "initial s = initial t" using Cons.prems by (subst initial.simps) (simp add: t_def)
  moreover obtain u where "initial t = initial u \<and> ginp u = r \<and> nacts u = nacts t \<and> kept t u"
    using Cons.IH [of t] Cons.prems by (auto simp: t_def put_def)
  ultimately show ?case by (intro exI [of _ u]) (auto simp: t_def put_def kept_def)
qed

lemma initial_states:
  assumes "ginp s = cbytes (concat (map states_text nss)) @ r" "list_all name_ok (concat nss)" "distinct (concat nss)"
    "\<forall>n \<in> set (concat nss). lkup (cbytes n) s = -1" "length (htab s) = HASHSIZE"
  shows "\<exists>t. initial s = initial t \<and> ginp t = r \<and> entered (concat nss) s t"
  using assms
proof (induction nss arbitrary: s)
  case Nil
  then show ?case by (auto simp: entered_def numbered_def)
next
  case (Cons ns nss)
  let ?z = "cbytes (concat (map states_text nss)) @ r"
  let ?l = "cbytes (concat (map (\<lambda>n. CHR '' '' # n) ns)) @ 10 # ?z"
  have w: "\<not> isword 32" "\<not> isword 10" "list_all isword (cbytes ''states'')" by code_simp+
  have "takeWhile isword (cbytes ''states'' @ ?l) = cbytes ''states''"
    using w by (cases ns) (auto simp: list_all_iff)
  then have rw: "rdword (cbytes ''states'' @ ?l) = (cbytes ''states'', ?l)" by (simp add: rdword_def Let_def)
  define s1 where "s1 = s\<lparr>ginp := ?l\<rparr>"
  have g: "ginp s = 37 # cbytes ''states'' @ ?l" using Cons.prems(1) by (simp add: states_text_def [of ns])
  have i: "initial s = kbind (rdstates s1) (\<lambda>_ s. initial s)"
    using g rw by (subst initial.simps) (simp add: s1_def)
  have "\<forall>n \<in> set ns. lkup (cbytes n) s1 = -1" "length (htab s1) = HASHSIZE" using Cons.prems(4,5) by (simp_all add: s1_def lkup_def)
  then obtain t where t: "rdstates s1 = Ret () t" "ginp t = ?z" "entered ns s1 t"
    using rdstates_line [of s1 ns ?z] Cons.prems(2,3) by (auto simp: s1_def)
  have st: "entered ns s t" using t(3) by (simp add: entered_def s1_def lkup_def)
  have "lkup (cbytes m) t = -1" if m: "m \<in> set (concat nss)" for m
  proof -
    have "m \<notin> set ns" using m Cons.prems(3) by auto
    then have "cbytes m \<notin> cbytes ` set ns" by (auto simp: cbytes_inj)
    then have "lkup (cbytes m) t = lkup (cbytes m) s" using st unfolding entered_def by blast
    then show ?thesis using Cons.prems(4) m by simp
  qed
  moreover have "length (htab t) = HASHSIZE" using st by (simp add: entered_def)
  ultimately obtain u where u: "initial t = initial u" "ginp u = r" "entered (concat nss) t u"
    using Cons.IH [of t] Cons.prems(2,3) t(2) by auto
  then show ?case using i t(1) entered_trans [OF st u(3)] Cons.prems(3) by auto
qed

text \<open>A separator ends the definitions, and the section of rules.\<close>

lemma initial_separator:
  assumes "ginp s = 37 # 37 # c # r" "\<not> isword c"
  shows "initial s = Ret () (s\<lparr>ginp := c # r\<rparr>)"
proof -
  have "isword 37" by code_simp
  then have "rdword (37 # c # r) = ([37], c # r)" using assms(2) by (simp add: rdword_def)
  then show ?thesis using assms(1) by (subst initial.simps) simp
qed

lemma rdinput_spec:
  assumes "CHR ''%'' \<notin> set h" "CHR ''%'' \<notin> set m" "list_all name_ok (concat nss)" "distinct (concat nss)" "length (concat nss) < MAXSTATES"
    "list_all (rule_ok (concat nss)) rs" "list_all gap_ok e"
    "c # q = concat (map rule_text rs) @ gaps_text e @ ''%%'' @ z" "\<not> isword (of_char c)"
  shows "\<exists>s. rdinput (clrhash (gw_start (cbytes (spec_text h nss m rs e z)))) =
      Ret (map (\<lambda>i. rule_trans (\<lambda>n. lkup n s) (Suc i) (rs ! i)) [0..<length rs]) s \<and>
    nstates s = length (concat nss) \<and> numbered 0 (concat nss) s \<and> tbl s = replicate (MAXSTATES * 96) 0"
proof -
  let ?ns = "concat nss"
  define s0 where "s0 = put warning_text ((clrhash (gw_start (cbytes (spec_text h nss m rs e z))))\<lparr>lines := 1, nstates := 0, nacts := 0\<rparr>)"
  let ?q = "cbytes (concat (map rule_text rs)) @ cbytes (gaps_text e) @ 37 # 37 # cbytes z"
  have q: "?q = of_char c # cbytes q" using arg_cong [OF assms(8), of cbytes] by simp
  have s0: "ginp s0 = cbytes h @ cbytes (concat (map states_text nss)) @ cbytes m @ 37 # 37 # ?q" "nstates s0 = 0" "nacts s0 = 0"
    "tbl s0 = replicate (MAXSTATES * 96) 0" "lkup n s0 = -1" "length (htab s0) = HASHSIZE" for n
    using lkup_start [of n] by (simp_all add: s0_def spec_text_def put_def clrhash_def gw_start_def lkup_def)
  obtain s1 where s1: "initial s0 = initial s1" "ginp s1 = cbytes (concat (map states_text nss)) @ cbytes m @ 37 # 37 # ?q"
    "nacts s1 = 0" "kept s0 s1"
    using initial_text [OF s0(1)] assms(1) s0(3) by (auto simp: cbytes_mem)
  obtain s2 where s2: "initial s1 = initial s2" "ginp s2 = cbytes m @ 37 # 37 # ?q" "entered ?ns s1 s2"
    using initial_states [OF s1(2) assms(3,4)] s0(5,6) s1(4) by (auto simp: kept_def lkup_def)
  obtain s3 where s3: "initial s2 = initial s3" "ginp s3 = 37 # 37 # ?q" "nacts s3 = nacts s2" "kept s2 s3"
    using initial_text [OF s2(2)] assms(2) by (auto simp: cbytes_mem)
  define s4 where "s4 = prolog (s3\<lparr>ginp := ?q\<rparr>)"
  have i: "initial s0 = Ret () (s3\<lparr>ginp := ?q\<rparr>)"
    using s1(1) s2(1) s3(1) initial_separator [of s3 "of_char c" "cbytes q"] s3(2) assms(9) q by simp
  have k: "kept s2 s4" "nacts s4 = 0" "ginp s4 = ?q"
    using s3 s2(3) s1(3) by (simp_all add: s4_def prolog_def put_def kept_def entered_def)
  have lk: "numbered 0 ?ns s4" "nstates s4 = length ?ns" "tbl s4 = replicate (MAXSTATES * 96) 0"
    using k(1) s2(3) s1(4) s0(2,4) by (auto simp: kept_def entered_def numbered_def lkup_def)
  have b: "\<forall>n \<in> set ?ns. 0 \<le> lkup (cbytes n) s4 \<and> lkup (cbytes n) s4 < 56"
  proof
    fix n assume "n \<in> set ?ns"
    then obtain j where "j < length ?ns" "n = ?ns ! j" by (metis in_set_conv_nth)
    then show "0 \<le> lkup (cbytes n) s4 \<and> lkup (cbytes n) s4 < 56" using lk(1) assms(5) by (simp add: numbered_def)
  qed
  obtain t where t: "rdrules None [] s4 = Ret (map (\<lambda>i. rule_trans (\<lambda>n. lkup n s4) (Suc i) (rs ! i)) [0..<length rs]) t" "kept s4 t"
    using rdrules_rules [OF assms(6,3) b k(3) assms(7), of "[]"] k(2) by auto
  have e: "lkup n (epilogue t) = lkup n s4" for n using t(2) by (simp add: kept_def epilogue_def put_def lkup_def)
  have "rdinput (clrhash (gw_start (cbytes (spec_text h nss m rs e z)))) =
      Ret (map (\<lambda>i. rule_trans (\<lambda>n. lkup n (epilogue t)) (Suc i) (rs ! i)) [0..<length rs]) (epilogue t)"
    using i t(1) unfolding e by (simp add: rdinput_def s0_def s4_def Let_def)
  moreover have "nstates (epilogue t) = length ?ns" "numbered 0 ?ns (epilogue t)" "tbl (epilogue t) = replicate (MAXSTATES * 96) 0"
    using lk t(2) by (simp_all add: numbered_def e) (simp_all add: kept_def epilogue_def put_def)
  ultimately show ?thesis by blast
qed

end
