(* ===== verification/Gproto.thy ===== *)
theory Gproto
  imports Gwart_Parse
begin

text \<open>
  The file gproto.w, the specification of the protocol automaton, character for character, and what
  gwart reads from it.
\<close>

section \<open>The text\<close>

definition unlines :: "string list \<Rightarrow> string" where
  "unlines ls = concat (map (\<lambda>l. l @ ''\<newline>'') ls)"

text \<open>The declarations before the states, the text before the rules, and the actions, each up to its closing brace.\<close>

definition gproto_head :: string where
  "gproto_head = unlines
     [''/* G P R O T O  --  Protocol module for gkermit  */             /* -*-C-*- */'',
      '''',
      ''/*'',
      ''  Author:'',
      ''    Frank da Cruz'',
      ''    The Kermit Project'',
      ''    Columbia University'',
      ''    612 West 115th Street'',
      ''    New York NY 10025-7799  USA'',
      ''    http://www.columbia.edu/kermit/'',
      ''    kermit@columbia.edu'',
      '''',
      ''  Copyright (C) 1999,'',
      ''  The Trustees of Columbia University in the City of New York.'',
      '''',
      ''  This program is free software; you can redistribute it and/or modify'',
      ''  it under the terms of the GNU General Public License as published by'',
      ''  the Free Software Foundation; either version 2 of the License, or'',
      ''  (at your option) any later version.'',
      '''',
      ''  This program is distributed in the hope that it will be useful,'',
      ''  but WITHOUT ANY WARRANTY; without even the implied warranty of'',
      ''  MERCHANTABILITY or FITNESS FOR A PARTICULAR PURPOSE.  See the'',
      ''  GNU General Public License for more details.'',
      '''',
      ''  You should have received a copy of the GNU General Public License'',
      ''  along with this program; if not, write to the Free Software'',
      ''  Foundation, Inc., 59 Temple Place, Suite 330, Boston, MA  02111-1307  USA'',
      ''*/'',
      ''#include <stdio.h>'',
      ''#include \"gkermit.h\"'',
      '''',
      ''_MYPROTOTYPE( int closof, (void) );	/* Close output file */'',
      ''_MYPROTOTYPE( VOID errpkt, (char *) );	/* Send Error packet */'',
      '''',
      ''extern char * xdata, *rdatap, **cmlist, *cmarg, *rpar(), strbuf[], filnam[];'',
      ''extern int start, bctu, bctr, delay, cx, cz, failure, attributes, datalen;'',
      ''extern int streamok, streaming, timint;'',
      ''extern FILE * db;'',
      '''',
      ''static int x;'',
      '''',
      ''static VOID'',
      ''streamon() {				/* Start streaming if negotiated */'',
      ''    x = 0;'',
      ''    if (streamok > 0) {'',
      ''	streaming = 1;'',
      ''	timint = 0;'',
      ''    }'',
      ''}'',
      '''',
      ''/* Declare gwart states (like lex) */'',
      '''']"

definition gproto_mid :: string where
  "gproto_mid = unlines
     ['''',
      ''/* Packets are read by the input() function, which returns the packet type */'',
      ''/* that serves as the input to the state machine, which follows... */'',
      '''']"

definition gp_s :: string where
  "gp_s = unlines
     [''					/* Start state for Send. */'',
      ''    tinit();				/* Initialize transaction. */'',
      ''    if (sinit('S') < 0) { errpkt(\"sinit\"); } /* Build and send the S packet. */'',
      ''    else BEGIN ssini;''] @ ''}''"

definition gp_ssini_Y :: string where
  "gp_ssini_Y = unlines
     [''				/* Receive ACK to I packet */'',
      ''    spar(rdatap);			/* Set parameters from it */'',
      ''    bctu = bctr;			/* Switch to negotiated block check */'',
      ''    if (gnfile() > 0) {			/* Is there a file to send? */'',
      ''        if (sfile() < 0) {		/* Yes, open it, send F packet, */'',
      ''	    errpkt(\"sfile\");'',
      ''	} else {			/* No error */'',
      ''	    streamon();'',
      ''	    BEGIN ssfil;'',
      ''	}'',
      ''    } else {				/* No files to send, */'',
      ''        if (seot() < 0) { errpkt(\"seot\"); } /* so send EOT packet. */'',
      ''        else BEGIN sseot;'',
      ''    }''] @ ''}''"

definition gp_ssfil_Y :: string where
  "gp_ssfil_Y = unlines
     [''				/* Receive ACK to File header packet */'',
      ''    if (attributes) {			/* If attributes negotiated */'',
      ''	if (sattr() < 0) {		/* Send file attributes */'',
      ''	    errpkt(\"sattr\");'',
      ''	} else'',
      ''	  BEGIN ssatt;'',
      ''    } else if ((x = sdata()) == 0) {	/* Otherwise send first Data packet */'',
      ''	if (seof(\"\") < 0) {		/* Empty file - send EOF */'',
      ''	    errpkt(\"seof\");'',
      ''	} else {'',
      ''	    BEGIN sseof;'',
      ''	}'',
      ''    } else if (x < 0) {			/* Error */'',
      ''	errpkt(\"sdata\");'',
      ''    } else {				/* OK - switch to Data state */'',
      ''	BEGIN ssdat;'',
      ''    }''] @ ''}''"

definition gp_ssatt_Y :: string where
  "gp_ssatt_Y = unlines
     [''				/* Receive ACK to Attribute packet */'',
      ''    if (*rdatap == 'N') {		/* Check for refusal */'',
      ''	seof(\"D\");'',
      ''	BEGIN sseof;'',
      ''    } else if ((x = sdata()) == 0) {	/* Otherwise send first Data packet */'',
      ''	if (seof(\"\") < 0) {		/* Empty file - send EOF */'',
      ''	    errpkt(\"seof\");'',
      ''	} else {'',
      ''	    BEGIN sseof;'',
      ''	}'',
      ''    } else if (x < 0) {			/* Error */'',
      ''	errpkt(\"sdata\");'',
      ''    } else {				/* OK - switch to Data state */'',
      ''	BEGIN ssdat;'',
      ''    }''] @ ''}''"

definition gp_ssdat_Y :: string where
  "gp_ssdat_Y = unlines
     [''				/* Receive ACK to Data packet */'',
      ''    if (*rdatap == 'X')			/* Check for file cancellation */'',
      ''      cx = 1;'',
      ''    else if (*rdatap == 'Z')		/* Check for batch cancellation */'',
      ''      cz = 1;'',
      ''    if ((x = sdata()) == 0) {		/* Send data packet if data left. */'',
      ''	if (seof((cx | cz) ? \"D\" : \"\") < 0) { /* If not, send Z packet */'',
      ''	    errpkt(\"seof\");'',
      ''	} else {'',
      ''	    BEGIN sseof;'',
      ''	}'',
      ''    } else if (x < 0)			/* Fatal error sending data */'',
      ''      errpkt(\"sdata\");''] @ ''}''"

definition gp_sseof_Y :: string where
  "gp_sseof_Y = unlines
     [''				/* Receive ACK to EOF */'',
      ''    if (gnfile() > 0) {			/* Get next file from list */'',
      ''	if (sfile() > 0)'',
      ''	  BEGIN ssfil;'',
      ''	else { errpkt(\"sfile\"); }'',
      ''    } else {				/* No more files */'',
      ''	seot();				/* Send EOT */'',
      ''	BEGIN sseot;'',
      ''    }''] @ ''}''"

definition gp_sseot_Y :: string where
  "gp_sseot_Y = '' return(failure); }''"

definition gp_v :: string where
  "gp_v = '' tinit(); rinit(); BEGIN srini; }''"

definition gp_srini_S :: string where
  "gp_srini_S = unlines
     [''				/* Receive S packet */'',
      ''    spar(rdatap);			/* Set parameters from it */'',
      ''    ack1(rpar());			/* ACK with our parameters */'',
      ''    bctu = bctr;			/* Switch to negotiated block check */'',
      ''    streamon();'',
      ''    BEGIN srfil;			/* Wait for file or EOT */''] @ ''}''"

definition gp_srfil_B :: string where
  "gp_srfil_B = '' ack(); return(failure); }''"

definition gp_srfil_F :: string where
  "gp_srfil_F = unlines
     [''				/* Receive File header packet */'',
      ''    if (rcvfil() < 0) {'',
      ''	errpkt(\"rcvfil\");'',
      ''    } else {'',
      ''	encstr(filnam);'',
      ''	ack1(xdata);'',
      ''	streamon();'',
      ''	BEGIN sratt;'',
      ''    }''] @ ''}''"

definition gp_sratt_A :: string where
  "gp_sratt_A = unlines
     [''				/* Receive Attribute packet */'',
      ''    if (gattr(rdatap) == 0) {'',
      ''	ack();'',
      ''    } else {'',
      ''	ack1(\"'' @ [CHR 0x5C] @ ''\"\");'',
      ''    }''] @ ''}''"

definition gp_sratt_D :: string where
  "gp_sratt_D = unlines
     [''				/* Receive first Data packet */'',
      ''    if (decode(datalen) < 0) {'',
      ''	errpkt(\"Packet decoding error\");'',
      ''    } else {'',
      ''	ack();'',
      ''	BEGIN srdat;'',
      ''    }''] @ ''}''"

definition gp_sratt_Z :: string where
  "gp_sratt_Z = unlines
     [''				/* Empty file */'',
      ''    if (*rdatap == 'D')			/* Check for Discard directive */'',
      ''      cx = 1;'',
      ''    if (closof() < 0) {			/* Close the output file */'',
      ''	errpkt(\"closof\");'',
      ''    } else {'',
      ''	ack();				/* Send ACK */'',
      ''	BEGIN srfil;			/* Wait for another file or EOT */'',
      ''    }''] @ ''}''"

definition gp_srdat_D :: string where
  "gp_srdat_D = unlines
     [''				/* Receive Data packet */'',
      ''    if (decode(datalen) < 0)'',
      ''      errpkt(\"Packet decoding error\");'',
      ''    else'',
      ''      ack();''] @ ''}''"

definition gp_srdat_Z :: string where
  "gp_srdat_Z = unlines
     [''				/* Receive EOF packet */'',
      ''    if (*rdatap == 'D')			/* Check for Discard directive */'',
      ''      cx = 1;'',
      ''    if (closof() < 0) {			/* Close the output file */'',
      ''	errpkt(\"closof\");'',
      ''    } else {'',
      ''	ack();				/* Send ACK */'',
      ''	BEGIN srfil;			/* Wait for another file or EOT */'',
      ''    }''] @ ''}''"

definition gp_r :: string where
  "gp_r = unlines
     [''					/* Start state for Get */'',
      ''    tinit();				/* Initialize transaction */'',
      ''    ginit();				/* Initialize Get */'',
      ''    sinit('I');				/* Send I packet */'',
      ''    BEGIN sipkt;''] @ ''}''"

definition gp_sipkt_Y :: string where
  "gp_sipkt_Y = unlines
     [''				/* Receive ACK for I packet */'',
      ''    spar(rdatap);			/* Set parameters from it */'',
      ''    if (scmd('R',cmarg) < 0)		/* Send GET packet file filespec */'',
      ''      errpkt(\"scmd\");'',
      ''    else'',
      ''      BEGIN srini;			/* Wait for S packet */''] @ ''}''"

definition gp_E :: string where
  "gp_E = '' return(failure = 1); }''"

definition gp_any :: string where
  "gp_any = '' errpkt(\"Unknown packet type\"); }''"

text \<open>The rules in the order of the file, and the file.\<close>

definition gproto_wrules :: "wrule list" where
  "gproto_wrules =
     [\<lparr>wgap = [Blank ''\<newline>'', Comment '' Sending states... '', Blank ''\<newline>\<newline>''], wst = None, wchr = CHR ''s'', wbody = gp_s\<rparr>,
      \<lparr>wgap = [Blank ''\<newline>''], wst = Some ''ssini'', wchr = CHR ''Y'', wbody = gp_ssini_Y\<rparr>,
      \<lparr>wgap = [Blank ''\<newline>''], wst = Some ''ssfil'', wchr = CHR ''Y'', wbody = gp_ssfil_Y\<rparr>,
      \<lparr>wgap = [Blank ''\<newline>''], wst = Some ''ssatt'', wchr = CHR ''Y'', wbody = gp_ssatt_Y\<rparr>,
      \<lparr>wgap = [Blank ''\<newline>''], wst = Some ''ssdat'', wchr = CHR ''Y'', wbody = gp_ssdat_Y\<rparr>,
      \<lparr>wgap = [Blank ''\<newline>''], wst = Some ''sseof'', wchr = CHR ''Y'', wbody = gp_sseof_Y\<rparr>,
      \<lparr>wgap = [Blank ''\<newline>''], wst = Some ''sseot'', wchr = CHR ''Y'', wbody = gp_sseot_Y\<rparr>,
      \<lparr>wgap = [Blank ''		'', Comment '' Send ACK to EOT - done '', Blank ''\<newline>\<newline>'', Comment '' Receiving states... '', Blank ''\<newline>\<newline>''], wst = None, wchr = CHR ''v'', wbody = gp_v\<rparr>,
      \<lparr>wgap = [Blank ''	'', Comment '' Start-state for Receive '', Blank ''\<newline>\<newline>''], wst = Some ''srini'', wchr = CHR ''S'', wbody = gp_srini_S\<rparr>,
      \<lparr>wgap = [Blank ''\<newline>\<newline>''], wst = Some ''srfil'', wchr = CHR ''B'', wbody = gp_srfil_B\<rparr>,
      \<lparr>wgap = [Blank ''	'', Comment '' Receive EOT packet '', Blank ''\<newline>\<newline>''], wst = Some ''srfil'', wchr = CHR ''F'', wbody = gp_srfil_F\<rparr>,
      \<lparr>wgap = [Blank ''\<newline>''], wst = Some ''sratt'', wchr = CHR ''A'', wbody = gp_sratt_A\<rparr>,
      \<lparr>wgap = [Blank ''\<newline>''], wst = Some ''sratt'', wchr = CHR ''D'', wbody = gp_sratt_D\<rparr>,
      \<lparr>wgap = [Blank ''\<newline>''], wst = Some ''sratt'', wchr = CHR ''Z'', wbody = gp_sratt_Z\<rparr>,
      \<lparr>wgap = [Blank ''\<newline>''], wst = Some ''srdat'', wchr = CHR ''D'', wbody = gp_srdat_D\<rparr>,
      \<lparr>wgap = [Blank ''\<newline>''], wst = Some ''srdat'', wchr = CHR ''Z'', wbody = gp_srdat_Z\<rparr>,
      \<lparr>wgap = [Blank ''\<newline>\<newline>'', Comment '' GET files from a Kermit server... '', Blank ''\<newline>\<newline>''], wst = None, wchr = CHR ''r'', wbody = gp_r\<rparr>,
      \<lparr>wgap = [Blank ''\<newline>''], wst = Some ''sipkt'', wchr = CHR ''Y'', wbody = gp_sipkt_Y\<rparr>,
      \<lparr>wgap = [Blank ''\<newline>\<newline>''], wst = None, wchr = CHR ''E'', wbody = gp_E\<rparr>,
      \<lparr>wgap = [Blank ''		'', Comment '' Receive an Error packet '', Blank ''\<newline>\<newline>''], wst = None, wchr = CHR ''.'', wbody = gp_any\<rparr>]"

definition gproto_w :: string where
  "gproto_w = spec_text gproto_head
     [[''ssini'', ''ssfil'', ''ssdat'', ''ssatt'', ''sseot'', ''sseof'', ''sipkt''],
      [''srini'', ''srfil'', ''srdat'', ''sratt'']]
     gproto_mid gproto_wrules [Blank ''	'', Comment '' Handle unwanted packet types. '', Blank ''\<newline>''] ''\<newline>''"

section \<open>What gwart reads from it\<close>

lemma gproto_head_plain: "CHR ''%'' \<notin> set gproto_head" by (simp add: gproto_head_def unlines_def)

lemma gproto_mid_plain: "CHR ''%'' \<notin> set gproto_mid" by (simp add: gproto_mid_def unlines_def)

lemma gp_s_closed: "balanced (Suc 0) gp_s" by (simp add: gp_s_def unlines_def)
lemma gp_ssini_Y_closed: "balanced (Suc 0) gp_ssini_Y" by (simp add: gp_ssini_Y_def unlines_def)
lemma gp_ssfil_Y_closed: "balanced (Suc 0) gp_ssfil_Y" by (simp add: gp_ssfil_Y_def unlines_def)
lemma gp_ssatt_Y_closed: "balanced (Suc 0) gp_ssatt_Y" by (simp add: gp_ssatt_Y_def unlines_def)
lemma gp_ssdat_Y_closed: "balanced (Suc 0) gp_ssdat_Y" by (simp add: gp_ssdat_Y_def unlines_def)
lemma gp_sseof_Y_closed: "balanced (Suc 0) gp_sseof_Y" by (simp add: gp_sseof_Y_def unlines_def)
lemma gp_sseot_Y_closed: "balanced (Suc 0) gp_sseot_Y" by (simp add: gp_sseot_Y_def unlines_def)
lemma gp_v_closed: "balanced (Suc 0) gp_v" by (simp add: gp_v_def unlines_def)
lemma gp_srini_S_closed: "balanced (Suc 0) gp_srini_S" by (simp add: gp_srini_S_def unlines_def)
lemma gp_srfil_B_closed: "balanced (Suc 0) gp_srfil_B" by (simp add: gp_srfil_B_def unlines_def)
lemma gp_srfil_F_closed: "balanced (Suc 0) gp_srfil_F" by (simp add: gp_srfil_F_def unlines_def)
lemma gp_sratt_A_closed: "balanced (Suc 0) gp_sratt_A" by (simp add: gp_sratt_A_def unlines_def)
lemma gp_sratt_D_closed: "balanced (Suc 0) gp_sratt_D" by (simp add: gp_sratt_D_def unlines_def)
lemma gp_sratt_Z_closed: "balanced (Suc 0) gp_sratt_Z" by (simp add: gp_sratt_Z_def unlines_def)
lemma gp_srdat_D_closed: "balanced (Suc 0) gp_srdat_D" by (simp add: gp_srdat_D_def unlines_def)
lemma gp_srdat_Z_closed: "balanced (Suc 0) gp_srdat_Z" by (simp add: gp_srdat_Z_def unlines_def)
lemma gp_r_closed: "balanced (Suc 0) gp_r" by (simp add: gp_r_def unlines_def)
lemma gp_sipkt_Y_closed: "balanced (Suc 0) gp_sipkt_Y" by (simp add: gp_sipkt_Y_def unlines_def)
lemma gp_E_closed: "balanced (Suc 0) gp_E" by (simp add: gp_E_def unlines_def)
lemma gp_any_closed: "balanced (Suc 0) gp_any" by (simp add: gp_any_def unlines_def)

lemmas gp_closed = gp_s_closed gp_ssini_Y_closed gp_ssfil_Y_closed gp_ssatt_Y_closed gp_ssdat_Y_closed gp_sseof_Y_closed gp_sseot_Y_closed gp_v_closed gp_srini_S_closed gp_srfil_B_closed gp_srfil_F_closed gp_sratt_A_closed gp_sratt_D_closed gp_sratt_Z_closed gp_srdat_D_closed gp_srdat_Z_closed gp_r_closed gp_sipkt_Y_closed gp_E_closed gp_any_closed

abbreviation gproto_names :: "string list" where
  "gproto_names \<equiv> [''ssini'', ''ssfil'', ''ssdat'', ''ssatt'', ''sseot'', ''sseof'', ''sipkt'', ''srini'', ''srfil'', ''srdat'', ''sratt'']"

lemma gproto_names_ok: "list_all name_ok gproto_names" by code_simp

lemma gproto_letters_ok: "list_all (\<lambda>c. name_ok [c]) ''sYvSBFADZrE.''" by code_simp

lemma gproto_rules_ok: "list_all (rule_ok gproto_names) gproto_wrules"
  using gproto_letters_ok by (simp add: gproto_wrules_def rule_ok_def gp_closed del: balanced.simps)

lemma gproto_rdinput:
  "\<exists>s. rdinput (clrhash (gw_start (cbytes gproto_w))) =
      Ret (map (\<lambda>i. rule_trans (\<lambda>n. lkup n s) (Suc i) (gproto_wrules ! i)) [0..<length gproto_wrules]) s \<and>
    nstates s = 11 \<and> numbered 0 gproto_names s \<and> tbl s = replicate (MAXSTATES * 96) 0"
proof -
  let ?e = "[Blank ''	'', Comment '' Handle unwanted packet types. '', Blank ''\<newline>'']"
  have "\<exists>q. concat (map rule_text gproto_wrules) @ gaps_text ?e @ ''%%'' @ ''\<newline>'' = CHR 0x0A # q"
    by (simp add: gproto_wrules_def rule_text_def gaps_text_def)
  then obtain q where q: "CHR 0x0A # q = concat (map rule_text gproto_wrules) @ gaps_text ?e @ ''%%'' @ ''\<newline>''" by metis
  have w: "\<not> isword (of_char (CHR 0x0A))" by code_simp
  let ?nss = "[[''ssini'', ''ssfil'', ''ssdat'', ''ssatt'', ''sseot'', ''sseof'', ''sipkt''], [''srini'', ''srfil'', ''srdat'', ''sratt'']]"
  have n: "concat ?nss = gproto_names" by simp
  have d: "distinct (concat ?nss)" "length (concat ?nss) < MAXSTATES" by simp_all
  have e: "list_all gap_ok ?e" by simp
  have l: "length gproto_names = 11" by simp
  from rdinput_spec [OF gproto_head_plain gproto_mid_plain, of ?nss gproto_wrules ?e, unfolded n, OF gproto_names_ok d [unfolded n]
      gproto_rules_ok e q w]
  show ?thesis unfolding gproto_w_def l by (simp only:)
qed

end
