(* ===== verification/Kermit_Check.thy ===== *)
theory Kermit_Check
  imports Prelude
begin

text \<open>
  G-Kermit's character macros (gkermit.h), the three block checks of gkermit.c and the
  parity bit of gunixio.c.

  \<^item> \<open>chk3\<close>, the tableless CRC that works a nibble at a time, equals the bit-serial CRC-16/CCITT
    (reflected polynomial 0x8408), and detects every error burst confined to two adjacent bytes;
  \<^item> \<open>dopar\<close> keeps the low seven bits and gives the byte the parity it names.
\<close>

section \<open>Definitions\<close>

definition tochar :: "int \<Rightarrow> byte" where
  "tochar n = word_of_int (n + 32)"

definition xunchar :: "byte \<Rightarrow> int" where
  "xunchar c = uint c - 32"

definition ctl :: "byte \<Rightarrow> byte" where
  "ctl c = c XOR 64"

text \<open>\<open>chksum\<close>: the loop adds the masked characters; \<open>parity\<close> is the global of that name, seen as a flag.\<close>

fun chksum_loop :: "u32 \<Rightarrow> byte list \<Rightarrow> u32 \<Rightarrow> u32" where
  "chksum_loop m [] k = k"
| "chksum_loop m (c # p) k = chksum_loop m p (k + (ucast c AND m))"

definition chksum :: "bool \<Rightarrow> byte list \<Rightarrow> u32" where
  "chksum parity p = chksum_loop (if parity then 0x7F else 0xFF) p 0"

definition chk1 :: "bool \<Rightarrow> byte list \<Rightarrow> u32" where
  "chk1 parity p = (let x = chksum parity p in (drop_bit 6 (x AND 192) + x) AND 63)"

definition chk3_byte :: "bool \<Rightarrow> u32 \<Rightarrow> byte \<Rightarrow> u32" where
  "chk3_byte parity crc s =
     (let c = ucast s :: u32;
          c = (if parity then c AND 0x7F else c);
          q = (crc XOR c) AND 15;
          crc = drop_bit 4 crc XOR q * 0x1081;
          q = (crc XOR drop_bit 4 c) AND 15
      in drop_bit 4 crc XOR q * 0x1081)"

fun chk3_loop :: "bool \<Rightarrow> byte list \<Rightarrow> u32 \<Rightarrow> u32" where
  "chk3_loop parity [] crc = crc"
| "chk3_loop parity (c # s) crc = chk3_loop parity s (chk3_byte parity crc c)"

definition chk3 :: "bool \<Rightarrow> byte list \<Rightarrow> u32" where
  "chk3 parity s = chk3_loop parity s 0 AND 0xFFFF"

text \<open>
  \<open>dopar\<close>: the parity bit of one character. \<open>xparity\<close> is 0 for none, or the letter of the
  parity; any other value leaves the stripped character.
\<close>

definition dopar :: "byte \<Rightarrow> byte \<Rightarrow> byte" where
  "dopar xparity ch =
     (if xparity = 0 then ch
      else let ch = ch AND 0x7F in
        if xparity = 109 then ch OR 128
        else if xparity = 115 then ch AND 127
        else if xparity = 111 \<or> xparity = 101 then
          (let a = (ch AND 15) XOR (drop_bit 4 ch AND 15);
               a = (a AND 3) XOR (drop_bit 2 a AND 3);
               a = (a AND 1) XOR (drop_bit 1 a AND 1);
               a = (if xparity = 111 then 1 - a else a)
           in ch OR push_bit 7 a)
        else ch)"

section \<open>Characters and numbers\<close>

lemma uint_tochar: "-32 \<le> n \<Longrightarrow> n \<le> 223 \<Longrightarrow> uint (tochar n) = n + 32"
  unfolding tochar_def by (simp only: unsigned_of_int) (simp add: take_bit_int_eq_self)

lemma xunchar_tochar [byte_simps]: "-32 \<le> n \<Longrightarrow> n \<le> 223 \<Longrightarrow> xunchar (tochar n) = n"
  by (simp add: xunchar_def uint_tochar)

lemma tochar_xunchar [byte_simps]: "tochar (xunchar c) = c"
  by (simp add: xunchar_def tochar_def)

lemma ctl_ctl [byte_simps]: "ctl (ctl c) = c"
  by (simp add: ctl_def xor.assoc)

section \<open>The CRC as a bit-serial register\<close>

definition crc_bit :: "16 word \<Rightarrow> 16 word" where
  "crc_bit x = (if bit x 0 then drop_bit 1 x XOR 0x8408 else drop_bit 1 x)"

definition crc_byte :: "16 word \<Rightarrow> byte \<Rightarrow> 16 word" where
  "crc_byte r c = (crc_bit ^^ 8) (r XOR ucast c)"

definition crc_ccitt :: "byte list \<Rightarrow> 16 word" where
  "crc_ccitt bs = foldl crc_byte 0 bs"

lemma crc_bit_alt: "crc_bit x = drop_bit 1 x XOR (if bit x 0 then 0x8408 else 0)"
  by (simp add: crc_bit_def)

lemma crc_bit_xor: "crc_bit (x XOR y) = crc_bit x XOR crc_bit y"
  by (rule bit_word_eqI) (auto simp: crc_bit_alt bit_simps)

lemma crc_bits_xor: "(crc_bit ^^ n) (x XOR y) = (crc_bit ^^ n) x XOR (crc_bit ^^ n) y"
  by (induction n) (simp_all add: crc_bit_xor)

lemma crc_bit_inj: "crc_bit x = crc_bit y \<Longrightarrow> x = y"
proof -
  assume eq: "crc_bit x = crc_bit y"
  have b15: "bit (crc_bit z) 15 = bit z 0" for z
    using bit_imp_le_length [of z 16] by (auto simp: crc_bit_alt bit_simps)
  from eq b15 [of x] b15 [of y] have b0: "bit x 0 = bit y 0" by simp
  with eq have d: "drop_bit 1 x = drop_bit 1 y"
    by (auto simp: crc_bit_def split: if_splits)
  show "x = y"
  proof (rule bit_word_eqI)
    fix n assume "n < LENGTH(16)"
    show "bit x n = bit y n"
    proof (cases n)
      case (Suc m)
      from d have "bit (drop_bit 1 x) m = bit (drop_bit 1 y) m" by simp
      with Suc show ?thesis by (simp add: bit_simps)
    qed (simp add: b0)
  qed
qed

lemma crc_bits_inj: "(crc_bit ^^ n) x = (crc_bit ^^ n) y \<Longrightarrow> x = y"
  by (induction n) (auto dest: crc_bit_inj)

lemma crc_bit_even: "\<not> bit x 0 \<Longrightarrow> crc_bit x = drop_bit 1 x"
  by (simp add: crc_bit_def)

lemma crc_bits_zeros:
  "(\<forall>i<n. \<not> bit x i) \<Longrightarrow> (crc_bit ^^ n) x = drop_bit n x"
proof (induction n)
  case (Suc n)
  then have "(crc_bit ^^ n) x = drop_bit n x" by simp
  moreover from Suc.prems have "\<not> bit (drop_bit n x) 0" by (simp add: bit_simps)
  ultimately show ?case by (simp add: crc_bit_even)
qed simp

text \<open>Two bytes in a row are sixteen bit steps from their concatenation.\<close>

lemma crc_two_bytes:
  "crc_byte (crc_byte r a) b = (crc_bit ^^ 16) (r XOR (ucast a XOR push_bit 8 (ucast b)))"
proof -
  have "(crc_bit ^^ 8) (push_bit 8 (ucast b)) = (drop_bit 8 (push_bit 8 (ucast b)) :: 16 word)"
    by (rule crc_bits_zeros) (simp add: bit_simps)
  also have "\<dots> = ucast b"
    by (rule bit_word_eqI) (auto simp: bit_simps dest: bit_less)
  finally have sh: "(crc_bit ^^ 8) (push_bit 8 (ucast b)) = ucast b" .
  have "(crc_bit ^^ 16) x = (crc_bit ^^ 8) ((crc_bit ^^ 8) x)" for x
    using funpow_add [of 8 8 crc_bit] by simp
  then show ?thesis
    by (simp add: crc_byte_def crc_bits_xor sh flip: xor.assoc)
qed

lemma crc_byte_inj: "crc_byte r a = crc_byte r' a \<Longrightarrow> r = r'"
proof -
  assume "crc_byte r a = crc_byte r' a"
  then have "r XOR ucast a = r' XOR ucast a"
    by (auto simp: crc_byte_def dest: crc_bits_inj)
  then show "r = r'" by simp
qed

lemma crc_foldl_inj: "foldl crc_byte r s = foldl crc_byte r' s \<Longrightarrow> r = r'"
  by (induction s arbitrary: r r') (auto dest: crc_byte_inj)

lemma two_bytes_inj:
  fixes a b a' b' :: byte
  assumes "ucast a XOR push_bit 8 (ucast b) = (ucast a' XOR push_bit 8 (ucast b') :: 16 word)"
  shows "a = a' \<and> b = b'"
proof
  have lo: "bit (ucast x XOR push_bit 8 (ucast y) :: 16 word) n = bit x n" if "n < 8" for x y :: byte and n
    using that by (simp add: bit_simps)
  have hi: "bit (ucast x XOR push_bit 8 (ucast y) :: 16 word) (8 + n) = bit y n" if "n < 8" for x y :: byte and n
    using that bit_imp_le_length [of x "8 + n"] by (auto simp: bit_simps)
  show "a = a'"
  proof (rule bit_word_eqI)
    fix n assume "n < LENGTH(8)"
    then have "n < 8" by simp
    then show "bit a n = bit a' n" using lo [of n a b] lo [of n a' b'] assms by simp
  qed
  show "b = b'"
  proof (rule bit_word_eqI)
    fix n assume "n < LENGTH(8)"
    then have "n < 8" by simp
    then show "bit b n = bit b' n" using hi [of n a b] hi [of n a' b'] assms by simp
  qed
qed

section \<open>The nibble-wise CRC is the bit-serial CRC\<close>

text \<open>Four bit steps shift the register by a nibble and fold in a multiple of 0x1081.\<close>

lemma low_nibble_bits:
  "(x :: 16 word) AND 15 =
     (if bit x 0 then 1 else 0) + (if bit x (Suc 0) then 2 else 0) +
     (if bit x (Suc (Suc 0)) then 4 else 0) + (if bit x (Suc (Suc (Suc 0))) then 8 else 0)"
proof -
  have "x AND 15 = take_bit 4 x" by (simp add: take_bit_eq_mask mask_numeral)
  also have "\<dots> = of_bool (bit x 0) + 2 * (of_bool (bit x (Suc 0)) +
       2 * (of_bool (bit x (Suc (Suc 0))) + 2 * of_bool (bit x (Suc (Suc (Suc 0))))))"
    by (simp add: numeral_eq_Suc take_bit_Suc bit_Suc mod_2_eq_odd bit_0 algebra_simps)
  finally show ?thesis by simp
qed

lemma crc_nibble: "(crc_bit ^^ 4) x = drop_bit 4 x XOR (x AND 15) * 0x1081"
proof -
  have "(crc_bit ^^ 4) x = crc_bit (crc_bit (crc_bit (crc_bit x)))"
    by (simp add: numeral_eq_Suc)
  moreover have "drop_bit 4 x = drop_bit (Suc (Suc (Suc (Suc 0)))) x"
    by (simp add: eval_nat_numeral)
  ultimately show ?thesis
    by (simp add: low_nibble_bits crc_bit_def bit_simps drop_bit_xor xor.assoc)
qed

lemma unat_and_15: "unat ((y :: 'a::len word) AND 15) < 16"
proof -
  have "unat (y AND 15) \<le> unat (15 :: 'a word)"
    using word_and_le1 [of y 15] by (simp add: word_le_nat_alt)
  also have "\<dots> \<le> 15" by (simp add: unsigned_numeral take_bit_nat_less_eq_self)
  finally show ?thesis by simp
qed

lemma ucast_nibble_mult:
  "ucast ((y AND 15) * 0x1081 :: 16 word) = ((ucast y AND 15) * 0x1081 :: u32)"
proof -
  have "unat y < 2 ^ LENGTH(16)" by (rule unsigned_less)
  then have "take_bit 32 (unat y) = unat y" by (simp add: take_bit_nat_eq_self)
  then have q: "unat (ucast y AND 15 :: u32) = unat (y AND 15)"
    by (simp add: unsigned_and_eq unsigned_ucast_eq)
  show ?thesis
    by (rule word_unat_eq_iff [THEN iffD2])
       (use unat_and_15 [of y] in \<open>simp add: unat_word_ariths q unsigned_ucast_eq take_bit_nat_eq_self\<close>)
qed

text \<open>One character of the tableless generator is eight steps of the register.\<close>

definition strip :: "bool \<Rightarrow> byte \<Rightarrow> byte" where
  "strip parity c = (if parity then c AND 0x7F else c)"

lemma ucast_strip: "ucast (strip parity c) = (if parity then ucast c AND 0x7F else ucast c :: u32)"
  by (auto simp: strip_def bit_simps intro!: bit_word_eqI dest: bit_less)

lemma chk3_byte_crc: "chk3_byte parity (ucast r) c = ucast (crc_byte r (strip parity c))"
proof -
  define c' where "c' = strip parity c"
  define m where "m = drop_bit 4 r XOR ((r XOR ucast c') AND 15) * 0x1081"
  have "(crc_bit ^^ 8) x = (crc_bit ^^ 4) ((crc_bit ^^ 4) x)" for x
    using funpow_add [of 4 4 crc_bit] by simp
  then have "crc_byte r c' = (crc_bit ^^ 4) (m XOR drop_bit 4 (ucast c'))"
    by (simp add: crc_byte_def crc_nibble m_def drop_bit_xor ac_simps)
  also have "\<dots> = drop_bit 4 m XOR ((m XOR drop_bit 4 (ucast c')) AND 15) * 0x1081"
  proof -
    have "drop_bit 8 (ucast c' :: 16 word) = 0"
      by (rule bit_word_eqI) (auto simp: bit_simps dest: bit_less)
    then show ?thesis by (simp add: crc_nibble drop_bit_xor)
  qed
  finally have step: "crc_byte r c' = drop_bit 4 m XOR ((m XOR drop_bit 4 (ucast c')) AND 15) * 0x1081" .
  have up1: "ucast (x XOR y :: 16 word) = (ucast x XOR ucast y :: u32)" for x y
    by (auto intro!: bit_word_eqI simp: bit_simps dest: bit_less)
  have up2: "ucast (drop_bit 4 x :: 16 word) = (drop_bit 4 (ucast x) :: u32)" for x
  proof (rule bit_word_eqI)
    fix n show "bit (ucast (drop_bit 4 x) :: u32) n = bit (drop_bit 4 (ucast x) :: u32) n"
      using bit_less_16 [of x "4 + n"] by (auto simp: bit_simps)
  qed
  note up = up1 up2
  have cc: "ucast (ucast c' :: 16 word) = (ucast c' :: u32)"
    using bit_less_8 [of c'] by (force intro!: bit_word_eqI simp: bit_simps)
  have um: "ucast m = (drop_bit 4 (ucast r) XOR ((ucast r XOR ucast c') AND 15) * 0x1081 :: u32)"
    by (simp only: m_def up ucast_nibble_mult cc)
  have "(ucast c' :: u32) = (if parity then ucast c AND 0x7F else ucast c)"
    unfolding c'_def by (rule ucast_strip)
  then have "chk3_byte parity (ucast r) c =
      drop_bit 4 (ucast m) XOR ((ucast m XOR drop_bit 4 (ucast c')) AND 15) * 0x1081"
    by (simp only: chk3_byte_def Let_def um)
  also have "\<dots> = ucast (crc_byte r c')"
    by (simp only: step up ucast_nibble_mult cc)
  finally show ?thesis by (simp only: c'_def)
qed

lemma chk3_loop_crc:
  "chk3_loop parity s (ucast r) = ucast (foldl crc_byte r (map (strip parity) s))"
  by (induction s arbitrary: r) (simp_all add: chk3_byte_crc)

lemma chk3_is_crc: "chk3 parity s = ucast (crc_ccitt (map (strip parity) s))"
proof -
  have "chk3_loop parity s 0 = ucast (crc_ccitt (map (strip parity) s))"
    using chk3_loop_crc [of parity s 0] by (simp add: crc_ccitt_def)
  moreover have "ucast (w :: 16 word) AND 0xFFFF = (ucast w :: u32)" for w
  proof -
    have "ucast w AND mask 16 = (ucast w :: u32)"
      by (auto intro!: bit_word_eqI simp: bit_simps dest: bit_less)
    then show ?thesis by (simp add: mask_numeral)
  qed
  ultimately show ?thesis by (simp add: chk3_def)
qed

text \<open>
  C28. The tableless generator \<open>chk3\<close> computes, on every packet, the bit-serial CRC-16/CCITT
  (polynomial 0x8408, initial value 0, low bit first) of the characters, stripped of their
  parity bit when a parity is in use.
\<close>

theorem chk3_is_crc_ccitt: "chk3 parity s = ucast (crc_ccitt (map (strip parity) s))"
  by (rule chk3_is_crc)

lemma ucast_16_32_inj: "(ucast (x :: 16 word) :: u32) = ucast y \<Longrightarrow> x = y"
proof (rule bit_word_eqI)
  fix n assume eq: "(ucast x :: u32) = ucast y" and n: "n < LENGTH(16)"
  from eq have "bit (ucast x :: u32) n = bit (ucast y :: u32) n" by simp
  with n show "bit x n = bit y n" by (simp add: bit_simps)
qed

text \<open>
  C29. The CRC detects every burst error of up to sixteen bits that lies in two adjacent
  characters: two packets of eight-bit characters that agree but for two adjacent characters
  have different block checks.
\<close>

theorem chk3_detects_bursts:
  assumes "(a, b) \<noteq> (a', b')"
  shows "chk3 False (xs @ a # b # ys) \<noteq> chk3 False (xs @ a' # b' # ys)"
proof
  assume "chk3 False (xs @ a # b # ys) = chk3 False (xs @ a' # b' # ys)"
  moreover have "strip False = id" by (simp add: fun_eq_iff strip_def)
  ultimately have "crc_ccitt (xs @ a # b # ys) = crc_ccitt (xs @ a' # b' # ys)"
    by (simp add: chk3_is_crc ucast_16_32_inj)
  then have "crc_byte (crc_byte (crc_ccitt xs) a) b = crc_byte (crc_byte (crc_ccitt xs) a') b'"
    by (auto simp: crc_ccitt_def dest: crc_foldl_inj)
  then have "ucast a XOR push_bit 8 (ucast b) = (ucast a' XOR push_bit 8 (ucast b') :: 16 word)"
    by (auto simp: crc_two_bytes dest!: crc_bits_inj dest: arg_cong [where f = "\<lambda>z. crc_ccitt xs XOR z"] simp flip: xor.assoc)
  then have "(a, b) = (a', b')" by (simp add: two_bytes_inj)
  with assms show False by simp
qed

theorem chk3_detects_bursts_witness: "chk3 False [7, 1, 2, 9] \<noteq> chk3 False [7, 3, 2, 9]"
  using chk3_detects_bursts [of 1 2 3 2 "[7]" "[9]"] by simp

section \<open>Parity\<close>

text \<open>The number of one bits of a character.\<close>

definition ones :: "byte \<Rightarrow> nat" where
  "ones c = length (filter (bit c) [0..<8])"

lemma odd_length_filter_Cons:
  "odd (length (filter P (x # xs))) = (P x \<noteq> odd (length (filter P xs)))"
  by simp

lemma odd_ones:
  "odd (ones c) = (bit c 0 \<noteq> (bit c 1 \<noteq> (bit c 2 \<noteq> (bit c 3 \<noteq>
     (bit c 4 \<noteq> (bit c 5 \<noteq> (bit c 6 \<noteq> bit c 7)))))))"
proof -
  have "[0..<8] = [0, 1, 2, 3, 4, 5, 6, 7 :: nat]" by (simp add: upt_rec)
  then show ?thesis
    by (simp only: ones_def odd_length_filter_Cons) simp
qed

lemma bit_127: "bit (127 :: int) n = (n < 7)"
proof -
  have "bit (mask 7 :: int) n = (n < 7)" by (auto simp: bit_simps)
  then show ?thesis by (simp add: mask_numeral)
qed

lemma bit_128: "bit (128 :: int) n = (n = 7)"
proof -
  have "bit (2 ^ 7 :: int) n = (n = 7)" by (auto simp only: bit_exp_iff possible_bit_int)
  then show ?thesis by simp
qed

lemma dopar_low_bits: "n < 7 \<Longrightarrow> bit (dopar xp c) n = bit c n"
  by (auto simp: dopar_def Let_def bit_simps bit_127 bit_128)

lemma xor_low_bits: "(x AND 1) XOR (y AND 1) = of_bool (bit x 0 \<noteq> bit y 0)" for x y :: byte
  by (simp add: and_one_eq bit_0 mod_2_eq_odd)

lemma dopar_bit_7:
  "bit (dopar 101 c) 7 =
     (bit c 0 \<noteq> (bit c 1 \<noteq> (bit c 2 \<noteq> (bit c 3 \<noteq> (bit c 4 \<noteq> (bit c 5 \<noteq> bit c 6))))))"
  "bit (dopar 111 c) 7 = (\<not> bit (dopar 101 c) 7)"
  "bit (dopar 109 c) 7" "\<not> bit (dopar 115 c) 7"
  by (auto simp: dopar_def Let_def xor_low_bits bit_simps bit_127 bit_128 numeral_3_eq_3)

lemma dopar_strips: "dopar xp c AND 127 = c AND 127"
  by (rule bit_word_eqI) (auto simp: bit_simps bit_127 dopar_low_bits)

text \<open>
  \<open>dopar\<close> never changes the low seven bits of a character, and the character it returns has
  an even number of one bits for even parity, an odd number for odd parity, the high bit set for
  mark and clear for space parity; without a parity it returns the character itself.
\<close>

lemma dopar_parity:
  "dopar xp c AND 127 = c AND 127 \<and> dopar 0 c = c \<and>
   even (ones (dopar 101 c)) \<and> odd (ones (dopar 111 c)) \<and>
   bit (dopar 109 c) 7 \<and> \<not> bit (dopar 115 c) 7"
proof -
  have "\<not> odd (ones (dopar 101 c))"
    unfolding odd_ones dopar_bit_7(1) by (auto simp: dopar_low_bits)
  moreover have "odd (ones (dopar 111 c))"
    unfolding odd_ones dopar_bit_7(1,2) by (auto simp: dopar_low_bits)
  moreover have "dopar 0 c = c" by (simp add: dopar_def)
  ultimately show ?thesis using dopar_strips dopar_bit_7(3,4) by blast
qed

end
