(* ===== verification/Kermit_File.thy ===== *)
theory Kermit_File
  imports Prelude
begin

text \<open>
  G-Kermit's buffered file input (gunixio.c): \<open>zfillbuf\<close> reads a line in text mode, giving it a
  carriage return and linefeed, and a raw block in binary mode; the macro \<open>zgetc\<close> of gkermit.h
  takes one character from the buffer.

  The input file is the list of its unread bytes. The locale \<open>byte_source\<close> is what the packet
  filler asks of a source of characters; the file buffer is its first instance: the characters
  delivered are the bytes of the file, with a carriage return before each linefeed in text mode.
\<close>

section \<open>Definitions\<close>

abbreviation MAXRECORD :: nat where "MAXRECORD \<equiv> 4080"

record zin =
  ifp :: "byte list"
  zinbuf :: "byte list"
  zinptr :: nat
  zincnt :: int

text \<open>The \<open>for\<close> loop of the text branch: the unread file, the buffer, the count and the last character.\<close>

fun fill_line :: "byte list \<Rightarrow> byte list \<Rightarrow> nat \<Rightarrow> int \<Rightarrow> byte list \<times> byte list \<times> nat \<times> int" where
  "fill_line [] buf n c = (if n < MAXRECORD - 1 then ([], buf, n, -1) else ([], buf, n, c))"
| "fill_line (b # r) buf n c =
     (if n < MAXRECORD - 1 then
        (if b = 10 then (r, buf, n, 10) else fill_line r (buf[n := b]) (Suc n) (uint b))
      else (b # r, buf, n, c))"

text \<open>\<open>store a i bs\<close> writes the bytes \<open>bs\<close> to the cells of \<open>a\<close> from \<open>i\<close> on.\<close>

fun store :: "'a list \<Rightarrow> nat \<Rightarrow> 'a list \<Rightarrow> 'a list" where
  "store a i [] = a"
| "store a i (b # bs) = store (a[i := b]) (Suc i) bs"

definition zrefill :: "bool \<Rightarrow> 'a zin_scheme \<Rightarrow> 'a zin_scheme" where
  "zrefill tm s =
     (let s =
        (if tm then
           (case fill_line (ifp s) (zinbuf s) 0 0 of
              (r, buf, n, c) \<Rightarrow>
                (if c = 10 then s\<lparr>ifp := r, zinbuf := store buf n [13, 10], zincnt := int n + 2\<rparr>
                 else s\<lparr>ifp := r, zinbuf := buf, zincnt := int n\<rparr>))
         else
           (let blk = take MAXRECORD (ifp s)
            in s\<lparr>ifp := drop MAXRECORD (ifp s), zinbuf := store (zinbuf s) 0 blk,
                 zincnt := int (length blk)\<rparr>))
      in s\<lparr>zinbuf := (zinbuf s)[nat (zincnt s) := 0]\<rparr>)"

definition zfirst :: "'a zin_scheme \<Rightarrow> int \<times> 'a zin_scheme" where
  "zfirst s = (uint (zinbuf s ! zinptr s), s\<lparr>zincnt := zincnt s - 1, zinptr := Suc (zinptr s)\<rparr>)"

definition zfillbuf :: "bool \<Rightarrow> 'a zin_scheme \<Rightarrow> int \<times> 'a zin_scheme" where
  "zfillbuf tm s =
     (if zincnt s < 1 then
        (let s = zrefill tm s
         in if zincnt s = 0 then (-1, s) else zfirst (s\<lparr>zinptr := 0\<rparr>))
      else zfirst s)"

definition zgetc :: "bool \<Rightarrow> 'a zin_scheme \<Rightarrow> int \<times> 'a zin_scheme" where
  "zgetc tm s =
     (let s = s\<lparr>zincnt := zincnt s - 1\<rparr>
      in if zincnt s \<ge> 0 then (uint (zinbuf s ! zinptr s), s\<lparr>zinptr := Suc (zinptr s)\<rparr>)
         else zfillbuf tm s)"

section \<open>The characters a source delivers\<close>

text \<open>
  A source of characters: \<open>get\<close> takes the next one, or returns a negative number at the end, and
  \<open>rest\<close> is what it still has to deliver.
\<close>

fun drain :: "('s \<Rightarrow> int \<times> 's) \<Rightarrow> nat \<Rightarrow> 's \<Rightarrow> int list" where
  "drain get 0 s = []"
| "drain get (Suc n) s = (case get s of (c, s') \<Rightarrow> c # drain get n s')"

locale byte_source =
  fixes get :: "'s \<Rightarrow> int \<times> 's"
    and rest :: "'s \<Rightarrow> byte list"
    and inv :: "'s \<Rightarrow> bool"
  assumes get_end: "inv s \<Longrightarrow> rest s = [] \<Longrightarrow> get s = (c, s') \<Longrightarrow> c = -1 \<and> rest s' = []"
    and get_byte: "inv s \<Longrightarrow> rest s = b # bs \<Longrightarrow> get s = (c, s') \<Longrightarrow> c = uint b \<and> rest s' = bs"
    and get_inv: "inv s \<Longrightarrow> get s = (c, s') \<Longrightarrow> inv s'"
begin

lemma drain_delivers:
  "inv s \<Longrightarrow> drain get (Suc (length (rest s))) s = map uint (rest s) @ [-1]"
proof (induction "rest s" arbitrary: s)
  case Nil
  then show ?case using get_end [of s] by (auto split: prod.splits)
next
  case (Cons b bs)
  obtain c s' where g: "get s = (c, s')" by fastforce
  from get_byte [OF Cons.prems _ g] Cons.hyps(2) have "c = uint b" "rest s' = bs"
    by (metis list.inject)+
  moreover from get_inv [OF Cons.prems g] have "inv s'" .
  ultimately have "drain get (Suc (length bs)) s' = map uint bs @ [-1]"
    using Cons.hyps(1) [of s'] by simp
  with g \<open>c = uint b\<close> show ?case by (simp flip: Cons.hyps(2))
qed

end

fun crlf :: "byte list \<Rightarrow> byte list" where
  "crlf [] = []"
| "crlf (b # r) = (if b = 10 then 13 # 10 # crlf r else b # crlf r)"

definition zin_rest :: "bool \<Rightarrow> 'a zin_scheme \<Rightarrow> byte list" where
  "zin_rest tm s = take (nat (zincnt s)) (drop (zinptr s) (zinbuf s)) @
     (if tm then crlf (ifp s) else ifp s)"

definition zin_inv :: "'a zin_scheme \<Rightarrow> bool" where
  "zin_inv s \<longleftrightarrow> length (zinbuf s) = MAXRECORD + 1 \<and> zinptr s + nat (zincnt s) \<le> MAXRECORD"

lemma length_store [simp, array_simps]: "length (store a i bs) = length a"
  by (induction a i bs rule: store.induct) simp_all

lemma store_prefix [array_simps]:
  "i + length bs \<le> length a \<Longrightarrow> take (i + length bs) (store a i bs) = take i a @ bs"
proof (induction a i bs rule: store.induct)
  case (2 a i b bs)
  then have "take (Suc i + length bs) (store (a[i := b]) (Suc i) bs) = take (Suc i) (a[i := b]) @ bs"
    by simp
  with 2 show ?case by (simp add: take_Suc_update)
qed simp

lemma store_eq:
  "i + length bs \<le> length a \<Longrightarrow> store a i bs = take i a @ bs @ drop (i + length bs) a"
proof (induction a i bs rule: store.induct)
  case (2 a i b bs)
  then show ?case by (simp add: take_Suc_update drop_update_cancel)
qed simp

lemma store_append: "store a i (xs @ ys) = store (store a i xs) (i + length xs) ys"
  by (induction a i xs rule: store.induct) simp_all

lemma store_overwrite: "ys \<noteq> [] \<Longrightarrow> store (a[i := x]) i ys = store a i ys"
  by (cases ys) simp_all

lemma fill_line_spec:
  assumes "fill_line f buf n c = (f', buf', n', c')" "n \<le> MAXRECORD - 1" "length buf = MAXRECORD + 1"
    "n = 0 \<or> c \<noteq> 10 \<and> c \<noteq> -1"
  shows "n \<le> n' \<and> n' \<le> MAXRECORD - 1 \<and> length buf' = MAXRECORD + 1 \<and>
    (c' = 10 \<longrightarrow> n' < MAXRECORD - 1) \<and>
    take n buf @ crlf f = take n' buf' @ (if c' = 10 then [13, 10] else []) @ crlf f' \<and>
    (f \<noteq> [] \<longrightarrow> c' = 10 \<or> n < n' \<or> n = MAXRECORD - 1)"
  using assms
proof (induction f buf n c rule: fill_line.induct)
  case (2 b r buf n c)
  have u: "uint b = 10 \<longleftrightarrow> b = 10" for b :: byte
    by (simp add: word_uint_eq_iff)
  show ?case
    using 2 by (auto split: if_splits simp: take_Suc_update u)
qed (auto split: if_splits)

lemma crlf_eq_Nil [simp]: "crlf f = [] \<longleftrightarrow> f = []"
  by (cases f) auto

lemma zrefill_rest:
  assumes "length (zinbuf s) = MAXRECORD + 1" "zincnt s < 1"
  shows "zin_rest tm ((zrefill tm s)\<lparr>zinptr := 0\<rparr>) = (if tm then crlf (ifp s) else ifp s)"
    and "zin_inv ((zrefill tm s)\<lparr>zinptr := 0\<rparr>)"
    and "zincnt (zrefill tm s) = 0 \<longleftrightarrow> ifp s = []"
    and "0 \<le> zincnt (zrefill tm s)"
proof -
  have main: "zin_rest tm ((zrefill tm s)\<lparr>zinptr := 0\<rparr>) = (if tm then crlf (ifp s) else ifp s) \<and>
    zin_inv ((zrefill tm s)\<lparr>zinptr := 0\<rparr>) \<and> (zincnt (zrefill tm s) = 0 \<longleftrightarrow> ifp s = []) \<and>
    0 \<le> zincnt (zrefill tm s)"
  proof (cases tm)
    case True
    obtain f' buf' n' c' where fl: "fill_line (ifp s) (zinbuf s) 0 0 = (f', buf', n', c')"
      by (metis prod_cases4)
    from fill_line_spec [OF fl _ assms(1)]
    have *: "n' \<le> MAXRECORD - 1" "length buf' = MAXRECORD + 1" "c' = 10 \<longrightarrow> n' < MAXRECORD - 1"
      "crlf (ifp s) = take n' buf' @ (if c' = 10 then [13, 10] else []) @ crlf f'"
      "ifp s \<noteq> [] \<longrightarrow> c' = 10 \<or> 0 < n'" by auto
    have e: "ifp s = [] \<Longrightarrow> n' = 0 \<and> c' \<noteq> 10" using fl by auto
    show ?thesis
    proof (cases "c' = 10")
      case True
      have "take (Suc (Suc n')) (store buf' n' [13, 10]) = take n' buf' @ [13, 10]"
        using store_prefix [of n' "[13, 10]" buf'] * by simp
      with True fl * \<open>tm\<close> e show ?thesis
        by (auto simp: zrefill_def zin_rest_def zin_inv_def nat_add_distrib)
    next
      case False
      with fl * \<open>tm\<close> e show ?thesis
        by (auto simp: zrefill_def zin_rest_def zin_inv_def)
    qed
  next
    case False
    have "take (min (length (ifp s)) MAXRECORD) (store (zinbuf s) 0 (take MAXRECORD (ifp s)))
        = take MAXRECORD (ifp s)"
      using store_prefix [of 0 "take MAXRECORD (ifp s)" "zinbuf s"] assms(1) by simp
    with False show ?thesis using assms
      by (auto simp: zrefill_def zin_rest_def zin_inv_def Let_def simp del: store.simps)
  qed
  then show "zin_rest tm ((zrefill tm s)\<lparr>zinptr := 0\<rparr>) = (if tm then crlf (ifp s) else ifp s)"
    and "zin_inv ((zrefill tm s)\<lparr>zinptr := 0\<rparr>)"
    and "zincnt (zrefill tm s) = 0 \<longleftrightarrow> ifp s = []"
    and "0 \<le> zincnt (zrefill tm s)" by blast+
qed

lemma zfirst_spec:
  assumes "zin_inv s" "0 < zincnt s" "zfirst s = (c, s')"
  shows "zin_inv s' \<and> (\<exists>b. c = uint b \<and> zin_rest tm s = b # zin_rest tm s')"
proof -
  define k where "k = nat (zincnt s - 1)"
  from assms(2) have k: "nat (zincnt s) = Suc k" by (simp add: k_def)
  from assms(1) k have lt: "zinptr s < length (zinbuf s)" by (simp add: zin_inv_def)
  from assms(3) have s': "c = uint (zinbuf s ! zinptr s)"
    "s' = s\<lparr>zincnt := zincnt s - 1, zinptr := Suc (zinptr s)\<rparr>" by (auto simp: zfirst_def)
  have "zin_rest tm s = (zinbuf s ! zinptr s) # zin_rest tm s'"
    using lt k by (simp add: zin_rest_def s' Cons_nth_drop_Suc [symmetric] k_def)
  moreover have "zin_inv s'" using assms(1) k by (simp add: zin_inv_def s' k_def)
  ultimately show ?thesis using s' by blast
qed

lemma zgetc_cases:
  "zgetc tm s = (if 0 < zincnt s then zfirst s
     else let t = zrefill tm (s\<lparr>zincnt := zincnt s - 1\<rparr>)
          in if zincnt t = 0 then (-1, t) else zfirst (t\<lparr>zinptr := 0\<rparr>))"
  by (auto simp: zgetc_def zfillbuf_def zfirst_def Let_def)

lemma zrefill_ptr [simp]: "zinptr (zrefill tm s) = zinptr s"
  by (simp add: zrefill_def Let_def split: prod.split)

lemma zgetc_source:
  assumes "zin_inv s" "zgetc tm s = (c, s')"
  shows "zin_inv s' \<and> (case zin_rest tm s of [] \<Rightarrow> c = -1 \<and> zin_rest tm s' = []
           | b # bs \<Rightarrow> c = uint b \<and> zin_rest tm s' = bs)"
proof (cases "0 < zincnt s")
  case True
  with zfirst_spec [OF assms(1), of c s' tm] assms(2) show ?thesis by (auto simp: zgetc_cases)
next
  case False
  define t where "t = zrefill tm (s\<lparr>zincnt := zincnt s - 1\<rparr>)"
  define u where "u = t\<lparr>zinptr := 0\<rparr>"
  from zrefill_rest [of "s\<lparr>zincnt := zincnt s - 1\<rparr>" tm] False assms(1)
  have t: "zin_rest tm u = (if tm then crlf (ifp s) else ifp s)"
    "zin_inv u" "zincnt t = 0 \<longleftrightarrow> ifp s = []" "0 \<le> zincnt t" "zinptr t = zinptr s"
    by (auto simp: t_def u_def zin_inv_def)
  with False have r: "zin_rest tm s = zin_rest tm u"
    by (simp add: zin_rest_def)
  show ?thesis
  proof (cases "zincnt t = 0")
    case True
    then have "c = -1" "s' = t" using assms(2) False by (auto simp: zgetc_cases t_def)
    moreover have "zin_inv t" using t True assms(1) by (auto simp: zin_inv_def u_def)
    moreover have "zin_rest tm t = zin_rest tm u" using True by (simp add: zin_rest_def u_def)
    ultimately show ?thesis using t True r by (cases tm) simp_all
  next
    case nz: False
    then have "zfirst u = (c, s')" using assms(2) False
      by (auto simp: zgetc_cases t_def u_def Let_def)
    moreover have "0 < zincnt u" using nz t(4) by (simp add: u_def)
    ultimately show ?thesis using zfirst_spec [OF t(2), of c s' tm] r by auto
  qed
qed

interpretation zfile: byte_source "zgetc tm" "zin_rest tm" zin_inv for tm
  by unfold_locales (auto dest!: zgetc_source [rotated] split: list.splits)

text \<open>Opening a file empties the buffer (\<open>zopeni\<close> resets the count and the pointer).\<close>

definition zopened :: "byte list \<Rightarrow> zin" where
  "zopened f = \<lparr>ifp = f, zinbuf = replicate (MAXRECORD + 1) 0, zinptr = 0, zincnt = 0\<rparr>"

text \<open>
  C30. Reading a newly opened file with \<open>zgetc\<close> until it ends delivers exactly
  the bytes of the file in binary mode, and in text mode the bytes of the file with a carriage
  return before every linefeed, and then the end-of-file value -1, for a file of any length (any
  number of buffer refills).
\<close>

theorem zgetc_reads_file:
  "drain (zgetc tm) (Suc (length (if tm then crlf f else f))) (zopened f)
     = map uint (if tm then crlf f else f) @ [-1]"
proof -
  have "zin_inv (zopened f)" and "zin_rest tm (zopened f) = (if tm then crlf f else f)"
    by (simp_all add: zopened_def zin_inv_def zin_rest_def)
  then show ?thesis using zfile.drain_delivers [of "zopened f" tm] by simp
qed

text \<open>A bound on the characters left, for the termination of the loops that read.\<close>

definition zin_measure :: "'a zin_scheme \<Rightarrow> nat" where
  "zin_measure s = 3 * length (ifp s) + nat (zincnt s)"

lemma fill_line_length:
  "fill_line f buf n c = (f', buf', n', c') \<Longrightarrow> n = 0 \<or> c \<noteq> 10 \<Longrightarrow>
   length f' + n' + (if c' = 10 then 1 else 0) = length f + n"
proof (induction f buf n c rule: fill_line.induct)
  case (2 b r buf n c)
  have "uint b = 10 \<longleftrightarrow> b = 10" by (simp add: word_uint_eq_iff)
  with 2 show ?case by (auto split: if_splits)
qed (auto split: if_splits)

lemma zgetc_measure:
  assumes "zgetc tm s = (c, s')" "c \<noteq> -1"
  shows "zin_measure s' < zin_measure s"
proof (cases "0 < zincnt s")
  case True
  with assms show ?thesis by (auto simp: zgetc_cases zfirst_def zin_measure_def)
next
  case False
  define t where "t = zrefill tm (s\<lparr>zincnt := zincnt s - 1\<rparr>)"
  from assms False have nz: "zincnt t \<noteq> 0" and z: "zfirst (t\<lparr>zinptr := 0\<rparr>) = (c, s')"
    by (auto simp: zgetc_cases t_def Let_def split: if_splits)
  have "3 * length (ifp t) + nat (zincnt t) \<le> 3 * length (ifp s)"
  proof (cases tm)
    case True
    obtain f' buf' n' c' where fl: "fill_line (ifp s) (zinbuf s) 0 0 = (f', buf', n', c')"
      by (metis prod_cases4)
    from fill_line_length [OF fl] show ?thesis
      using True fl by (auto simp: t_def zrefill_def split: if_splits)
  qed (simp add: t_def zrefill_def Let_def)
  moreover have "0 < zincnt t"
  proof -
    have "0 \<le> zincnt t" by (simp add: t_def zrefill_def Let_def split: prod.split)
    with nz show ?thesis by simp
  qed
  ultimately show ?thesis using z False by (auto simp: zfirst_def zin_measure_def)
qed

end
