(* ===== verification/Kermit_Encode.thy ===== *)
theory Kermit_Encode
  imports Kermit_Check Kermit_File
begin

text \<open>
  The packet filler of gkermit.c: \<open>encode\<close> (control, eighth-bit and repeat prefixing), \<open>getpkt\<close>
  and \<open>encstr\<close>.
\<close>

section \<open>Definitions\<close>

record kenc = zin +
  textmode :: bool
  isp :: "byte list option"
  rptflg :: bool
  ebqflg :: bool
  rptq :: byte
  ebq :: byte
  sctlq :: byte
  rpt :: int
  xdata :: "byte list"
  xsize :: nat
  osize :: nat
  maxsiz :: int
  first :: int
  getpkt_c :: int
  remain :: "byte list"
  fault :: bool

text \<open>\<open>xdata[size++] = b\<close>, and \<open>xdata[size] = NUL\<close>.\<close>

definition emit :: "byte \<Rightarrow> 'a kenc_scheme \<Rightarrow> 'a kenc_scheme" where
  "emit b s = s\<lparr>xdata := (xdata s)[xsize s := b], xsize := Suc (xsize s),
               fault := (fault s \<or> length (xdata s) \<le> xsize s)\<rparr>"

definition emit_NUL :: "'a kenc_scheme \<Rightarrow> 'a kenc_scheme" where
  "emit_NUL s = s\<lparr>xdata := (xdata s)[xsize s := 0],
                 fault := (fault s \<or> length (xdata s) \<le> xsize s)\<rparr>"

definition encode_char :: "int \<Rightarrow> 'a kenc_scheme \<Rightarrow> 'a kenc_scheme" where
  "encode_char a s =
     (let a7 = a AND 127;
          b8 = a AND 128;
          (a, s) = (if ebqflg s \<and> b8 \<noteq> 0 then (a7, emit (ebq s) s) else (a, s));
          (a, s) = (if a7 < 32 \<or> a7 = 127 then (a XOR 64, emit (sctlq s) s)
                    else if a7 = uint (sctlq s) then (a, emit (sctlq s) s)
                    else if ebqflg s \<and> a7 = uint (ebq s) then (a, emit (sctlq s) s)
                    else if rptflg s \<and> a7 = uint (rptq s) then (a, emit (sctlq s) s)
                    else (a, s))
      in emit_NUL (emit (word_of_int a) s))"

function encode :: "int \<Rightarrow> int \<Rightarrow> 'a kenc_scheme \<Rightarrow> 'a kenc_scheme" where
  "encode a next s =
     (if rptflg s then
        (if a = next then
           (let s = s\<lparr>rpt := rpt s + 1\<rparr>
            in if rpt s < 94 then s
               else if rpt s = 94 then
                 encode_char a ((emit (tochar (rpt s)) (emit (rptq s) s))\<lparr>rpt := 0\<rparr>)
               else encode_char a s)
         else if rpt s = 1 then
           (let s1 = encode a (-1) (s\<lparr>rpt := 0\<rparr>);
                s2 = (if int (xsize s1) \<le> maxsiz s1 then s1\<lparr>osize := xsize s1\<rparr> else s1)
            in encode a (-1) (s2\<lparr>rpt := 0\<rparr>))
         else if rpt s > 1 then
           (let s = s\<lparr>rpt := rpt s + 1\<rparr>
            in encode_char a ((emit (tochar (rpt s)) (emit (rptq s) s))\<lparr>rpt := 0\<rparr>))
         else encode_char a s)
      else encode_char a s)"
  by pat_completeness auto
termination
  by (relation "measure (\<lambda>(a, next, s). nat (rpt s))") auto

text \<open>The next character: of the memory string when \<open>isp\<close> is set, else of the file.\<close>

definition next_char :: "'a kenc_scheme \<Rightarrow> int \<times> 'a kenc_scheme" where
  "next_char s =
     (case isp s of
        Some [] \<Rightarrow> (-1, s)
      | Some (b # r) \<Rightarrow> (if b = 0 then -1 else uint b, s\<lparr>isp := Some r\<rparr>)
      | None \<Rightarrow> zgetc (textmode s) s)"

text \<open>Saving what does not fit: \<open>for (i = 0; (remain[i] = xdata[osize+i]) != NUL; i++)\<close>.\<close>

definition save_remain :: "'a kenc_scheme \<Rightarrow> 'a kenc_scheme" where
  "save_remain s =
     (let r = cstr (drop (osize s) (xdata s)) @ [0]
      in s\<lparr>remain := store (remain s) 0 r,
           fault := (fault s \<or> length (remain s) < length r)\<rparr>)"

text \<open>Taking it back: \<open>for (size = 0; (xdata[size] = remain[size]) != NUL; size++)\<close>.\<close>

definition take_remain :: "'a kenc_scheme \<Rightarrow> 'a kenc_scheme" where
  "take_remain s =
     (let r = cstr (remain s)
      in s\<lparr>xdata := store (xdata s) 0 (r @ [0]), xsize := length r,
           fault := (fault s \<or> length (remain s) \<le> length r)\<rparr>)"

section \<open>What encode leaves alone, and what it appends\<close>

definition emits :: "byte list \<Rightarrow> 'a kenc_scheme \<Rightarrow> 'a kenc_scheme" where
  "emits bs s = s\<lparr>xdata := store (xdata s) (xsize s) bs, xsize := xsize s + length bs,
                 fault := (fault s \<or> bs \<noteq> [] \<and> length (xdata s) < xsize s + length bs)\<rparr>"

definition puts :: "byte list \<Rightarrow> 'a kenc_scheme \<Rightarrow> 'a kenc_scheme" where
  "puts bs s = s\<lparr>xdata := store (xdata s) (xsize s) (bs @ [0]), xsize := xsize s + length bs,
                fault := (fault s \<or> length (xdata s) \<le> xsize s + length bs)\<rparr>"

lemma emits_Nil [simp]: "emits [] s = s"
  by (simp add: emits_def)

lemma emits_emit: "emits bs (emit b s) = emits (b # bs) s"
  by (cases s, cases bs) (auto simp: emits_def emit_def)

lemma emit_eq_emits: "emit b s = emits [b] s"
  by (simp add: emits_emit [symmetric])

lemma emits_emits: "emits cs (emits bs s) = emits (bs @ cs) s"
  by (induction bs arbitrary: s) (simp_all add: emits_emit [symmetric])

lemma emit_NUL_emits: "emit_NUL (emits bs s) = puts bs s"
  by (cases s) (auto simp: emit_NUL_def emits_def puts_def store_append)

lemma emits_sel [simp]:
  "rptflg (emits bs s) = rptflg s" "ebqflg (emits bs s) = ebqflg s" "rptq (emits bs s) = rptq s"
  "ebq (emits bs s) = ebq s" "sctlq (emits bs s) = sctlq s" "rpt (emits bs s) = rpt s"
  by (simp_all add: emits_def)

lemma emits_rpt: "(emits bs s)\<lparr>rpt := n\<rparr> = emits bs (s\<lparr>rpt := n\<rparr>)"
  by (simp add: emits_def)

text \<open>
  The characters \<open>encode_char\<close> appends for one byte, as a function of the prefixes in use: the
  repeat prefix, the eighth-bit prefix and the control prefix.
\<close>

record pfx =
  has_rpt :: bool
  has_ebq :: bool
  c_rpt :: byte
  c_ebq :: byte
  c_ctl :: byte

definition enc_pfx :: "'a kenc_scheme \<Rightarrow> pfx" where
  "enc_pfx s = \<lparr>has_rpt = rptflg s, has_ebq = ebqflg s, c_rpt = rptq s, c_ebq = ebq s, c_ctl = sctlq s\<rparr>"

definition quote :: "pfx \<Rightarrow> byte \<Rightarrow> byte list" where
  "quote p b =
     (let a7 = b AND 127;
          hi = has_ebq p \<and> b AND 128 \<noteq> 0;
          b' = (if hi then a7 else b)
      in (if hi then [c_ebq p] else []) @
         (if a7 < 32 \<or> a7 = 127 then [c_ctl p, b' XOR 64]
          else if a7 = c_ctl p \<or> has_ebq p \<and> a7 = c_ebq p \<or> has_rpt p \<and> a7 = c_rpt p
          then [c_ctl p, b']
          else [b']))"

lemma enc_pfx_sel [simp]:
  "has_rpt (enc_pfx s) = rptflg s" "has_ebq (enc_pfx s) = ebqflg s" "c_rpt (enc_pfx s) = rptq s"
  "c_ebq (enc_pfx s) = ebq s" "c_ctl (enc_pfx s) = sctlq s"
  by (simp_all add: enc_pfx_def)

lemma encode_char_quote: "encode_char (uint b) s = puts (quote (enc_pfx s) b) s"
proof -
  have i: "uint b AND 127 = uint (b AND 127)" "uint b AND 128 = uint (b AND 128)"
    "uint x XOR 64 = uint (x XOR 64)" for x :: byte
    by (simp_all add: unsigned_and_eq unsigned_xor_eq)
  have j: "uint x = 0 \<longleftrightarrow> x = 0" "uint x < 32 \<longleftrightarrow> x < 32" "uint x = 127 \<longleftrightarrow> x = 127"
    "uint x = uint y \<longleftrightarrow> x = y" for x y :: byte
    unfolding word_uint_eq_iff word_less_def by (simp_all del: uint_byte_inject)
  show ?thesis
    by (simp add: encode_char_def quote_def Let_def i j emit_eq_emits emits_emits
        emit_NUL_emits [symmetric] split: prod.split)
qed

text \<open>The cases of \<open>encode\<close>, with a run of \<open>rpt\<close> equal characters seen before this one.\<close>

definition run_unit :: "pfx \<Rightarrow> int \<Rightarrow> byte \<Rightarrow> byte list" where
  "run_unit p n b = c_rpt p # tochar n # quote p b"

lemma enc_pfx_frame [simp]:
  "enc_pfx (puts bs s) = enc_pfx s" "enc_pfx (emits bs s) = enc_pfx s"
  "enc_pfx (s\<lparr>rpt := n\<rparr>) = enc_pfx s" "enc_pfx (s\<lparr>osize := k\<rparr>) = enc_pfx s"
  by (simp_all add: enc_pfx_def puts_def emits_def)

lemma encode_plain: "\<not> rptflg s \<Longrightarrow> encode (uint b) nxt s = puts (quote (enc_pfx s) b) s"
  by (simp add: encode_char_quote)

lemma encode_run: "rptflg s \<Longrightarrow> rpt s < 93 \<Longrightarrow> encode (uint b) (uint b) s = s\<lparr>rpt := rpt s + 1\<rparr>"
  by simp

lemma encode_full_run:
  "rptflg s \<Longrightarrow> rpt s = 93 \<Longrightarrow>
   encode (uint b) (uint b) s = puts (run_unit (enc_pfx s) 94 b) (s\<lparr>rpt := 0\<rparr>)"
  by (simp add: encode_char_quote run_unit_def emit_eq_emits emits_emits emits_rpt
      emit_NUL_emits [symmetric])

lemma encode_single:
  "rptflg s \<Longrightarrow> rpt s = 0 \<Longrightarrow> nxt \<noteq> uint b \<Longrightarrow> encode (uint b) nxt s = puts (quote (enc_pfx s) b) s"
  by (simp add: encode_char_quote)

lemma encode_long:
  "rptflg s \<Longrightarrow> rpt s > 1 \<Longrightarrow> nxt \<noteq> uint b \<Longrightarrow>
   encode (uint b) nxt s = puts (run_unit (enc_pfx s) (rpt s + 1) b) (s\<lparr>rpt := 0\<rparr>)"
  by (simp add: encode_char_quote run_unit_def emit_eq_emits emits_emits emits_rpt
      emit_NUL_emits [symmetric])

lemma encode_double:
  assumes "rptflg s" "rpt s = 1" "nxt \<noteq> uint b"
  shows "encode (uint b) nxt s =
    (let t = puts (quote (enc_pfx s) b) (s\<lparr>rpt := 0\<rparr>)
     in puts (quote (enc_pfx s) b) (if int (xsize t) \<le> maxsiz t then t\<lparr>osize := xsize t\<rparr> else t))"
proof -
  let ?s = "s\<lparr>rpt := 0\<rparr>"
  let ?t = "puts (quote (enc_pfx s) b) ?s"
  let ?u = "if int (xsize ?t) \<le> maxsiz ?t then ?t\<lparr>osize := xsize ?t\<rparr> else ?t"
  have 1: "encode (uint b) (-1) ?s = ?t"
    using assms by (subst encode_single) simp_all
  have z: "?u\<lparr>rpt := 0\<rparr> = ?u" by (simp add: puts_def)
  have "rptflg ?u" "rpt ?u = 0" using assms by (simp_all add: puts_def)
  then have 2: "encode (uint b) (-1) ?u = puts (quote (enc_pfx s) b) ?u"
    by (subst encode_single) simp_all
  have "encode (uint b) nxt s = encode (uint b) (-1) (?u\<lparr>rpt := 0\<rparr>)"
    using assms assms(3) [symmetric]
    by (subst encode.simps) (simp only: 1 Let_def if_True if_False simp_thms)
  then show ?thesis by (simp only: z 2 Let_def)
qed

declare encode.simps [simp del]

text \<open>What belongs to the source of characters is untouched.\<close>

definition enc_input :: "'a kenc_scheme \<Rightarrow> _" where
  "enc_input s = (ifp s, zinbuf s, zinptr s, zincnt s, textmode s, isp s, first s, getpkt_c s, remain s)"

lemma enc_input_char: "enc_input (encode_char a s) = enc_input s"
  by (auto simp: encode_char_def Let_def emit_def emit_NUL_def enc_input_def split: prod.splits)

lemma enc_input_encode: "enc_input (encode a nxt s) = enc_input s"
proof (induction a nxt s rule: encode.induct)
  case (1 a nxt s)
  have f: "enc_input (emit b s) = enc_input s" "enc_input (s\<lparr>rpt := n\<rparr>) = enc_input s"
    "enc_input (s\<lparr>osize := k\<rparr>) = enc_input s" for b n k and s :: "'a kenc_scheme"
    by (simp_all add: enc_input_def emit_def)
  show ?case
    by (subst encode.simps) (use 1 in \<open>auto simp: Let_def enc_input_char f\<close>)
qed

lemma encode_sel [simp]:
  "ifp (encode a nxt s) = ifp s" "zinbuf (encode a nxt s) = zinbuf s"
  "zinptr (encode a nxt s) = zinptr s" "zincnt (encode a nxt s) = zincnt s"
  "textmode (encode a nxt s) = textmode s" "isp (encode a nxt s) = isp s"
  "first (encode a nxt s) = first s" "getpkt_c (encode a nxt s) = getpkt_c s"
  "remain (encode a nxt s) = remain s"
  using enc_input_encode [of a nxt s] by (simp_all add: enc_input_def)

definition enc_measure :: "'a kenc_scheme \<Rightarrow> nat" where
  "enc_measure s = (case isp s of Some r \<Rightarrow> length r | None \<Rightarrow> zin_measure s)"

lemma zgetc_more:
  assumes "zgetc tm s = (c, s')"
  shows "zin.more s' = zin.more s"
  using assms by (auto simp: zgetc_cases zfirst_def zrefill_def Let_def split: if_splits prod.splits)

lemma zgetc_kenc:
  assumes "zgetc tm s = (c, s')"
  shows "kenc.more s' = kenc.more s" "isp s' = isp s" "first s' = first s" "textmode s' = textmode s"
    "xdata s' = xdata s" "xsize s' = xsize s" "remain s' = remain s" "rpt s' = rpt s"
    "maxsiz s' = maxsiz s" "fault s' = fault s" "getpkt_c s' = getpkt_c s" "osize s' = osize s"
    "enc_pfx s' = enc_pfx s"
  using zgetc_more [OF assms] by (cases s, cases s', simp add: enc_pfx_def)+

lemma next_char_measure:
  assumes "next_char s = (c, s')" "\<not> c < 0"
  shows "enc_measure s' < enc_measure s" "first s' = first s"
proof -
  have "enc_measure s' < enc_measure s \<and> first s' = first s"
  proof (cases "isp s")
    case None
    with assms(1) have z: "zgetc (textmode s) s = (c, s')" by (simp add: next_char_def)
    with assms(2) have "zin_measure s' < zin_measure s" by (auto dest: zgetc_measure)
    with None zgetc_kenc [OF z] show ?thesis by (simp add: enc_measure_def)
  next
    case (Some r)
    with assms show ?thesis
      by (cases r) (auto simp: next_char_def enc_measure_def split: if_splits)
  qed
  then show "enc_measure s' < enc_measure s" "first s' = first s" by auto
qed

section \<open>Filling a packet\<close>

function getpkt_loop :: "int \<Rightarrow> 'a kenc_scheme \<Rightarrow> 'a kenc_scheme" where
  "getpkt_loop maxlen s =
     (if first s > -1 then
        (case next_char s of (nxt, s1) \<Rightarrow>
           (let s2 = (if nxt < 0 then s1\<lparr>first := -1\<rparr> else s1);
                s3 = encode (getpkt_c s2) nxt (s2\<lparr>osize := xsize s2\<rparr>);
                s4 = s3\<lparr>getpkt_c := nxt\<rparr>
            in if int (xsize s4) = maxlen then s4
               else if int (xsize s4) > maxlen then
                 (let s5 = (save_remain s4)\<lparr>xsize := osize s4\<rparr>
                  in s5\<lparr>xdata := (xdata s5)[xsize s5 := 0]\<rparr>)
               else getpkt_loop maxlen s4))
      else s)"
  by pat_completeness auto
termination
proof (relation "measure (\<lambda>(maxlen, s). if first s > -1 then Suc (enc_measure s) else 0)")
  fix maxlen :: int and s s1 s2 s3 s4 :: "'a kenc_scheme" and nxt
  assume A: "first s > -1" "(nxt, s1) = next_char s"
    "s2 = (if nxt < 0 then s1\<lparr>first := -1\<rparr> else s1)"
    "s3 = encode (getpkt_c s2) nxt (s2\<lparr>osize := xsize s2\<rparr>)" "s4 = s3\<lparr>getpkt_c := nxt\<rparr>"
  have m: "enc_measure s4 = enc_measure s1" using A(3-5)
    by (simp add: enc_measure_def zin_measure_def split: option.split)
  show "((maxlen, s4), maxlen, s) \<in>
      measure (\<lambda>(maxlen, s). if first s > -1 then Suc (enc_measure s) else 0)"
    using A m next_char_measure [of s nxt s1] by (cases "nxt < 0") auto
qed auto

declare getpkt_loop.simps [simp del]

definition getpkt :: "int \<Rightarrow> 'a kenc_scheme \<Rightarrow> int \<times> 'a kenc_scheme" where
  "getpkt maxlen s =
     (let start =
        (if first s = 1 then
           (case next_char (s\<lparr>first := 0, remain := (remain s)[0 := 0]\<rparr>) of (c, s) \<Rightarrow>
              (let s = s\<lparr>getpkt_c := c\<rparr>
               in if c < 0 then Inl (s\<lparr>first := -1, xsize := 0\<rparr>) else Inr s))
         else if first s = -1 \<and> remain s ! 0 = 0 then Inl (s\<lparr>xsize := 0\<rparr>)
         else Inr s)
      in case start of
           Inl s \<Rightarrow> (0, s)
         | Inr s \<Rightarrow>
             (let s = take_remain s;
                  s = s\<lparr>remain := (remain s)[0 := 0]\<rparr>
              in if first s = -1 then (int (xsize s), s)
                 else (let s = getpkt_loop maxlen (s\<lparr>rpt := 0\<rparr>) in (int (xsize s), s))))"

definition encstr :: "byte list \<Rightarrow> int \<Rightarrow> 'a kenc_scheme \<Rightarrow> int \<times> 'a kenc_scheme" where
  "encstr str spsiz s =
     (case getpkt spsiz (s\<lparr>first := 1, isp := Some str\<rparr>) of
        (n, s) \<Rightarrow> (int (xsize s), s\<lparr>isp := None\<rparr>))"

section \<open>Units: the runs a packet holds\<close>

definition pfx_char :: "byte \<Rightarrow> bool" where
  "pfx_char c \<longleftrightarrow> 32 < c \<and> c < 63 \<or> 95 < c \<and> c < 127"

definition pfx_ok :: "pfx \<Rightarrow> bool" where
  "pfx_ok p \<longleftrightarrow> pfx_char (c_ctl p) \<and>
     (has_ebq p \<longrightarrow> pfx_char (c_ebq p) \<and> c_ebq p \<noteq> c_ctl p) \<and>
     (has_rpt p \<longrightarrow> pfx_char (c_rpt p) \<and> c_rpt p \<noteq> c_ctl p) \<and>
     (has_ebq p \<longrightarrow> has_rpt p \<longrightarrow> c_ebq p \<noteq> c_rpt p)"

text \<open>Without both kinds of prefixing in use, a run of two never needs more than four characters.\<close>

definition safe_pfx :: "pfx \<Rightarrow> bool" where
  "safe_pfx p \<longleftrightarrow> \<not> (has_rpt p \<and> has_ebq p)"

definition unit :: "pfx \<Rightarrow> nat \<times> byte \<Rightarrow> byte list" where
  "unit p u = (case u of (n, b) \<Rightarrow> if n = 1 then quote p b else run_unit p (int n) b)"

definition unit_ok :: "pfx \<Rightarrow> nat \<times> byte \<Rightarrow> bool" where
  "unit_ok p u = (case u of (n, b) \<Rightarrow> 1 \<le> n \<and> n \<le> 94 \<and> (n \<noteq> 1 \<longrightarrow> has_rpt p))"

definition units :: "pfx \<Rightarrow> (nat \<times> byte) list \<Rightarrow> byte list" where
  "units p us = concat (map (unit p) us)"

definition expand :: "(nat \<times> byte) list \<Rightarrow> byte list" where
  "expand us = concat (map (\<lambda>(n, b). replicate n b) us)"

lemma units_simps [simp]:
  "units p [] = []" "units p (us @ vs) = units p us @ units p vs" "units p (u # us) = unit p u @ units p us"
  by (simp_all add: units_def)

lemma expand_simps [simp]:
  "expand [] = []" "expand (us @ vs) = expand us @ expand vs" "expand (u # us) = replicate (fst u) (snd u) @ expand us"
  by (simp_all add: expand_def split: prod.split)

lemma quote_bytes:
  "b AND 127 < 32 \<or> b AND 127 = 127 \<Longrightarrow> b XOR 64 \<noteq> 0 \<and> (b AND 127) XOR 64 \<noteq> 0"
  "\<not> (b AND 127 < 32) \<Longrightarrow> b \<noteq> 0 \<and> b AND 127 \<noteq> 0" for b :: byte
  by (auto simp: word_xor_eq_0)

lemma pfx_char_nz: "pfx_char c \<Longrightarrow> c \<noteq> 0"
  by (auto simp: pfx_char_def)

lemma quote_shape:
  assumes "pfx_ok p"
  shows "quote p b \<noteq> []" "length (quote p b) \<le> (if has_ebq p then 3 else 2)" "0 \<notin> set (quote p b)"
proof -
  show "quote p b \<noteq> []" "length (quote p b) \<le> (if has_ebq p then 3 else 2)"
    by (simp_all add: quote_def Let_def)
  have "c_ctl p \<noteq> 0" "has_ebq p \<Longrightarrow> c_ebq p \<noteq> 0"
    using assms by (auto simp: pfx_ok_def dest: pfx_char_nz)
  then show "0 \<notin> set (quote p b)"
    using quote_bytes [of b] by (auto simp: quote_def Let_def)
qed

lemma tochar_nz: "1 \<le> n \<Longrightarrow> n \<le> 94 \<Longrightarrow> tochar n \<noteq> 0"
  using uint_tochar [of n] by force

lemma unit_shape:
  assumes "pfx_ok p" "unit_ok p u"
  shows "unit p u \<noteq> []" "length (unit p u) \<le> (if has_ebq p then 5 else 4)" "0 \<notin> set (unit p u)"
proof -
  obtain n b where u: "u = (n, b)" by fastforce
  have "c_rpt p \<noteq> 0" if "n \<noteq> 1" using assms that by (auto simp: u unit_ok_def pfx_ok_def dest: pfx_char_nz)
  moreover have "tochar (int n) \<noteq> 0" using assms(2) by (intro tochar_nz) (auto simp: u unit_ok_def)
  ultimately show "unit p u \<noteq> []" "length (unit p u) \<le> (if has_ebq p then 5 else 4)" "0 \<notin> set (unit p u)"
    using quote_shape [OF assms(1), of b] by (auto simp: u unit_def run_unit_def split: if_splits)
qed

lemma units_nz: "pfx_ok p \<Longrightarrow> list_all (unit_ok p) us \<Longrightarrow> 0 \<notin> set (units p us)"
  by (induction us) (auto dest: unit_shape(3))

lemma units_Nil_iff: "pfx_ok p \<Longrightarrow> list_all (unit_ok p) us \<Longrightarrow> units p us = [] \<longleftrightarrow> us = []"
  by (cases us) (auto dest: unit_shape(1))

lemma expand_Nil_iff: "list_all (unit_ok p) us \<Longrightarrow> expand us = [] \<longleftrightarrow> us = []"
  by (cases us) (auto simp: unit_ok_def)

section \<open>The sources of getpkt\<close>

definition enc_rest :: "'a kenc_scheme \<Rightarrow> byte list" where
  "enc_rest s = (case isp s of Some r \<Rightarrow> r | None \<Rightarrow> zin_rest (textmode s) s)"

definition enc_src :: "'a kenc_scheme \<Rightarrow> bool" where
  "enc_src s = (case isp s of Some r \<Rightarrow> 0 \<notin> set r | None \<Rightarrow> zin_inv s)"

lemma next_char_frame:
  assumes "next_char s = (c, s')"
  shows "enc_pfx s' = enc_pfx s" "first s' = first s" "xdata s' = xdata s" "xsize s' = xsize s"
    "remain s' = remain s" "rpt s' = rpt s" "maxsiz s' = maxsiz s" "fault s' = fault s"
    "getpkt_c s' = getpkt_c s" "kenc.more s' = kenc.more s" "textmode s' = textmode s"
proof -
  have *: "enc_pfx (s\<lparr>isp := r\<rparr>) = enc_pfx s" for r by (simp add: enc_pfx_def)
  show "enc_pfx s' = enc_pfx s" "first s' = first s" "xdata s' = xdata s" "xsize s' = xsize s"
    "remain s' = remain s" "rpt s' = rpt s" "maxsiz s' = maxsiz s" "fault s' = fault s"
    "getpkt_c s' = getpkt_c s" "kenc.more s' = kenc.more s" "textmode s' = textmode s"
    using assms
    by (auto simp: next_char_def * zgetc_kenc split: option.splits list.splits)
qed

interpretation kin: byte_source next_char enc_rest enc_src
proof
  fix s s' :: "'a kenc_scheme" and c b bs
  assume i: "enc_src s" and n: "next_char s = (c, s')"
  show "enc_rest s = [] \<Longrightarrow> c = -1 \<and> enc_rest s' = []"
    and "enc_rest s = b # bs \<Longrightarrow> c = uint b \<and> enc_rest s' = bs"
    and "enc_src s'"
  proof (atomize (full), cases "isp s")
    case None
    with n have z: "zgetc (textmode s) s = (c, s')" by (simp add: next_char_def)
    with zgetc_kenc [OF z] zgetc_source [OF _ z] None i
    show "(enc_rest s = [] \<longrightarrow> c = -1 \<and> enc_rest s' = []) \<and>
      (enc_rest s = b # bs \<longrightarrow> c = uint b \<and> enc_rest s' = bs) \<and> enc_src s'"
      by (auto simp: enc_rest_def enc_src_def split: list.splits)
  next
    case (Some r)
    with n i show "(enc_rest s = [] \<longrightarrow> c = -1 \<and> enc_rest s' = []) \<and>
      (enc_rest s = b # bs \<longrightarrow> c = uint b \<and> enc_rest s' = bs) \<and> enc_src s'"
      by (cases r) (auto simp: next_char_def enc_rest_def enc_src_def)
  qed
qed

section \<open>One step of the loop\<close>

text \<open>
  \<open>encode\<close> either counts one more of a run, or appends the run in one or two units; \<open>osize\<close> then
  marks a boundary between units.
\<close>

lemma encode_step:
  fixes s :: "'a kenc_scheme"
  assumes p: "p = enc_pfx s" "pfx_ok p"
    and rpt: "0 \<le> rpt s" "rpt s \<le> 93" "\<not> rptflg s \<longrightarrow> rpt s = 0"
    and os: "osize s = xsize s"
    and t: "t = encode (uint c) nxt s"
  shows "(nxt = uint c \<and> rptflg s \<and> rpt s < 93 \<and> t = s\<lparr>rpt := rpt s + 1\<rparr>) \<or>
    (\<exists>vs ws. list_all (unit_ok p) (vs @ ws) \<and> ws \<noteq> [] \<and> length (units p (vs @ ws)) \<le> 6 \<and>
       expand (vs @ ws) = replicate (Suc (nat (rpt s))) c \<and>
       (safe_pfx p \<longrightarrow> length (units p (vs @ ws)) \<le> 4) \<and>
       (vs \<noteq> [] \<longrightarrow> int (xsize s + length (units p vs)) \<le> maxsiz s) \<and>
       t = s\<lparr>rpt := 0, xdata := store (xdata s) (xsize s) (units p (vs @ ws) @ [0]),
             xsize := xsize s + length (units p (vs @ ws)),
             osize := xsize s + length (units p vs),
             fault := (fault s \<or> length (xdata s) \<le> xsize s + length (units p (vs @ ws)))\<rparr>)"
proof -
  have one: ?thesis
    if u: "unit_ok p (n, c)" "n = Suc (nat (rpt s))" "t = puts (unit p (n, c)) (s\<lparr>rpt := 0\<rparr>)" for n
  proof -
    have "length (unit p (n, c)) \<le> (if has_ebq p then 5 else 4)" by (rule unit_shape [OF p(2) u(1)])
    moreover have "length (unit p (n, c)) \<le> 4" if "safe_pfx p"
      using that u(1) calculation quote_shape(2) [OF p(2), of c]
      by (auto simp: safe_pfx_def unit_ok_def unit_def split: if_splits)
    ultimately show ?thesis
      using u os by (intro disjI2 exI [of _ "[]"] exI [of _ "[(n, c)]"])
        (auto simp: puts_def split: if_splits)
  qed
  have q: "unit_ok p (1, c)" "unit p (1, c) = quote p c" by (simp_all add: unit_ok_def unit_def)
  have z: "s\<lparr>rpt := 0\<rparr> = s" if "rpt s = 0" using that by (cases s) simp
  have single: ?thesis if r: "rpt s = 0" "t = puts (quote p c) s"
  proof (rule one [OF q(1)])
    show "1 = Suc (nat (rpt s))" using r by simp
    show "t = puts (unit p (1, c)) (s\<lparr>rpt := 0\<rparr>)" by (simp only: z r q)
  qed
  have run: ?thesis if "rptflg s" "rpt s \<noteq> 0" "t = puts (run_unit p (rpt s + 1) c) (s\<lparr>rpt := 0\<rparr>)"
    using that rpt(1,2) p(1)
    by (intro one [of "Suc (nat (rpt s))"]) (simp_all add: unit_ok_def unit_def add.commute)
  have double: ?thesis if d: "rptflg s" "rpt s = 1" "nxt \<noteq> uint c"
  proof -
    define u where "u = quote p c"
    have len: "length u \<le> (if has_ebq p then 3 else 2)" "u \<noteq> []"
      using quote_shape [OF p(2), of c] by (auto simp: u_def)
    have us: "units p [(1, c)] = u" by (simp add: u_def unit_def)
    have w: "store (store a i (u @ [0])) (i + length u) (u @ [0]) = store a i (u @ u @ [0])" for a and i :: nat
      using len(2) by (simp add: store_append store_overwrite)
    have e: "expand [(1, c), (1, c)] = replicate (Suc (nat (rpt s))) c"
      using d(2) by (simp add: numeral_2_eq_2)
    let ?B = "int (xsize s + length u) \<le> maxsiz s"
    have t2: "t = s\<lparr>rpt := 0, xdata := store (xdata s) (xsize s) (u @ u @ [0]),
             xsize := xsize s + length (u @ u), osize := (if ?B then xsize s + length u else xsize s),
             fault := (fault s \<or> length (xdata s) \<le> xsize s + length (u @ u))\<rparr>"
      unfolding t encode_double [OF d] Let_def p(1) [symmetric] u_def [symmetric]
      using w os by (cases s) (auto simp: puts_def)
    show ?thesis
    proof (cases ?B)
      case True
      then show ?thesis using t2 len e q us d(1) p(1)
        by (intro disjI2 exI [of _ "[(1, c)]"]) (auto simp: safe_pfx_def split: if_splits)
    next
      case False
      then show ?thesis using t2 len e q us d(1) p(1)
        by (intro disjI2 exI [of _ "[]"] exI [of _ "[(1, c), (1, c)]"]) (auto simp: safe_pfx_def split: if_splits)
    qed
  qed
  consider "\<not> rptflg s" | "rptflg s" "nxt = uint c" "rpt s < 93" | "rptflg s" "nxt = uint c" "rpt s = 93"
    | "rptflg s" "nxt \<noteq> uint c" "rpt s = 0" | "rptflg s" "nxt \<noteq> uint c" "rpt s = 1"
    | "rptflg s" "nxt \<noteq> uint c" "rpt s > 1" using rpt(1,2) by linarith
  then show ?thesis
  proof cases
    case 1 then show ?thesis using t p rpt(3) by (intro single) (simp_all add: encode_plain)
  next
    case 2 then show ?thesis using t by (simp add: encode_run)
  next
    case 3 then show ?thesis using t p by (intro run) (simp_all add: encode_full_run)
  next
    case 4 then show ?thesis using t p by (intro single) (simp_all add: encode_single)
  next
    case 5 then show ?thesis by (intro double)
  next
    case 6 then show ?thesis using t p by (intro run) (simp_all add: encode_long)
  qed
qed

section \<open>A packet is a prefix of what is pending\<close>

text \<open>
  What a sender still has to put into packets: the units saved in \<open>remain\<close>, the character that
  was read ahead, and the rest of the source.
\<close>

definition ahead :: "'a kenc_scheme \<Rightarrow> byte list \<Rightarrow> bool" where
  "ahead s A \<longleftrightarrow> first s = -1 \<and> A = [] \<or> first s = 0 \<and> (\<exists>c. getpkt_c s = uint c \<and> A = c # enc_rest s)"

definition saved :: "'a kenc_scheme \<Rightarrow> byte list \<Rightarrow> bool" where
  "saved s R \<longleftrightarrow> length (cstr (remain s)) < length (remain s) \<and> (\<exists>rs A. cstr (remain s) = units (enc_pfx s) rs \<and> list_all (unit_ok (enc_pfx s)) rs \<and>
                 ahead s A \<and> R = expand rs @ A)"

lemma saved_Nil: "cstr (remain s) = [] \<Longrightarrow> remain s \<noteq> [] \<Longrightarrow> ahead s A \<Longrightarrow> saved s A"
  unfolding saved_def by (intro conjI exI [of _ "[]"] exI [of _ A]) simp_all

definition pending :: "'a kenc_scheme \<Rightarrow> byte list \<Rightarrow> bool" where
  "pending s R \<longleftrightarrow> (if first s = 1 then R = enc_rest s else saved s R)"

definition enc_ok :: "'a kenc_scheme \<Rightarrow> bool" where
  "enc_ok s \<longleftrightarrow> pfx_ok (enc_pfx s) \<and> enc_src s \<and> length (xdata s) = 9016 \<and> length (remain s) = 6"

lemma cstr_store_0:
  "length r < length a \<Longrightarrow> 0 \<notin> set r \<Longrightarrow> cstr (store a 0 (r @ [0])) = r"
  by (simp add: store_eq cstr_append_NUL del: store.simps)

lemma cstr_Nil: "a \<noteq> [] \<Longrightarrow> cstr (a[0 := 0]) = []"
  by (cases a) (simp_all add: cstr_def)

text \<open>The state after one round of the loop: the next character is read ahead.\<close>

lemma round_ahead:
  assumes "enc_src s" "first s = 0" "next_char s = (nxt, s1)"
    "s2 = (if nxt < 0 then s1\<lparr>first := -1\<rparr> else s1)"
    "s4 = (encode (getpkt_c s2) nxt (s2\<lparr>osize := xsize s2\<rparr>))\<lparr>getpkt_c := nxt\<rparr>"
  shows "ahead s4 (enc_rest s)" "enc_src s4"
    "first s4 = -1 \<and> nxt = -1 \<and> enc_rest s = [] \<or> 
     first s4 = 0 \<and> (\<exists>d. nxt = uint d \<and> getpkt_c s4 = uint d \<and> enc_rest s = d # enc_rest s4)"
proof -
  have r: "enc_rest s4 = enc_rest s1" "enc_src s4 = enc_src s1"
    using assms(4,5) by (auto simp: enc_rest_def enc_src_def zin_rest_def zin_inv_def split: option.split)
  note f = next_char_frame [OF assms(3)]
  have src: "enc_src s1" by (rule kin.get_inv [OF assms(1,3)])
  have "first s4 = -1 \<and> nxt = -1 \<and> enc_rest s = [] \<or> 
     first s4 = 0 \<and> (\<exists>d. nxt = uint d \<and> getpkt_c s4 = uint d \<and> enc_rest s = d # enc_rest s4)"
  proof (cases "enc_rest s")
    case Nil
    from kin.get_end [OF assms(1) Nil assms(3)] show ?thesis using Nil assms(4,5) by simp
  next
    case (Cons d ds)
    from kin.get_byte [OF assms(1) Cons assms(3)] show ?thesis
      using Cons assms(2,4,5) f r by simp
  qed
  with r src show "ahead s4 (enc_rest s)" "enc_src s4"
    "first s4 = -1 \<and> nxt = -1 \<and> enc_rest s = [] \<or> 
     first s4 = 0 \<and> (\<exists>d. nxt = uint d \<and> getpkt_c s4 = uint d \<and> enc_rest s = d # enc_rest s4)"
    by (auto simp: ahead_def)
qed

lemma getpkt_loop_units:
  fixes s :: "'a kenc_scheme"
  assumes "enc_ok s" "p = enc_pfx s" "first s = 0" "getpkt_c s = uint c"
    "take (xsize s) (xdata s) = units p us" "list_all (unit_ok p) us"
    "0 \<le> rpt s" "rpt s \<le> 93" "\<not> rptflg s \<longrightarrow> rpt s = 0"
    "int (xsize s) < maxlen" "6 < maxlen" "maxlen \<le> 9000" "cstr (remain s) = []"
    "t = getpkt_loop maxlen s" "\<not> fault t \<or> safe_pfx p"
  shows "\<exists>vs R. take (xsize t) (xdata t) = units p vs \<and> vs \<noteq> [] \<and> list_all (unit_ok p) vs \<and> saved t R \<and>
     expand us @ replicate (Suc (nat (rpt s))) c @ enc_rest s = expand vs @ R \<and>
     enc_ok t \<and> enc_pfx t = p \<and> (safe_pfx p \<longrightarrow> fault t = fault s) \<and>
     (maxsiz s \<le> maxlen \<longrightarrow> int (xsize t) \<le> maxlen) \<and> maxsiz t = maxsiz s"
  using assms
proof (induction maxlen s arbitrary: c us rule: getpkt_loop.induct)
  case (1 maxlen s)
  note prems = "1.prems"
  obtain nxt s1 where n: "next_char s = (nxt, s1)" by fastforce
  define s2 where "s2 = (if nxt < 0 then s1\<lparr>first := -1\<rparr> else s1)"
  define x where "x = s2\<lparr>osize := xsize s2\<rparr>"
  define s3 where "s3 = encode (getpkt_c s2) nxt x"
  define s4 where "s4 = s3\<lparr>getpkt_c := nxt\<rparr>"
  note f = next_char_frame [OF n]
  have ok: "pfx_ok p" "enc_src s" "length (xdata s) = 9016" "length (remain s) = 6"
    using prems(1,2) by (auto simp: enc_ok_def)
  have x: "enc_pfx x = p" "rpt x = rpt s" "xdata x = xdata s" "xsize x = xsize s" "remain x = remain s"
     "osize x = xsize x" "rptflg x = rptflg s" "getpkt_c s2 = uint c" "fault x = fault s" "maxsiz x = maxsiz s"
    using f prems(2,4) enc_pfx_sel(1) by (auto simp: x_def s2_def enc_pfx_def)
  have "s4 = (encode (getpkt_c s2) nxt (s2\<lparr>osize := xsize s2\<rparr>))\<lparr>getpkt_c := nxt\<rparr>"
    by (simp add: s4_def s3_def x_def)
  note ah = round_ahead [OF ok(2) prems(3) n s2_def this]
  have loop: "t = (if int (xsize s4) = maxlen then s4
       else if int (xsize s4) > maxlen then
         (let s5 = (save_remain s4)\<lparr>xsize := osize s4\<rparr> in s5\<lparr>xdata := (xdata s5)[xsize s5 := 0]\<rparr>)
       else getpkt_loop maxlen s4)"
    unfolding prems(14) s4_def s3_def x_def s2_def Let_def
    by (subst getpkt_loop.simps) (simp only: prems(3) n prod.case Let_def, simp)
  have rem: "cstr (remain s4) = []" "length (remain s4) = 6"
    using prems(13) ok(4) x(5) by (simp_all add: s4_def s3_def)
  have c: "s3 = encode (uint c) nxt x" by (simp add: s3_def x)
  have rx: "0 \<le> rpt x" "rpt x \<le> 93" "\<not> rptflg x \<longrightarrow> rpt x = 0" using prems(7-9) x by auto
  have IH: ?case if "int (xsize s4) < maxlen" "first s4 = 0" "getpkt_c s4 = uint d"
      "take (xsize s4) (xdata s4) = units p ws" "list_all (unit_ok p) ws" "0 \<le> rpt s4" "rpt s4 \<le> 93"
      "rptflg s4 = rptflg s" "\<not> rptflg s \<longrightarrow> rpt s4 = 0" "enc_pfx s4 = p" "length (xdata s4) = 9016"
      "fault s4 = fault s" "maxsiz s4 = maxsiz s"
      "expand us @ replicate (Suc (nat (rpt s))) c @ enc_rest s =
         expand ws @ replicate (Suc (nat (rpt s4))) d @ enc_rest s4" for d ws
  proof -
    have "enc_ok s4" using ok ah rem that by (simp add: enc_ok_def)
    moreover have "t = getpkt_loop maxlen s4" using loop that(1) by simp
    ultimately show ?thesis
      using "1.IH" [OF _ n [symmetric] s2_def s3_def [unfolded x_def] s4_def, of d ws]
        that prems rem by (simp add: x_def)
  qed
  from encode_step [OF x(1) [symmetric] ok(1) rx x(6) c]
  show ?case
  proof (elim disjE exE conjE)
    assume r: "nxt = uint c" "rptflg x" "rpt x < 93" "s3 = x\<lparr>rpt := rpt x + 1\<rparr>"
    then have "first s4 = 0" "getpkt_c s4 = uint c" "enc_rest s = c # enc_rest s4" using ah(3) by auto
    moreover have "replicate (Suc (nat (rpt x))) c @ c # enc_rest s4 =
        replicate (Suc (nat (rpt x + 1))) c @ enc_rest s4"
      using rx(1) by (simp add: nat_add_distrib replicate_app_Cons_same)
    ultimately show ?case
      using r x rx prems ok by (intro IH [of c us]) (auto simp: s4_def enc_pfx_def)
  next
    fix vs ws
    assume e: "list_all (unit_ok p) (vs @ ws)" "ws \<noteq> []" "length (units p (vs @ ws)) \<le> 6"
      "expand (vs @ ws) = replicate (Suc (nat (rpt x))) c"
      "safe_pfx p \<longrightarrow> length (units p (vs @ ws)) \<le> 4"
      "vs \<noteq> [] \<longrightarrow> int (xsize x + length (units p vs)) \<le> maxsiz x"
      "s3 = x\<lparr>rpt := 0, xdata := store (xdata x) (xsize x) (units p (vs @ ws) @ [0]),
             xsize := xsize x + length (units p (vs @ ws)), osize := xsize x + length (units p vs),
             fault := (fault x \<or> length (xdata x) \<le> xsize x + length (units p (vs @ ws)))\<rparr>"
    let ?all = "vs @ ws"
    have fits: "xsize s + length (units p ?all @ [0]) \<le> length (xdata s)"
      using e(3) prems(10,12) ok(3) by simp
    have lu: "xsize s = length (units p us)" using fits by (simp flip: prems(5))
    have xd: "xdata s4 = take (xsize s) (xdata s) @ units p ?all @ 0 # drop (Suc (xsize s + length (units p ?all))) (xdata s)"
      using fits by (simp add: s4_def e(7) x store_eq del: store.simps)
    have sz: "xsize s4 = xsize s + length (units p ?all)" "osize s4 = xsize s + length (units p vs)"
      by (simp_all add: s4_def e(7) x)
    have tk: "take (xsize s4) (xdata s4) = units p (us @ ?all)"
      using fits prems(5) by (simp add: xd sz lu)
    have T: "expand us @ replicate (Suc (nat (rpt s))) c @ enc_rest s = expand (us @ ?all) @ enc_rest s"
      using e(4) x(2) by simp
    have s4: "enc_pfx s4 = p" "rpt s4 = 0" "length (xdata s4) = 9016" "rptflg s4 = rptflg s"
      "fault s4 = fault s" "maxsiz s4 = maxsiz s"
      using x ok(3) fits by (simp_all add: s4_def e(7) enc_pfx_def)
    have us_ok: "list_all (unit_ok p) (us @ ?all)" using e(1) prems(6) by simp
    consider (full) "int (xsize s4) = maxlen \<or> int (xsize s4) < maxlen \<and> first s4 = -1"
      | (over) "int (xsize s4) > maxlen" | (more) "int (xsize s4) < maxlen" "first s4 = 0"
      using ah(3) by linarith
    then show ?case
    proof cases
      case full
      then have "t = s4" using loop by (auto simp: getpkt_loop.simps)
      moreover have "saved s4 (enc_rest s)"
        using rem ah(1) by (intro saved_Nil) auto
      moreover have "enc_ok s4" using ok ah(2) s4 rem by (simp add: enc_ok_def)
      ultimately show ?thesis using full tk us_ok e(2) T s4 by (intro exI [of _ "us @ ?all"]) auto
    next
      case over
      have t: "t = (save_remain s4)\<lparr>xsize := osize s4, xdata := (xdata s4)[osize s4 := 0]\<rparr>"
        using loop over by (simp add: Let_def save_remain_def)
      have wz: "0 \<notin> set (units p ws)" using e(1) ok(1) units_nz by simp
      have dr: "drop (osize s4) (xdata s4) = units p ws @ 0 # drop (Suc (xsize s + length (units p ?all))) (xdata s)"
        using fits by (simp add: xd sz)
      have "cstr (drop (osize s4) (xdata s4)) = units p ws" unfolding dr by (rule cstr_append_NUL [OF wz])
      then have sv: "remain t = store (remain s4) 0 (units p ws @ [0])" "length (units p ws) < 6"
        using prems(15) rem(2) e(5) by (auto simp: t save_remain_def Let_def)
      have "cstr (remain t) = units p ws"
        unfolding sv(1) by (rule cstr_store_0) (use sv(2) rem(2) wz in simp_all)
      moreover have "ahead t A = ahead s4 A" "enc_pfx t = enc_pfx s4" "enc_src t = enc_src s4" for A
        by (simp_all add: ahead_def enc_rest_def enc_src_def zin_rest_def zin_inv_def enc_pfx_def
            t save_remain_def Let_def split: option.split)
      ultimately have "saved t (expand ws @ enc_rest s)" and "enc_ok t" and "enc_pfx t = p"
        using ah e(1) s4 sv rem ok by (auto simp: saved_def enc_ok_def t save_remain_def)
      moreover have "take (xsize t) (xdata t) = units p (us @ vs)"
        using fits prems(5) sz lu by (simp add: t save_remain_def xd)
      moreover have "safe_pfx p \<longrightarrow> fault t = fault s" "maxsiz t = maxsiz s"
        using \<open>cstr (drop (osize s4) (xdata s4)) = units p ws\<close> e(5) rem(2) s4
        by (auto simp: t save_remain_def Let_def)
      moreover have "maxsiz s \<le> maxlen \<longrightarrow> int (xsize t) \<le> maxlen"
        using e(6) x prems(10) sz(2) by (cases "vs = []") (auto simp: t)
      moreover have "us \<noteq> []" using over e(3) sz prems(5,11) fits by (cases us) auto
      ultimately show ?thesis using us_ok T by (intro exI [of _ "us @ vs"]) auto
    next
      case more
      then obtain d where "getpkt_c s4 = uint d" "enc_rest s = d # enc_rest s4" using ah(3) by auto
      then show ?thesis using more tk us_ok s4 T by (intro IH [of d "us @ ?all"]) auto
    qed
  qed
qed

lemma cstr_Nil_iff: "a \<noteq> [] \<Longrightarrow> cstr a = [] \<longleftrightarrow> a ! 0 = 0"
  by (cases a) (simp_all add: cstr_def)

lemma length_cstr: "length (cstr a) \<le> length a"
  by (simp add: cstr_def length_takeWhile_le)

text \<open>The start of a packet: the units left over are taken back, then the loop goes on from them.\<close>

lemma getpkt_from_remain:
  fixes s :: "'a kenc_scheme"
  assumes "enc_ok s" "p = enc_pfx s" "first s = 0" "getpkt_c s = uint c"
    "cstr (remain s) = units p rs" "list_all (unit_ok p) rs" "6 < maxlen" "maxlen \<le> 9000"
    "u = take_remain s" "t = getpkt_loop maxlen (u\<lparr>remain := (remain u)[0 := 0], rpt := 0\<rparr>)" "\<not> fault t \<or> safe_pfx p"
    "length (cstr (remain s)) < length (remain s)"
  shows "\<exists>vs R. take (xsize t) (xdata t) = units p vs \<and> vs \<noteq> [] \<and> list_all (unit_ok p) vs \<and> saved t R \<and>
     expand rs @ c # enc_rest s = expand vs @ R \<and> enc_ok t \<and> enc_pfx t = p \<and>
     (safe_pfx p \<longrightarrow> fault t = fault s) \<and>
     (maxsiz s \<le> maxlen \<longrightarrow> int (xsize t) \<le> maxlen) \<and> maxsiz t = maxsiz s"
proof -
  let ?v = "u\<lparr>remain := (remain u)[0 := 0], rpt := 0\<rparr>"
  have ok: "length (xdata s) = 9016" "length (remain s) = 6" using assms(1) by (auto simp: enc_ok_def)
  have l: "length (units p rs) \<le> 6" using length_cstr [of "remain s"] assms(5) ok by simp
  have "take (xsize ?v) (xdata ?v) = units p rs"
    using l ok assms(5,9) by (simp add: take_remain_def store_eq Let_def del: store.simps)
  moreover have "int (xsize ?v) < maxlen" using l assms(5,7,9) by (simp add: take_remain_def Let_def)
  moreover have "enc_ok ?v" "enc_rest ?v = enc_rest s"
    using assms(1,9) by (auto simp: enc_ok_def take_remain_def enc_pfx_def enc_src_def enc_rest_def
        zin_inv_def zin_rest_def Let_def split: option.splits)
  moreover have "cstr (remain ?v) = []"
    using ok(2) assms(9) cstr_Nil [of "remain s"] by (cases "remain s") (auto simp: take_remain_def Let_def)
  moreover have "p = enc_pfx ?v" "first ?v = 0" "getpkt_c ?v = uint c" "rpt ?v = 0"
    "fault ?v = fault s" "maxsiz ?v = maxsiz s"
    using assms by (simp_all add: take_remain_def enc_pfx_def Let_def)
  ultimately show ?thesis
    using getpkt_loop_units [of ?v p c rs maxlen t] assms(6-8,10,11) by simp
qed

lemma getpkt_units:
  fixes s :: "'a kenc_scheme"
  assumes "enc_ok s" "p = enc_pfx s" "pending s R" "6 < maxlen" "maxlen \<le> 9000"
    "getpkt maxlen s = (n, t)" "\<not> fault t \<or> safe_pfx p"
  shows "\<exists>vs R'. n = int (xsize t) \<and> take (xsize t) (xdata t) = units p vs \<and> list_all (unit_ok p) vs \<and>
     saved t R' \<and> R = expand vs @ R' \<and> enc_ok t \<and> enc_pfx t = p \<and> (vs = [] \<longleftrightarrow> R = []) \<and> first t \<noteq> 1 \<and>
     (safe_pfx p \<longrightarrow> fault t = fault s) \<and> (maxsiz s \<le> maxlen \<longrightarrow> n \<le> maxlen) \<and> maxsiz t = maxsiz s"
proof -
  have ok: "pfx_ok p" "enc_src s" "length (xdata s) = 9016" "length (remain s) = 6" "remain s \<noteq> []"
    using assms(1,2) by (auto simp: enc_ok_def)
  have sv: "saved t R' \<Longrightarrow> first t \<noteq> 1" for R' by (auto simp: saved_def ahead_def)
  consider (start) "first s = 1" | (eof) "first s = -1" "remain s ! 0 = 0" | (left) "first s = -1" "remain s ! 0 \<noteq> 0"
    | (mid) "first s = 0" using assms(3) by (auto simp: pending_def saved_def ahead_def split: if_splits)
  then show ?thesis
  proof cases
    case start
    define y where "y = s\<lparr>first := 0, remain := (remain s)[0 := 0]\<rparr>"
    obtain c s1 where nx: "next_char y = (c, s1)" by fastforce
    note f = next_char_frame [OF nx]
    have y: "enc_src y" "enc_rest y = R" "enc_pfx y = p" "cstr (remain y) = []"
      using ok assms(2,3) start cstr_Nil [of "remain s"]
      by (auto simp: y_def pending_def enc_src_def enc_rest_def zin_inv_def zin_rest_def enc_pfx_def split: option.split)
    have src: "enc_src s1" by (rule kin.get_inv [OF y(1) nx])
    show ?thesis
    proof (cases R)
      case Nil
      with kin.get_end [OF y(1) _ nx] y(2) have c: "c = -1" by simp
      have t: "n = 0" "t = s1\<lparr>getpkt_c := c, first := -1, xsize := 0\<rparr>"
        using assms(6) start nx c by (auto simp: getpkt_def Let_def y_def [symmetric])
      have p': "enc_pfx t = p" using f(1) y(3) by (simp add: t enc_pfx_def)
      moreover have "saved t []"
        using f(5) y(4) ok(5) by (intro saved_Nil) (auto simp: t ahead_def y_def)
      moreover have "enc_ok t" using ok f src p' t
        by (simp add: enc_ok_def y_def enc_src_def zin_inv_def split: option.splits)
      ultimately show ?thesis using t Nil f assms(4) by (intro exI [of _ "[]"]) (auto simp: y_def)
    next
      case (Cons b bs)
      with kin.get_byte [OF y(1) _ nx] y(2) have c: "c = uint b" "enc_rest s1 = bs" by simp_all
      let ?z = "s1\<lparr>getpkt_c := c\<rparr>"
      have z: "enc_ok ?z" "p = enc_pfx ?z" "first ?z = 0" "getpkt_c ?z = uint b" "cstr (remain ?z) = units p []"
        "enc_rest ?z = bs"
        using ok f src y c by (auto simp: enc_ok_def y_def enc_src_def enc_rest_def zin_inv_def zin_rest_def enc_pfx_def split: option.splits)
      have t: "t = getpkt_loop maxlen ((take_remain ?z)\<lparr>remain := (remain (take_remain ?z))[0 := 0], rpt := 0\<rparr>)" "n = int (xsize t)"
        using assms(6) start nx c z(3) by (auto simp: getpkt_def Let_def y_def [symmetric] take_remain_def)
      from getpkt_from_remain [OF z(1-5) _ assms(4,5) refl t(1) assms(7)] z Cons t(2) f ok(4)
      show ?thesis using sv by (auto simp: y_def)
    qed
  next
    case eof
    then have t: "n = 0" "t = s\<lparr>xsize := 0\<rparr>" using assms(6) by (auto simp: getpkt_def)
    from eof assms(3) obtain rs where rs: "cstr (remain s) = units p rs" "list_all (unit_ok p) rs" "R = expand rs"
      using assms(2) by (auto simp: pending_def saved_def ahead_def)
    with eof ok cstr_Nil_iff units_Nil_iff have "rs = []" by metis
    moreover have "saved t []" using eof rs \<open>rs = []\<close> ok(5)
      by (intro saved_Nil) (auto simp: t ahead_def)
    ultimately show ?thesis using t rs assms(1,2,4) eof
      by (intro exI [of _ "[]"]) (auto simp: enc_ok_def enc_pfx_def enc_src_def zin_inv_def split: option.splits)
  next
    case left
    then obtain rs where rs: "cstr (remain s) = units p rs" "list_all (unit_ok p) rs" "R = expand rs"
      "length (cstr (remain s)) < length (remain s)"
      using assms(2,3) by (auto simp: pending_def saved_def ahead_def)
    have t: "t = (take_remain s)\<lparr>remain := (remain s)[0 := 0]\<rparr>" "n = int (xsize t)"
      using assms(6) left by (auto simp: getpkt_def Let_def take_remain_def)
    have l: "length (units p rs) \<le> 6" using length_cstr [of "remain s"] rs(1) ok by simp
    have "take (xsize t) (xdata t) = units p rs"
      using l ok rs(1) by (simp add: t take_remain_def store_eq Let_def del: store.simps)
    moreover have pt: "enc_pfx t = p" "first t = -1" "cstr (remain t) = []"
      using left assms(2) cstr_Nil [OF ok(5)] by (simp_all add: t take_remain_def enc_pfx_def Let_def)
    moreover have "saved t []" using pt ok(5)
      by (intro saved_Nil) (auto simp: ahead_def t)
    moreover have "fault t = fault s" "maxsiz t = maxsiz s" "int (xsize t) \<le> maxlen"
      using rs l assms(4) left ok(4)
      by (auto simp: t take_remain_def Let_def)
    moreover have "enc_ok t" using assms(1,2) pt(1)
      by (auto simp: enc_ok_def t take_remain_def enc_src_def zin_inv_def enc_pfx_def Let_def split: option.splits)
    ultimately show ?thesis using rs t(2) expand_Nil_iff by (intro exI [of _ rs]) auto
  next
    case mid
    then obtain rs c where rs: "cstr (remain s) = units p rs" "list_all (unit_ok p) rs"
      "getpkt_c s = uint c" "R = expand rs @ c # enc_rest s" "length (cstr (remain s)) < length (remain s)"
      using assms(2,3) by (auto simp: pending_def saved_def ahead_def)
    have t: "t = getpkt_loop maxlen ((take_remain s)\<lparr>remain := (remain (take_remain s))[0 := 0], rpt := 0\<rparr>)" "n = int (xsize t)"
      using assms(6) mid by (auto simp: getpkt_def Let_def take_remain_def)
    from getpkt_from_remain [OF assms(1,2) mid rs(3,1,2) assms(4,5) refl t(1) assms(7) rs(5)] t(2) rs(4)
    show ?thesis using sv by auto
  qed
qed

section \<open>Faults\<close>

lemma fault_encode_char: "fault s \<Longrightarrow> fault (encode_char a s)"
  by (simp add: encode_char_def Let_def emit_def emit_NUL_def split: prod.split)

lemma fault_encode: "fault s \<Longrightarrow> fault (encode a nxt s)"
proof (induction a nxt s rule: encode.induct)
  case (1 a nxt s)
  show ?case
    by (subst encode.simps) (use 1 in \<open>auto simp: Let_def emit_def intro!: fault_encode_char\<close>)
qed

lemma fault_getpkt_loop: "fault s \<Longrightarrow> fault (getpkt_loop maxlen s)"
proof (induction maxlen s rule: getpkt_loop.induct)
  case (1 maxlen s)
  obtain nxt s1 where n: "next_char s = (nxt, s1)" by fastforce
  have "fault s1" using next_char_frame [OF n] "1.prems" by simp
  then show ?case
    using "1.IH" [OF _ n [symmetric] refl refl refl] "1.prems" n
    by (subst getpkt_loop.simps) (auto simp: Let_def save_remain_def fault_encode)
qed

lemma fault_getpkt: "fault s \<Longrightarrow> getpkt maxlen s = (n, t) \<Longrightarrow> fault t"
  by (auto simp: getpkt_def Let_def take_remain_def next_char_frame
      split: if_splits prod.splits intro!: fault_getpkt_loop)

section \<open>All the packets of a file\<close>

text \<open>
  The packets of a file: \<open>getpkt\<close> is called, as \<open>sdata\<close> calls it, until it returns nothing; each
  packet is the contents of \<open>xdata\<close> up to the size returned.
\<close>

fun getpkts :: "nat \<Rightarrow> int \<Rightarrow> 'a kenc_scheme \<Rightarrow> byte list list \<times> 'a kenc_scheme" where
  "getpkts 0 maxlen s = ([], s)"
| "getpkts (Suc k) maxlen s =
     (case getpkt maxlen s of (n, t) \<Rightarrow>
        if n < 1 then ([], t)
        else (case getpkts k maxlen t of (ps, u) \<Rightarrow> (take (nat n) (xdata t) # ps, u)))"

lemma fault_getpkts: "fault s \<Longrightarrow> getpkts k maxlen s = (ps, t) \<Longrightarrow> fault t"
  by (induction k maxlen s arbitrary: ps t rule: getpkts.induct)
     (auto dest: fault_getpkt split: prod.splits if_splits)

lemma getpkts_units:
  fixes s :: "'a kenc_scheme"
  assumes "enc_ok s" "p = enc_pfx s" "pending s R" "6 < maxlen" "maxlen \<le> 9000" "length R < k"
    "getpkts k maxlen s = (ps, t)" "\<not> fault t \<or> safe_pfx p"
  shows "\<exists>uss. ps = map (units p) uss \<and> list_all (list_all (unit_ok p)) uss \<and>
     concat (map expand uss) = R \<and> pending t [] \<and> enc_ok t \<and> (safe_pfx p \<longrightarrow> fault t = fault s) \<and>
     (maxsiz s \<le> maxlen \<longrightarrow> list_all (\<lambda>d. int (length d) \<le> maxlen) ps)"
  using assms
proof (induction k maxlen s arbitrary: R ps rule: getpkts.induct)
  case (2 k maxlen s)
  obtain n u where g: "getpkt maxlen s = (n, u)" by fastforce
  have "\<not> fault u \<or> safe_pfx p"
    using "2.prems"(7,8) g fault_getpkts [of u k maxlen] by (auto split: if_splits prod.splits)
  from getpkt_units [OF "2.prems"(1-5) g this] obtain vs R' where
    u: "n = int (xsize u)" "take (xsize u) (xdata u) = units p vs" "list_all (unit_ok p) vs"
      "saved u R'" "R = expand vs @ R'" "enc_ok u" "enc_pfx u = p" "vs = [] \<longleftrightarrow> R = []" "first u \<noteq> 1"
      "safe_pfx p \<longrightarrow> fault u = fault s" "maxsiz s \<le> maxlen \<longrightarrow> n \<le> maxlen" "maxsiz u = maxsiz s" by blast
  have p: "pfx_ok p" using "2.prems"(1,2) by (simp add: enc_ok_def)
  have pd: "pending u R'" using u(4,9) by (simp add: pending_def)
  show ?case
  proof (cases "n < 1")
    case True
    then have "units p vs = []" using u(1,2) by simp
    then have "vs = []" using units_Nil_iff [OF p u(3)] by simp
    with True g u pd "2.prems"(7) show ?thesis by (intro exI [of _ "[]"]) auto
  next
    case False
    from False g "2.prems"(7) obtain ps' where ps: "getpkts k maxlen u = (ps', t)"
      "ps = take (nat n) (xdata u) # ps'" by (auto split: prod.splits)
    have "vs \<noteq> []"
    proof
      assume "vs = []"
      with u(2) have "take (xsize u) (xdata u) = []" by simp
      moreover have "length (xdata u) = 9016" using u(6) by (simp add: enc_ok_def)
      ultimately show False using False u(1) by (auto simp: take_eq_Nil)
    qed
    then have "expand vs \<noteq> []" using expand_Nil_iff [OF u(3)] by simp
    then have "length R' < k" using "2.prems"(6) u(5) by (cases "expand vs") auto
    from "2.IH" [OF g [symmetric] False u(6) u(7) [symmetric] pd "2.prems"(4,5) this ps(1) "2.prems"(8)]
    obtain uss where IH: "ps' = map (units p) uss" "list_all (list_all (unit_ok p)) uss"
      "concat (map expand uss) = R'" "pending t []" "enc_ok t" "safe_pfx p \<longrightarrow> fault t = fault u"
      "maxsiz u \<le> maxlen \<longrightarrow> list_all (\<lambda>d. int (length d) \<le> maxlen) ps'" by blast
    have lv: "length (units p vs) \<le> xsize u" by (simp flip: u(2))
    have "maxsiz s \<le> maxlen \<longrightarrow> list_all (\<lambda>d. int (length d) \<le> maxlen) ps"
      using IH(7) u(1,2,11,12) lv ps(2) by auto
    moreover have "ps = map (units p) (vs # uss)" using ps(2) u(1,2) IH(1) by simp
    moreover have "concat (map expand (vs # uss)) = R" using u(5) IH(3) by simp
    moreover have "list_all (list_all (unit_ok p)) (vs # uss)" using u(3) IH(2) by simp
    ultimately show ?thesis using IH(4-6) u(10) by blast
  qed
qed simp

end
