(* ===== verification/Kermit_Decode.thy ===== *)
theory Kermit_Decode
  imports Kermit_Encode
begin

text \<open>
  The packet decoder of gkermit.c: \<open>decode\<close> and \<open>decstr\<close>, the inverse of the filler of
  \<^theory_text>\<open>Kermit_Encode\<close>.
\<close>

section \<open>Definitions\<close>

text \<open>
  The decoder writes to the memory string at \<open>osp\<close> when that pointer is set (the cells written so
  far) and else to the output file \<open>ofp\<close>. \<open>oroom\<close> is how many more bytes the file accepts before
  \<open>putc\<close> reports an error; \<open>None\<close> is no limit.
\<close>

record kdec = kenc +
  rctlq :: byte
  osp :: "byte list option"
  ofp :: "byte list"
  oroom :: "nat option"
  failure :: bool

definition put_out :: "byte \<Rightarrow> 'a kdec_scheme \<Rightarrow> bool \<times> 'a kdec_scheme" where
  "put_out a s =
     (case osp s of
        Some w \<Rightarrow> (True, s\<lparr>osp := Some (w @ [a])\<rparr>)
      | None \<Rightarrow>
          (case oroom s of
             None \<Rightarrow> (True, s\<lparr>ofp := ofp s @ [a]\<rparr>)
           | Some 0 \<Rightarrow> (False, s\<lparr>failure := True\<rparr>)
           | Some (Suc n) \<Rightarrow> (True, s\<lparr>ofp := ofp s @ [a], oroom := Some n\<rparr>)))"

text \<open>\<open>for (; rpt > 0; rpt--)\<close>: the character, as many times as \<open>rpt\<close> says.\<close>

fun put_run :: "nat \<Rightarrow> byte \<Rightarrow> 'a kdec_scheme \<Rightarrow> bool \<times> 'a kdec_scheme" where
  "put_run 0 a s = (True, s)"
| "put_run (Suc n) a s =
     (case put_out a s of
        (True, s) \<Rightarrow> put_run n a (s\<lparr>rpt := int n\<rparr>)
      | (False, s) \<Rightarrow> (False, s))"

text \<open>The three prefixes, in the order \<open>decode\<close> looks for them; \<open>Inl\<close> is a data field that ends too soon.\<close>

definition rpt_prefix :: "byte \<Rightarrow> byte list \<Rightarrow> 'a kdec_scheme \<Rightarrow> 'a kdec_scheme + byte \<times> byte list \<times> 'a kdec_scheme" where
  "rpt_prefix a d s =
     (if rptflg s \<and> a = rptq s then
        (case d of
           [] \<Rightarrow> Inl s
         | n # d \<Rightarrow>
             (let s = s\<lparr>rpt := xunchar n\<rparr>
              in case d of [] \<Rightarrow> Inl s | a # d \<Rightarrow> Inr (a, d, s)))
      else Inr (a, d, s))"

definition ebq_prefix :: "byte \<Rightarrow> byte list \<Rightarrow> 'a kdec_scheme \<Rightarrow> (byte \<times> byte \<times> byte list) option" where
  "ebq_prefix a d s =
     (if ebqflg s \<and> a = ebq s then (case d of [] \<Rightarrow> None | a # d \<Rightarrow> Some (128, a, d))
      else Some (0, a, d))"

definition ctl_prefix :: "byte \<Rightarrow> byte list \<Rightarrow> 'a kdec_scheme \<Rightarrow> (byte \<times> byte list) option" where
  "ctl_prefix a d s =
     (if a = rctlq s then
        (case d of
           [] \<Rightarrow> None
         | a # d \<Rightarrow> (let a7 = a AND 127 in Some (if 62 < a7 \<and> a7 < 96 then ctl a else a, d)))
      else Some (a, d))"

lemma rpt_prefix_length: "rpt_prefix a d s = Inr (a1, d1, s1) \<Longrightarrow> length d1 \<le> length d"
  by (auto simp: rpt_prefix_def Let_def split: if_splits list.splits)

lemma ebq_prefix_length: "ebq_prefix a d s = Some (b, a1, d1) \<Longrightarrow> length d1 \<le> length d"
  by (auto simp: ebq_prefix_def split: if_splits list.splits)

lemma ctl_prefix_length: "ctl_prefix a d s = Some (a1, d1) \<Longrightarrow> length d1 \<le> length d"
  by (auto simp: ctl_prefix_def Let_def split: if_splits list.splits)

function decode_loop :: "byte list \<Rightarrow> 'a kdec_scheme \<Rightarrow> int \<times> 'a kdec_scheme" where
  "decode_loop [] s = (0, s)"
| "decode_loop (a # d) s =
     (case rpt_prefix a d s of
        Inl s1 \<Rightarrow> (-1, s1)
      | Inr (a1, d1, s1) \<Rightarrow>
          (case ebq_prefix a1 d1 s1 of
             None \<Rightarrow> (-1, s1)
           | Some (b8, a2, d2) \<Rightarrow>
               (case ctl_prefix a2 d2 s1 of
                  None \<Rightarrow> (-1, s1)
                | Some (a3, d3) \<Rightarrow>
                    (let s2 = (if rpt s1 = 0 then s1\<lparr>rpt := 1\<rparr> else s1);
                         c = a3 OR b8
                     in if textmode s2 \<and> c = 13 then decode_loop d3 s2
                        else (case put_run (nat (rpt s2)) c s2 of
                                (False, s3) \<Rightarrow> (-1, s3)
                              | (True, s3) \<Rightarrow> decode_loop d3 s3)))))"
  by pat_completeness auto

termination
  by (relation "measure (\<lambda>(d, s). length d)")
     (auto dest!: sym [of _ "rpt_prefix _ _ _"] sym [of _ "ebq_prefix _ _ _"] sym [of _ "ctl_prefix _ _ _"]
       dest!: rpt_prefix_length ebq_prefix_length ctl_prefix_length)

declare decode_loop.simps(2) [simp del]

definition decode :: "byte list \<Rightarrow> 'a kdec_scheme \<Rightarrow> int \<times> 'a kdec_scheme" where
  "decode d s = decode_loop d (s\<lparr>rpt := 0\<rparr>)"

text \<open>\<open>decstr\<close> decodes to a memory string, which it ends with a NUL: the string is the second component.\<close>

definition decstr :: "byte list \<Rightarrow> 'a kdec_scheme \<Rightarrow> byte list \<times> 'a kdec_scheme" where
  "decstr d s =
     (case decode d (s\<lparr>osp := Some []\<rparr>) of
        (_, s) \<Rightarrow> (case osp s of Some w \<Rightarrow> (w, s\<lparr>osp := None\<rparr>) | None \<Rightarrow> ([], s)))"

section \<open>Sinks\<close>

text \<open>A sink of bytes that does not fail.\<close>

locale byte_sink =
  fixes put :: "byte \<Rightarrow> 's \<Rightarrow> bool \<times> 's"
    and written :: "'s \<Rightarrow> byte list"
    and ready :: "'s \<Rightarrow> bool"
  assumes put_ok: "ready s \<Longrightarrow> put b s = (ok, s') \<Longrightarrow> ok \<and> ready s' \<and> written s' = written s @ [b]"

definition out_written :: "'a kdec_scheme \<Rightarrow> byte list" where
  "out_written s = (case osp s of Some w \<Rightarrow> w | None \<Rightarrow> ofp s)"

definition out_ready :: "'a kdec_scheme \<Rightarrow> bool" where
  "out_ready s \<longleftrightarrow> osp s \<noteq> None \<or> oroom s = None"

interpretation kout: byte_sink put_out out_written out_ready
  by unfold_locales (auto simp: put_out_def out_written_def out_ready_def split: option.splits)

definition dec_pfx :: "'a kdec_scheme \<Rightarrow> pfx" where
  "dec_pfx s = \<lparr>has_rpt = rptflg s, has_ebq = ebqflg s, c_rpt = rptq s, c_ebq = ebq s, c_ctl = rctlq s\<rparr>"

lemma dec_pfx_sel:
  "rptflg s = has_rpt (dec_pfx s)" "ebqflg s = has_ebq (dec_pfx s)" "rptq s = c_rpt (dec_pfx s)"
  "ebq s = c_ebq (dec_pfx s)" "rctlq s = c_ctl (dec_pfx s)"
  by (simp_all add: dec_pfx_def)

lemma put_out_frame:
  "put_out a s = (ok, s') \<Longrightarrow> dec_pfx s' = dec_pfx s \<and> textmode s' = textmode s \<and> rpt s' = rpt s \<and>
     (osp s' = None \<longleftrightarrow> osp s = None)"
  by (auto simp: put_out_def dec_pfx_def split: option.splits nat.splits)

text \<open>The step from \<open>s\<close> to \<open>s'\<close> wrote \<open>bs\<close>, left no repeat count above one and changed none of the settings.\<close>

definition wrote :: "'a kdec_scheme \<Rightarrow> byte list \<Rightarrow> 'a kdec_scheme \<Rightarrow> bool" where
  "wrote s bs s' \<longleftrightarrow> out_ready s' \<and> out_written s' = out_written s @ bs \<and> dec_pfx s' = dec_pfx s \<and>
     textmode s' = textmode s \<and> rpt s' \<in> {0, 1} \<and> (osp s' = None \<longleftrightarrow> osp s = None)"

lemma wrote_refl: "out_ready s \<Longrightarrow> rpt s \<in> {0, 1} \<Longrightarrow> wrote s [] s"
  by (simp add: wrote_def)

lemma wrote_trans: "wrote s bs s1 \<Longrightarrow> wrote s1 cs s2 \<Longrightarrow> wrote s (bs @ cs) s2"
  by (simp add: wrote_def)

lemma wrote_rpt: "wrote (s\<lparr>rpt := n\<rparr>) bs s' \<longleftrightarrow> wrote s bs s'"
  by (simp add: wrote_def out_written_def dec_pfx_def split: option.split)

lemma put_run_out:
  assumes "out_ready s" "rpt s = int n"
  shows "\<exists>s'. put_run n a s = (True, s') \<and> wrote s (replicate n a) s'"
  using assms
proof (induction n arbitrary: s)
  case (Suc n)
  obtain ok s1 where p: "put_out a s = (ok, s1)" by fastforce
  let ?t = "s1\<lparr>rpt := int n\<rparr>"
  have ok: "ok" "out_ready ?t" "out_written ?t = out_written s @ [a]"
    using kout.put_ok [OF Suc.prems(1) p] by (auto simp: out_ready_def out_written_def split: option.splits)
  from Suc.IH [OF ok(2)] obtain s' where "put_run n a ?t = (True, s')" "wrote ?t (replicate n a) s'" by auto
  then show ?case using p ok put_out_frame [OF p] by (auto simp: wrote_def dec_pfx_def)
qed (simp add: wrote_refl)

section \<open>The decoder undoes the encoder\<close>

lemma low_ctl: "y < 32 \<Longrightarrow> 62 < y XOR 64 \<and> y XOR 64 < 96" for y :: byte
  by (rule byte_below [of _ 32 y]) (code_simp, simp add: word_less_nat_alt)

lemma ctl_range:
  "b AND 127 < 32 \<or> b AND 127 = 127 \<Longrightarrow> 62 < (b XOR 64) AND 127 \<and> (b XOR 64) AND 127 < 96" for b :: byte
proof -
  have "(b XOR 64) AND 127 = (b AND 127) XOR 64" by (simp add: bit.conj_xor_distrib2)
  then show "b AND 127 < 32 \<or> b AND 127 = 127 \<Longrightarrow> 62 < (b XOR 64) AND 127 \<and> (b XOR 64) AND 127 < 96"
    using low_ctl [of "b AND 127"] by auto
qed

lemma pfx_char_7: "pfx_char c \<Longrightarrow> c AND 127 = c"
  by (rule byte_low7) (auto simp: pfx_char_def word_less_nat_alt)

lemma pfx_char_range: "pfx_char c \<Longrightarrow> \<not> (62 < c \<and> c < 96)"
  by (auto simp: pfx_char_def word_less_nat_alt)

lemma quote_head:
  assumes "pfx_ok p" "quote p b @ d = a # d1" "has_rpt p"
  shows "a \<noteq> c_rpt p"
  using assms pfx_char_7 [of "c_rpt p"]
  by (auto simp: pfx_ok_def quote_def Let_def split: if_splits)

lemma ctl_body:
  assumes "pfx_ok p" "dec_pfx s = p" "x AND 127 = b AND 127"
    "x AND 127 = x \<or> x = b"
    "q = (if b AND 127 < 32 \<or> b AND 127 = 127 then [c_ctl p, x XOR 64]
          else if b AND 127 = c_ctl p \<or> has_ebq p \<and> b AND 127 = c_ebq p \<or> has_rpt p \<and> b AND 127 = c_rpt p
          then [c_ctl p, x] else [x])"
    "q @ d = a # d1"
  shows "ctl_prefix a d1 s = Some (x, d)"
proof -
  have r: "rctlq s = c_ctl p" using assms(2) by (auto simp: dec_pfx_def)
  have c: "b AND 127 < 32 \<or> b AND 127 = 127 \<Longrightarrow> 62 < (x XOR 64) AND 127 \<and> (x XOR 64) AND 127 < 96"
    using ctl_range [of x] assms(3) by simp
  have k: "\<not> (62 < b AND 127 \<and> b AND 127 < 96)"
    if "b AND 127 = c_ctl p \<or> has_ebq p \<and> b AND 127 = c_ebq p \<or> has_rpt p \<and> b AND 127 = c_rpt p"
    using that assms(1) pfx_char_range by (auto simp: pfx_ok_def)
  have n: "x \<noteq> c_ctl p" if "b AND 127 \<noteq> c_ctl p"
    using that assms(1,3) pfx_char_7 [of "c_ctl p"] by (auto simp: pfx_ok_def)
  show ?thesis
    using assms(5,6) c k n r by (auto simp: ctl_prefix_def Let_def ctl_def xor.assoc assms(3) split: if_splits)
qed

lemma unquote:
  assumes "pfx_ok p" "dec_pfx s = p" "quote p b @ d = a # d1"
  obtains b8 a2 d2 x where "ebq_prefix a d1 s = Some (b8, a2, d2)" "ctl_prefix a2 d2 s = Some (x, d)" "x OR b8 = b"
proof (cases "has_ebq p \<and> b AND 128 \<noteq> 0")
  case True
  then obtain q where q: "quote p b = c_ebq p # q"
    "q = (if b AND 127 < 32 \<or> b AND 127 = 127 then [c_ctl p, (b AND 127) XOR 64]
          else if b AND 127 = c_ctl p \<or> has_ebq p \<and> b AND 127 = c_ebq p \<or> has_rpt p \<and> b AND 127 = c_rpt p
          then [c_ctl p, b AND 127] else [b AND 127])"
    by (simp add: quote_def Let_def)
  then obtain a2 d2 where d: "q @ d = a2 # d2" by (cases "q @ d") (auto split: if_splits)
  have "ctl_prefix a2 d2 s = Some (b AND 127, d)"
    by (rule ctl_body [OF assms(1,2) _ _ q(2) d]) (simp_all add: and.assoc)
  moreover have "ebq_prefix a d1 s = Some (128, a2, d2)"
    using assms(2,3) q(1) True by (auto simp: ebq_prefix_def dec_pfx_def d)
  ultimately show ?thesis using that eighth_bit(1) True by blast
next
  case False
  then have q: "quote p b = (if b AND 127 < 32 \<or> b AND 127 = 127 then [c_ctl p, b XOR 64]
          else if b AND 127 = c_ctl p \<or> has_ebq p \<and> b AND 127 = c_ebq p \<or> has_rpt p \<and> b AND 127 = c_rpt p
          then [c_ctl p, b] else [b])"
    by (auto simp: quote_def Let_def)
  have c: "ctl_prefix a d1 s = Some (b, d)"
    by (rule ctl_body [OF assms(1,2) _ _ q assms(3)]) simp_all
  have "has_ebq p \<Longrightarrow> a \<noteq> c_ebq p"
    using assms(1,3) q False eighth_bit(2) [of b] by (auto simp: pfx_ok_def split: if_splits)
  then have "ebq_prefix a d1 s = Some (0, a, d1)"
    using assms(2) by (auto simp: ebq_prefix_def dec_pfx_def)
  with c that show ?thesis by simp
qed

text \<open>
  What the receiver keeps of decoded characters: text mode drops carriage returns. A dropped
  character leaves its repeat count to the next one, which is harmless when the count is one.
\<close>

definition kept :: "bool \<Rightarrow> byte list \<Rightarrow> byte list" where
  "kept tm bs = (if tm then filter (\<lambda>b. b \<noteq> 13) bs else bs)"

lemma kept_append [simp]: "kept tm (xs @ ys) = kept tm xs @ kept tm ys"
  by (simp add: kept_def)

definition single_CR :: "bool \<Rightarrow> nat \<times> byte \<Rightarrow> bool" where
  "single_CR tm u \<longleftrightarrow> (tm \<longrightarrow> snd u = 13 \<longrightarrow> fst u = 1)"

lemma decode_unit:
  assumes "pfx_ok p" "dec_pfx s = p" "unit_ok p (n, b)" "out_ready s" "rpt s \<in> {0, 1}"
    "single_CR (textmode s) (n, b)"
  shows "\<exists>s'. decode_loop (unit p (n, b) @ d) s = decode_loop d s' \<and>
    wrote s (kept (textmode s) (replicate n b)) s'"
proof -
  obtain a d1 where q: "quote p b @ d = a # d1"
    using quote_shape(1) [OF assms(1), of b] by (cases "quote p b") auto
  define t where "t = s\<lparr>rpt := int n\<rparr>"
  define u where "u = (if n = 1 then s else t)"
  have u: "dec_pfx u = p" "textmode u = textmode s" using assms(2) by (simp_all add: u_def t_def dec_pfx_def)
  have n: "1 \<le> n" "n \<le> 94" using assms(3) by (auto simp: unit_ok_def)
  have keep: "s\<lparr>rpt := 1\<rparr> = s" if "rpt s = 1" using that by (cases s) simp
  have t: "(if rpt u = 0 then u\<lparr>rpt := 1\<rparr> else u) = t" "rpt t = int n" "textmode t = textmode s" "out_ready t"
  proof -
    show "(if rpt u = 0 then u\<lparr>rpt := 1\<rparr> else u) = t"
      using assms(5) n keep by (cases "n = 1"; cases "rpt s = 0") (simp_all add: u_def t_def)
  qed (use assms(4) in \<open>simp_all add: t_def out_ready_def\<close>)
  obtain x xs where xs: "unit p (n, b) @ d = x # xs" "rpt_prefix x xs s = Inr (a, d1, u)"
  proof (cases "n = 1")
    case True
    have "rpt_prefix a d1 s = Inr (a, d1, s)"
      using quote_head [OF assms(1) q] assms(2) by (auto simp: rpt_prefix_def dec_pfx_def)
    then show ?thesis using that q True by (simp add: unit_def u_def)
  next
    case False
    have "rptflg s" "rptq s = c_rpt p" using assms(2,3) False by (auto simp: unit_ok_def dec_pfx_def)
    then have "rpt_prefix (c_rpt p) (tochar (int n) # a # d1) s = Inr (a, d1, u)"
      using n False by (simp add: rpt_prefix_def u_def t_def Let_def xunchar_tochar)
    then show ?thesis using that q False by (simp add: unit_def run_unit_def)
  qed
  from unquote [OF assms(1) u(1) q] obtain b8 a2 d2 y where
    e: "ebq_prefix a d1 u = Some (b8, a2, d2)" "ctl_prefix a2 d2 u = Some (y, d)" "y OR b8 = b" .
  have step: "decode_loop (unit p (n, b) @ d) s =
    (if textmode t \<and> b = 13 then decode_loop d t
     else case put_run (nat (rpt t)) b t of (False, s3) \<Rightarrow> (-1, s3) | (True, s3) \<Rightarrow> decode_loop d s3)"
    unfolding xs(1) decode_loop.simps(2) xs(2) sum.case prod.case e(1,2) option.case Let_def t(1) e(3) ..
  show ?thesis
  proof (cases "textmode s \<and> b = 13")
    case True
    then have "n = 1" using assms(6) by (simp add: single_CR_def)
    then have "wrote t [] t" using t by (intro wrote_refl) simp_all
    then have "wrote s [] t" by (simp only: t_def wrote_rpt)
    moreover have "kept (textmode s) (replicate n b) = []" using True by (simp add: kept_def)
    ultimately show ?thesis using True step t(3) by auto
  next
    case False
    from put_run_out [OF t(4,2), of b] obtain s' where
      s': "put_run n b t = (True, s')" "wrote t (replicate n b) s'" by blast
    have "decode_loop (unit p (n, b) @ d) s = decode_loop d s'"
      unfolding step using s'(1) t(2,3) False by auto
    moreover have "kept (textmode s) (replicate n b) = replicate n b" using False by (auto simp: kept_def)
    moreover have "wrote s (replicate n b) s'" using s'(2) by (simp only: t_def wrote_rpt)
    ultimately show ?thesis by auto
  qed
qed

lemma decode_units:
  assumes "pfx_ok p" "dec_pfx s = p" "list_all (unit_ok p) us" "out_ready s" "rpt s \<in> {0, 1}"
    "list_all (single_CR (textmode s)) us"
  shows "\<exists>s'. decode_loop (units p us @ d) s = decode_loop d s' \<and> wrote s (kept (textmode s) (expand us)) s'"
  using assms
proof (induction us arbitrary: s)
  case Nil
  then show ?case using wrote_refl [of s] by (auto simp: kept_def)
next
  case (Cons u us)
  obtain n b where u: "u = (n, b)" by fastforce
  have ok: "unit_ok p (n, b)" "single_CR (textmode s) (n, b)" using Cons.prems(3,6) by (auto simp: u)
  from decode_unit [OF Cons.prems(1,2) ok(1) Cons.prems(4,5) ok(2), of "units p us @ d"] obtain s1 where
    s1: "decode_loop (unit p (n, b) @ units p us @ d) s = decode_loop (units p us @ d) s1"
      "wrote s (kept (textmode s) (replicate n b)) s1" by blast
  have t: "list_all (unit_ok p) us" "list_all (single_CR (textmode s1)) us"
    "dec_pfx s1 = p" "out_ready s1" "rpt s1 \<in> {0, 1}" "textmode s1 = textmode s"
    using Cons.prems(2,3,6) s1(2) by (auto simp: wrote_def)
  from Cons.IH [OF Cons.prems(1) t(3,1,4,5,2)] obtain s' where
    s': "decode_loop (units p us @ d) s1 = decode_loop d s'" "wrote s1 (kept (textmode s) (expand us)) s'"
    unfolding t(6) by blast
  have "decode_loop (units p (u # us) @ d) s = decode_loop d s'" using s1(1) s'(1) by (simp add: u)
  moreover have "wrote s (kept (textmode s) (expand (u # us))) s'" using wrote_trans [OF s1(2) s'(2)] by (simp add: u)
  ultimately show ?case by blast
qed

text \<open>The receiver decodes the packets of a file one after the other.\<close>

fun decodes :: "byte list list \<Rightarrow> 'a kdec_scheme \<Rightarrow> int \<times> 'a kdec_scheme" where
  "decodes [] r = (0, r)"
| "decodes (d # ds) r = (case decode d r of (x, r) \<Rightarrow> if x < 0 then (x, r) else decodes ds r)"

lemma decode_packet:
  assumes "pfx_ok p" "dec_pfx r = p" "list_all (unit_ok p) us" "out_ready r" "list_all (single_CR (textmode r)) us"
  shows "\<exists>r'. decode (units p us) r = (0, r') \<and> wrote r (kept (textmode r) (expand us)) r'"
proof -
  let ?s = "r\<lparr>rpt := 0\<rparr>"
  have "dec_pfx ?s = p" "out_ready ?s" "rpt ?s \<in> {0, 1}" "list_all (single_CR (textmode ?s)) us"
    using assms by (simp_all add: dec_pfx_def out_ready_def)
  from decode_units [OF assms(1) this(1) assms(3) this(2-4), of "[]"] show ?thesis
    by (auto simp: decode_def wrote_rpt)
qed

lemma decodes_units:
  assumes "pfx_ok p" "dec_pfx r = p" "list_all (list_all (unit_ok p)) uss" "out_ready r"
    "list_all (list_all (single_CR (textmode r))) uss" "rpt r \<in> {0, 1}"
  shows "\<exists>r'. decodes (map (units p) uss) r = (0, r') \<and>
    wrote r (kept (textmode r) (concat (map expand uss))) r'"
  using assms
proof (induction uss arbitrary: r)
  case Nil
  then show ?case using wrote_refl [of r] by (auto simp: kept_def)
next
  case (Cons us uss)
  then have us: "list_all (unit_ok p) us" "list_all (single_CR (textmode r)) us" by simp_all
  from decode_packet [OF Cons.prems(1,2) us(1) Cons.prems(4) us(2)] obtain r1 where
    r1: "decode (units p us) r = (0, r1)" "wrote r (kept (textmode r) (expand us)) r1" by blast
  have t: "dec_pfx r1 = p" "list_all (list_all (unit_ok p)) uss" "out_ready r1"
    "list_all (list_all (single_CR (textmode r1))) uss" "rpt r1 \<in> {0, 1}" "textmode r1 = textmode r"
    using Cons.prems r1(2) by (auto simp: wrote_def)
  from Cons.IH [OF Cons.prems(1) t(1-5)] obtain r' where
    r': "decodes (map (units p) uss) r1 = (0, r')" "wrote r1 (kept (textmode r) (concat (map expand uss))) r'"
    unfolding t(6) by blast
  have "decodes (map (units p) (us # uss)) r = (0, r')" using r1(1) r'(1) by simp
  moreover have "wrote r (kept (textmode r) (concat (map expand (us # uss)))) r'"
    using wrote_trans [OF r1(2) r'(2)] by simp
  ultimately show ?case by blast
qed

section \<open>Files survive the transfer\<close>

definition CR_apart :: "byte list \<Rightarrow> bool" where
  "CR_apart = successively (\<lambda>a b. \<not> (a = 13 \<and> b = 13))"

lemma CR_apart_crlf: "13 \<notin> set f \<Longrightarrow> CR_apart (crlf f)"
proof (induction f)
  case (Cons b f)
  then show ?case
    by (cases "crlf f") (auto simp: CR_apart_def successively_Cons)
qed (simp add: CR_apart_def)

lemma CR_apart_factor: "CR_apart (xs @ ys @ zs) \<Longrightarrow> CR_apart ys"
  by (simp add: CR_apart_def successively_append_iff)

lemma CR_apart_replicate: "CR_apart (replicate n 13) \<Longrightarrow> n \<le> 1"
  by (cases n; cases "n - 1") (auto simp: CR_apart_def)

lemma single_CR_units:
  assumes "CR_apart (concat (map expand uss))" "list_all (list_all (unit_ok p)) uss"
  shows "list_all (list_all (single_CR tm)) uss"
proof -
  have "single_CR tm u" if u: "us \<in> set uss" "u \<in> set us" for u us
  proof -
    obtain n b where nb: "u = (n, b)" by fastforce
    obtain xs ys where "uss = xs @ us # ys" using split_list [OF u(1)] by blast
    moreover obtain vs ws where "us = vs @ u # ws" using split_list [OF u(2)] by blast
    ultimately have "concat (map expand uss) =
      (concat (map expand xs) @ expand vs) @ replicate n b @ (expand ws @ concat (map expand ys))"
      by (simp add: nb)
    with assms(1) have "CR_apart (replicate n b)" using CR_apart_factor by metis
    then have "b = 13 \<Longrightarrow> n \<le> 1" using CR_apart_replicate by blast
    moreover have "unit_ok p u" using assms(2) u by (auto simp: list_all_iff)
    ultimately show ?thesis by (auto simp: single_CR_def unit_ok_def nb)
  qed
  then show ?thesis by (auto simp: list_all_iff)
qed

lemma kept_crlf: "13 \<notin> set f \<Longrightarrow> kept True (crlf f) = f"
  by (induction f) (auto simp: kept_def)

text \<open>
  C1. A file survives the transfer: when sender and receiver agree on the prefixes
  (control, and where in use eighth-bit and repeat-count, all distinct) and on the file type, the
  data fields that \<open>getpkt\<close> cuts a newly opened file into are never longer than \<open>maxsiz\<close>, and
  \<open>decode\<close> of one field after the other succeeds and writes exactly the file: any bytes in binary
  mode, and in text mode any file without carriage returns (linefeeds travel as CRLF and come back as
  linefeeds). It holds for any file length, any mix of prefixes and any packet size from 7 to 9000,
  with runs that straddle packets, provided the buffer for the overhang of a packet did not overflow.
\<close>

theorem file_transfer:
  fixes s :: "'a kenc_scheme" and r :: "'b kdec_scheme"
  assumes "enc_ok s" "isp s = None" "first s = 1" "zincnt s = 0" "ifp s = f"
    and "dec_pfx r = enc_pfx s" "textmode r = textmode s" "osp r = None" "oroom r = None" "ofp r = []"
    and "textmode s \<longrightarrow> 13 \<notin> set f" "6 < maxsiz s" "maxsiz s \<le> 9000"
    and "getpkts (Suc (2 * length f)) (maxsiz s) s = (ps, t)" "\<not> fault t \<or> safe_pfx (enc_pfx s)" "rpt r = 0"
  shows "list_all (\<lambda>d. int (length d) \<le> maxsiz s) ps \<and> (\<exists>r'. decodes ps r = (0, r') \<and> ofp r' = f)"
proof -
  define p where "p = enc_pfx s"
  define R where "R = (if textmode s then crlf f else f)"
  have "pending s R"
    using assms(2-5) by (auto simp: pending_def enc_rest_def zin_rest_def R_def)
  moreover have "length (crlf f) \<le> 2 * length f" by (induction f) auto
  then have "length R < Suc (2 * length f)" by (simp add: R_def)
  ultimately obtain uss where uss: "ps = map (units p) uss" "list_all (list_all (unit_ok p)) uss"
    "concat (map expand uss) = R" "list_all (\<lambda>d. int (length d) \<le> maxsiz s) ps"
    using getpkts_units [OF assms(1) p_def _ assms(12,13) _ assms(14)] assms(15) by (auto simp: p_def)
  have pr: "pfx_ok p" "dec_pfx r = p" "out_ready r" "rpt r \<in> {0, 1}" "textmode r = textmode s"
    using assms(1,6-9,16) by (simp_all add: p_def enc_ok_def out_ready_def dec_pfx_def)
  have "list_all (list_all (single_CR (textmode s))) uss"
  proof (cases "textmode s")
    case True
    then have "CR_apart (concat (map expand uss))" using assms(11) uss(3) CR_apart_crlf by (simp add: R_def)
    then show ?thesis using single_CR_units uss(2) by blast
  qed (simp add: single_CR_def list_all_iff)
  then have "list_all (list_all (single_CR (textmode r))) uss" using pr(5) by simp
  from decodes_units [OF pr(1,2) uss(2) pr(3) this pr(4)] obtain r' where
    r': "decodes ps r = (0, r')" "wrote r (kept (textmode s) R) r'"
    unfolding uss(1,3) pr(5) by blast
  have "kept (textmode s) R = f"
    using assms(11) kept_crlf by (cases "textmode s") (simp_all add: R_def kept_def)
  then have "ofp r' = f" using r'(2) assms(8,10) by (auto simp: wrote_def out_written_def)
  with r'(1) uss(4) show ?thesis by blast
qed

definition sender0 :: "bool \<Rightarrow> bool \<Rightarrow> byte list \<Rightarrow> int \<Rightarrow> kenc" where
  "sender0 rf ef f n = zin.extend (zopened f)
     \<lparr>textmode = False, isp = None, rptflg = rf, ebqflg = ef, rptq = 126, ebq = 38, sctlq = 35, rpt = 0,
      xdata = replicate 9016 0, xsize = 0, osize = 0, maxsiz = n, first = 1, getpkt_c = 0,
      remain = replicate 6 0, fault = False\<rparr>"

definition receiver0 :: "bool \<Rightarrow> bool \<Rightarrow> kdec" where
  "receiver0 rf ef = kenc.extend (sender0 rf ef [] 80)
     \<lparr>rctlq = 35, osp = None, ofp = [], oroom = None, failure = False\<rparr>"

lemma sender0_ok: "enc_ok (sender0 rf ef f n)"
proof -
  have "pfx_char 126" "pfx_char 38" "pfx_char 35" by code_simp+
  then show ?thesis
    by (simp add: enc_ok_def sender0_def zopened_def zin.defs enc_pfx_def pfx_ok_def enc_src_def zin_inv_def)
qed

theorem file_transfer_witness:
  "\<exists>ps t r'. getpkts 9 20 (sender0 True False [65, 65, 65, 255] 20) = (ps, t) \<and>
     list_all (\<lambda>d. int (length d) \<le> 20) ps \<and> decodes ps (receiver0 True False) = (0, r') \<and> ofp r' = [65, 65, 65, 255]"
proof -
  let ?s = "sender0 True False [65, 65, 65, 255] 20" and ?r = "receiver0 True False"
  obtain ps t where g: "getpkts 9 20 ?s = (ps, t)" by fastforce
  have s: "isp ?s = None" "first ?s = 1" "zincnt ?s = 0" "ifp ?s = [65, 65, 65, 255]" "\<not> textmode ?s"
    "maxsiz ?s = 20" "safe_pfx (enc_pfx ?s)" "dec_pfx ?r = enc_pfx ?s" "textmode ?r = textmode ?s"
    "osp ?r = None" "oroom ?r = None" "ofp ?r = []" "rpt ?r = 0"
    by (simp_all add: sender0_def receiver0_def zopened_def zin.defs kenc.defs safe_pfx_def enc_pfx_def dec_pfx_def)
  show ?thesis
    using file_transfer [of ?s "[65, 65, 65, 255]" ?r ps t] sender0_ok s g by auto
qed

text \<open>
  C31. The static buffer \<open>remain\<close> and the data field never overflow while a file is
  cut into packets, as long as repeat counts and eighth-bit prefixes are not both in use.
\<close>

theorem overhang_fits:
  fixes s :: "'a kenc_scheme"
  assumes "enc_ok s" "isp s = None" "first s = 1" "zincnt s = 0" "6 < maxsiz s" "maxsiz s \<le> 9000"
    "safe_pfx (enc_pfx s)" "\<not> fault s" "getpkts k (maxsiz s) s = (ps, t)" "2 * length (ifp s) < k"
  shows "\<not> fault t"
proof -
  have l: "length (crlf f) \<le> 2 * length f" for f by (induction f) auto
  have "pending s (enc_rest s)" "length (enc_rest s) < k"
    using assms(2-4,10) l [of "ifp s"] by (auto simp: pending_def enc_rest_def zin_rest_def)
  from getpkts_units [OF assms(1) refl this(1) assms(5,6) this(2) assms(9)] assms(7,8)
  show ?thesis by blast
qed

theorem overhang_fits_witness:
  "\<exists>ps t. getpkts 3 7 (sender0 True False [129] 7) = (ps, t) \<and> \<not> fault t"
proof -
  let ?s = "sender0 True False [129] 7"
  obtain ps t where g: "getpkts 3 7 ?s = (ps, t)" by fastforce
  have s: "isp ?s = None" "first ?s = 1" "zincnt ?s = 0" "ifp ?s = [129]" "\<not> fault ?s"
    "maxsiz ?s = 7" "safe_pfx (enc_pfx ?s)"
    by (simp_all add: sender0_def zopened_def zin.defs safe_pfx_def enc_pfx_def)
  show ?thesis using overhang_fits [of ?s 3 ps t] sender0_ok s g by auto
qed

text \<open>
  The state of \<open>getpkt\<close> in the middle of a packet: the character \<open>a\<close> is read ahead, \<open>R\<close> is what is left
  of the source after it, no run is being counted and \<open>k\<close> characters are in the data field.
\<close>

definition filling :: "pfx \<Rightarrow> int \<Rightarrow> byte \<Rightarrow> byte list \<Rightarrow> nat \<Rightarrow> 'a kenc_scheme \<Rightarrow> bool" where
  "filling p n a R k s \<longleftrightarrow> enc_src s \<and> first s = 0 \<and> getpkt_c s = uint a \<and> enc_rest s = R \<and> rpt s = 0 \<and>
     enc_pfx s = p \<and> has_rpt p \<and> maxsiz s = n \<and> length (xdata s) = 9016 \<and> length (remain s) = 6 \<and> xsize s = k"

text \<open>One round of the loop, with what it leaves of the state.\<close>

lemma getpkt_loop_round:
  assumes "first s = 0" "enc_src s"
  obtains nxt x s4 where
    "getpkt_loop maxlen s = (if int (xsize s4) = maxlen then s4
       else if int (xsize s4) > maxlen then
         (let s5 = (save_remain s4)\<lparr>xsize := osize s4\<rparr> in s5\<lparr>xdata := (xdata s5)[xsize s5 := 0]\<rparr>)
       else getpkt_loop maxlen s4)"
    "s4 = (encode (getpkt_c s) nxt x)\<lparr>getpkt_c := nxt\<rparr>" "enc_src s4"
    "first s4 = -1 \<and> nxt = -1 \<and> enc_rest s = [] \<or>
     first s4 = 0 \<and> (\<exists>d. nxt = uint d \<and> getpkt_c s4 = uint d \<and> enc_rest s = d # enc_rest s4)"
    "enc_pfx x = enc_pfx s" "rpt x = rpt s" "xdata x = xdata s" "xsize x = xsize s" "remain x = remain s"
    "osize x = xsize s" "maxsiz x = maxsiz s"
proof -
  obtain nxt s1 where n: "next_char s = (nxt, s1)" by fastforce
  define s2 where "s2 = (if nxt < 0 then s1\<lparr>first := -1\<rparr> else s1)"
  define x where "x = s2\<lparr>osize := xsize s2\<rparr>"
  define s4 where "s4 = (encode (getpkt_c s2) nxt x)\<lparr>getpkt_c := nxt\<rparr>"
  note f = next_char_frame [OF n]
  have x: "enc_pfx x = enc_pfx s" "rpt x = rpt s" "xdata x = xdata s" "xsize x = xsize s" "remain x = remain s"
    "osize x = xsize s" "maxsiz x = maxsiz s" "getpkt_c s2 = getpkt_c s"
    using f by (auto simp: x_def s2_def enc_pfx_def)
  note ah = round_ahead [OF assms(2,1) n s2_def s4_def [unfolded x_def]]
  have loop: "getpkt_loop maxlen s = (if int (xsize s4) = maxlen then s4
       else if int (xsize s4) > maxlen then
         (let s5 = (save_remain s4)\<lparr>xsize := osize s4\<rparr> in s5\<lparr>xdata := (xdata s5)[xsize s5 := 0]\<rparr>)
       else getpkt_loop maxlen s4)"
    unfolding s4_def x_def s2_def Let_def
    by (subst getpkt_loop.simps) (simp only: assms(1) n prod.case Let_def, simp)
  show thesis using that [OF loop s4_def [unfolded x(8)] ah(2,3) x(1-7)] .
qed

lemma filling_plain:
  assumes "filling p n a (d # R) k s" "a \<noteq> d" "length (quote p a) = 1" "int k + 1 < n"
  obtains s' where "getpkt_loop n s = getpkt_loop n s'" "filling p n d R (Suc k) s'"
proof -
  have s: "first s = 0" "enc_src s" "getpkt_c s = uint a" "enc_rest s = d # R" "rpt s = 0" "enc_pfx s = p" "rptflg s"
    using assms(1) by (auto simp: filling_def)
  obtain nxt x s4 where l: "getpkt_loop n s = (if int (xsize s4) = n then s4
       else if int (xsize s4) > n then
         (let s5 = (save_remain s4)\<lparr>xsize := osize s4\<rparr> in s5\<lparr>xdata := (xdata s5)[xsize s5 := 0]\<rparr>)
       else getpkt_loop n s4)"
    and s4: "s4 = (encode (getpkt_c s) nxt x)\<lparr>getpkt_c := nxt\<rparr>" "enc_src s4"
    and n: "first s4 = -1 \<and> nxt = -1 \<and> enc_rest s = [] \<or>
     first s4 = 0 \<and> (\<exists>d. nxt = uint d \<and> getpkt_c s4 = uint d \<and> enc_rest s = d # enc_rest s4)"
    and x: "enc_pfx x = enc_pfx s" "rpt x = rpt s" "xdata x = xdata s" "xsize x = xsize s" "remain x = remain s"
    "osize x = xsize s" "maxsiz x = maxsiz s"
    by (rule getpkt_loop_round [OF s(1,2)])
  have nx: "nxt = uint d" "first s4 = 0" "enc_rest s4 = R" "getpkt_c s4 = uint d" using n s(4) by auto
  have "rptflg x" using x(1) s(7) by (metis enc_pfx_sel(1))
  then have e: "encode (uint a) nxt x = puts (quote p a) x"
    using encode_single [of x nxt a] x s nx(1) assms(2) by simp
  have eq: "s4 = (puts (quote p a) x)\<lparr>getpkt_c := nxt\<rparr>" by (simp add: s4(1) s(3) e)
  have "enc_pfx s4 = enc_pfx x" by (simp add: eq puts_def enc_pfx_def)
  moreover have "rpt s4 = rpt x" "maxsiz s4 = maxsiz x" "remain s4 = remain x" "xsize s4 = Suc (xsize x)"
    "length (xdata s4) = length (xdata x)"
    using assms(3) by (simp_all add: eq puts_def)
  ultimately have "filling p n d R (Suc k) s4"
    using assms(1) nx s4(2) x unfolding filling_def by simp
  moreover from this have "xsize s4 = Suc k" by (simp add: filling_def)
  ultimately show thesis using that l assms(4) by simp
qed

lemma filling_prefix:
  assumes "filling p n (hd (as @ [b])) (tl (as @ [b]) @ R) k s" "\<forall>a \<in> set as. length (quote p a) = 1"
    "distinct_adj (as @ [b])" "int k + int (length as) < n"
  obtains s' where "getpkt_loop n s = getpkt_loop n s'" "filling p n b R (k + length as) s'"
  using assms
proof (induction as arbitrary: k s thesis)
  case (Cons a as)
  let ?d = "hd (as @ [b])"
  have "filling p n a (?d # tl (as @ [b]) @ R) k s" using Cons.prems(2) by (cases as) auto
  moreover have "a \<noteq> ?d" using Cons.prems(4) by (cases as) auto
  ultimately obtain s1 where s1: "getpkt_loop n s = getpkt_loop n s1" "filling p n ?d (tl (as @ [b]) @ R) (Suc k) s1"
    using Cons.prems(3,5) by (elim filling_plain) auto
  have "distinct_adj (as @ [b])" using Cons.prems(4) by (cases as) auto
  then show ?case using Cons.IH [where k = "Suc k" and s = s1] s1 Cons.prems(1,3,5) by auto
qed simp

lemma filling_overflow:
  assumes "filling p n b (b # R) k s" "R = [] \<or> hd R \<noteq> b" "length (quote p b) = 3" "0 \<notin> set (quote p b)"
    "int k < n" "n < int k + 3" "n \<le> 9000"
  shows "fault (getpkt_loop n s)"
proof -
  have s: "first s = 0" "enc_src s" "getpkt_c s = uint b" "enc_rest s = b # R" "rpt s = 0" "enc_pfx s = p" "rptflg s" "xsize s = k"
    using assms(1) by (auto simp: filling_def)
  obtain nxt x s4 where l: "getpkt_loop n s = (if int (xsize s4) = n then s4
       else if int (xsize s4) > n then
         (let s5 = (save_remain s4)\<lparr>xsize := osize s4\<rparr> in s5\<lparr>xdata := (xdata s5)[xsize s5 := 0]\<rparr>)
       else getpkt_loop n s4)"
    and s4: "s4 = (encode (getpkt_c s) nxt x)\<lparr>getpkt_c := nxt\<rparr>" "enc_src s4"
    and n: "first s4 = -1 \<and> nxt = -1 \<and> enc_rest s = [] \<or>
     first s4 = 0 \<and> (\<exists>d. nxt = uint d \<and> getpkt_c s4 = uint d \<and> enc_rest s = d # enc_rest s4)"
    and x: "enc_pfx x = enc_pfx s" "rpt x = rpt s" "xdata x = xdata s" "xsize x = xsize s" "remain x = remain s"
    "osize x = xsize s" "maxsiz x = maxsiz s"
    by (rule getpkt_loop_round [OF s(1,2)])
  have nx: "nxt = uint b" "first s4 = 0" "enc_rest s4 = R" "getpkt_c s4 = uint b" using n s(4) by auto
  have "rptflg x" using x(1) s(7) by (metis enc_pfx_sel(1))
  then have e: "encode (uint b) nxt x = x\<lparr>rpt := 1\<rparr>"
    using encode_run [of x b] x s nx(1) by simp
  have s4': "rpt s4 = 1" "enc_pfx s4 = p" "xdata s4 = xdata s" "xsize s4 = k" "remain s4 = remain s" "maxsiz s4 = maxsiz s"
    using x s by (simp_all add: s4(1) s(3) e enc_pfx_def)
  have l1: "getpkt_loop n s = getpkt_loop n s4" using l assms(5) s4' by simp
  obtain nxt2 x2 t where l2: "getpkt_loop n s4 = (if int (xsize t) = n then t
       else if int (xsize t) > n then
         (let s5 = (save_remain t)\<lparr>xsize := osize t\<rparr> in s5\<lparr>xdata := (xdata s5)[xsize s5 := 0]\<rparr>)
       else getpkt_loop n t)"
    and t: "t = (encode (getpkt_c s4) nxt2 x2)\<lparr>getpkt_c := nxt2\<rparr>"
    and n2: "first t = -1 \<and> nxt2 = -1 \<and> enc_rest s4 = [] \<or>
     first t = 0 \<and> (\<exists>d. nxt2 = uint d \<and> getpkt_c t = uint d \<and> enc_rest s4 = d # enc_rest t)"
    and x2: "enc_pfx x2 = enc_pfx s4" "rpt x2 = rpt s4" "xdata x2 = xdata s4" "xsize x2 = xsize s4" "remain x2 = remain s4"
    "osize x2 = xsize s4" "maxsiz x2 = maxsiz s4"
    by (rule getpkt_loop_round [OF nx(2) s4(2)])
  define q where "q = quote p b"
  have nb: "nxt2 \<noteq> uint b" using n2 nx(3) assms(2) by auto
  have "rptflg x2" using x2(1) s4'(2) s(6,7) by (metis enc_pfx_sel(1))
  moreover define w where "w = puts q (x2\<lparr>rpt := 0\<rparr>)"
  moreover have "int (xsize w) > maxsiz w"
    using x2 s4' assms(1,3,6) by (simp add: w_def puts_def q_def filling_def)
  ultimately have "encode (uint b) nxt2 x2 = puts q w"
    using encode_double [of x2 nxt2 b] nb x2 s4' by (simp add: q_def Let_def)
  moreover have lq: "length q = 3" "q \<noteq> []" using assms(3) by (auto simp: q_def)
  then have "store (store (xdata s) k (q @ [0])) (k + length q) (q @ [0]) = store (xdata s) k (q @ q @ [0])"
    by (simp add: store_append store_overwrite)
  ultimately have t': "xsize t = k + 6" "osize t = k" "remain t = remain s" "xdata t = store (xdata s) k (q @ q @ [0])"
    using x2 s4' nx(4) lq by (simp_all add: t w_def puts_def del: store.simps)
  have m: "k + 7 \<le> length (xdata s)" "length (remain s) = 6" using assms(1,5,7) by (auto simp: filling_def)
  then have "drop k (xdata t) = (q @ q) @ 0 # drop (k + 7) (xdata s)"
    using assms(3) unfolding t'(4) by (simp add: store_eq q_def del: store.simps)
  then have "cstr (drop k (xdata t)) = q @ q"
    using assms(4) by (simp only: q_def) (rule cstr_append_NUL, simp)
  then show ?thesis
    using l1 l2 t' m assms(3,5,6) by (simp add: save_remain_def q_def Let_def)
qed

text \<open>
  C32. With both prefixes in use the program writes past the end of \<open>remain\<close>: when the
  first packet of a binary file is full but for one or two places and a character that needs three
  characters, one with its eighth bit set whose low bits are a control character, stands there twice, the six
  characters and the NUL saved for the next packet are one more than \<open>remain\<close> holds.
  This happens for every packet size, whatever precedes and follows those two characters in the file.
\<close>

theorem overhang_overflows:
  fixes s :: "'a kenc_scheme"
  assumes "enc_ok s" "isp s = None" "first s = 1" "zincnt s = 0" "6 < maxsiz s" "maxsiz s \<le> 9000" "\<not> textmode s"
    "rptflg s" "ebqflg s" "\<not> fault s"
    "ifp s = as @ [b, b] @ rest" "rest = [] \<or> hd rest \<noteq> b" "b AND 128 \<noteq> 0" "b AND 127 < 32"
    "distinct_adj (as @ [b])" "\<forall>a \<in> set as. length (quote (enc_pfx s) a) = 1"
    "int (length as) \<in> {maxsiz s - 2, maxsiz s - 1}"
  shows "fault (snd (getpkt (maxsiz s) s))"
proof -
  let ?p = "enc_pfx s" and ?n = "maxsiz s"
  define y where "y = s\<lparr>first := 0, remain := (remain s)[0 := 0]\<rparr>"
  have y: "enc_src y" "enc_rest y = hd (as @ [b]) # tl (as @ [b]) @ b # rest"
    using assms by (cases as; simp add: y_def enc_ok_def enc_src_def enc_rest_def zin_inv_def zin_rest_def)+
  obtain c z where nx: "next_char y = (c, z)" by fastforce
  note f = next_char_frame [OF nx]
  have c: "c = uint (hd (as @ [b]))" "enc_rest z = tl (as @ [b]) @ b # rest" "enc_src z"
    using kin.get_byte [OF y nx] kin.get_inv [OF y(1) nx] by simp_all
  have rm: "remain s \<noteq> []" "cstr ((remain s)[0 := 0]) = []" using assms(1) by (auto simp: enc_ok_def intro!: cstr_Nil)
  define u where "u = (take_remain (z\<lparr>getpkt_c := c\<rparr>))\<lparr>remain := (remain s)[0 := 0], rpt := 0\<rparr>"
  have g: "snd (getpkt ?n s) = getpkt_loop ?n u"
    using assms(3) nx c(1) f by (simp add: getpkt_def Let_def u_def y_def take_remain_def)
  have "filling ?p ?n (hd (as @ [b])) (tl (as @ [b]) @ b # rest) 0 u"
    using assms(1,8) f c rm
    by (auto simp: filling_def u_def take_remain_def enc_ok_def y_def enc_src_def enc_rest_def enc_pfx_def
        zin_inv_def zin_rest_def Let_def split: option.splits)
  then obtain v where v: "getpkt_loop ?n u = getpkt_loop ?n v" "filling ?p ?n b (b # rest) (0 + length as) v"
    using assms(15,16,17) by (elim filling_prefix) auto
  have q: "length (quote ?p b) = 3" using assms(9,13,14) by (simp add: quote_def Let_def)
  have "0 \<notin> set (quote ?p b)" using assms(1) by (intro quote_shape) (simp add: enc_ok_def)
  from filling_overflow [OF v(2) assms(12) q this] show ?thesis using assms(6,17) g v(1) by auto
qed

theorem overhang_overflows_witness:
  "fault (snd (getpkt 7 (sender0 True True [65, 66, 67, 68, 69, 129, 129, 65] 7)))"
proof -
  let ?s = "sender0 True True [65, 66, 67, 68, 69, 129, 129, 65] 7"
  have s: "isp ?s = None" "first ?s = 1" "zincnt ?s = 0" "ifp ?s = [65, 66, 67, 68, 69] @ [129, 129] @ [65]" "\<not> fault ?s"
    "maxsiz ?s = 7" "\<not> textmode ?s" "rptflg ?s" "ebqflg ?s"
    "enc_pfx ?s = \<lparr>has_rpt = True, has_ebq = True, c_rpt = 126, c_ebq = 38, c_ctl = 35\<rparr>"
    by (simp_all add: sender0_def zopened_def zin.defs enc_pfx_def)
  have q: "list_all (\<lambda>a. length (quote \<lparr>has_rpt = True, has_ebq = True, c_rpt = 126, c_ebq = 38, c_ctl = 35\<rparr> a) = 1) [65, 66, 67, 68, 69]"
    by code_simp
  have "fault (snd (getpkt (maxsiz ?s) ?s))"
    by (rule overhang_overflows [OF sender0_ok, where b = 129 and as = "[65, 66, 67, 68, 69]" and rest = "[65]"])
       (use q in \<open>simp_all add: s list_all_iff\<close>)
  then show ?thesis by (simp add: s)
qed

end
