(* ===== verification/Kermit_Packet.thy ===== *)
theory Kermit_Packet
  imports Kermit_Decode Ctext
begin

text \<open>
  Packets on the line: framing and sending (\<open>spacket\<close>, \<open>resend\<close>, \<open>nak\<close>, \<open>errpkt\<close> of gkermit.c and
  \<open>ttol\<close> of gunixio.c), and receiving (\<open>ttinl\<close> of gunixio.c and \<open>rpacket\<close> of gkermit.c).
\<close>

section \<open>Definitions\<close>

abbreviation MAXTRY :: nat where "MAXTRY \<equiv> 10"

text \<open>
  What the operating system answers: a \<open>write\<close> takes some of the bytes, would block, or fails; a
  \<open>read\<close> gives a character, gives none, is interrupted by the alarm clock, or fails. What comes before an
  \<open>Rlater\<close> has arrived; what comes after it arrives only when the program waits for input.
\<close>

datatype wres = Wrote nat | Wouldblock | Werror

datatype lineev = Rbyte byte | Rnone | Ralarm | Rerror | Rlater

record kcomm = kdec +
  parity :: byte
  spadn :: int
  spadc :: byte
  smark :: byte
  seol :: byte
  bctu :: int
  sndpkt :: "byte list"
  sndpkl :: nat
  sendtype :: byte
  rcvpkt :: "byte list"
  maxrp :: int
  timint :: int
  reol :: byte
  rmark :: byte
  rln :: int
  rsn :: int
  rdatap :: nat
  datalen :: int
  recvtype :: byte
  seq :: int
  retries :: nat
  line_out :: "byte list"
  wresults :: "wres list"
  line_in :: "lineev list"
  nonblock :: bool

text \<open>
  \<open>ttol\<close>: the parity bits go into the packet in place; the packet is then written in as many
  pieces as \<open>write\<close> takes. \<open>wresults\<close> holds the answers of the coming calls of \<open>write\<close>; when it is
  empty a call takes all.
\<close>

fun ttol_loop :: "byte list \<Rightarrow> nat \<Rightarrow> nat \<Rightarrow> byte list \<Rightarrow> wres list \<Rightarrow> int \<times> byte list \<times> wres list" where
  "ttol_loop s m n out [] = (int (m + n), out @ take n (drop m s), [])"
| "ttol_loop s m n out (w # ws) =
     (if n = 0 then (int m, out, w # ws)
      else case w of
        Wouldblock \<Rightarrow> ttol_loop s m n out ws
      | Werror \<Rightarrow> (-1, out, ws)
      | Wrote i \<Rightarrow>
          (let i = min i n; out = out @ take i (drop m s)
           in if i = n then (int (m + n), out, ws) else ttol_loop s (m + i) (n - i) out ws))"

definition ttol :: "nat \<Rightarrow> 'a kcomm_scheme \<Rightarrow> int \<times> 'a kcomm_scheme" where
  "ttol len s =
     (let p = (if parity s \<noteq> 0 then map (dopar (parity s)) (take len (sndpkt s)) @ drop len (sndpkt s)
               else sndpkt s)
      in case ttol_loop p 0 len (line_out s) (wresults s) of
           (x, out, ws) \<Rightarrow> (x, s\<lparr>sndpkt := p, line_out := out, wresults := ws\<rparr>))"

text \<open>The block check of the packet \<open>p\<close> whose length field is at \<open>k\<close>: the last characters of the packet.\<close>

definition block_check :: "int \<Rightarrow> bool \<Rightarrow> byte list \<Rightarrow> nat \<Rightarrow> byte list" where
  "block_check bct par p k =
     (let m = length p - k
      in if bct = 1 then [tochar (uint (chk1 par (drop k p)))]
         else if bct = 2 then
           (let j = chksum par (take m (drop 1 p))
            in [tochar (uint (drop_bit 6 j AND 63)), tochar (uint (j AND 63))])
         else if bct = 3 then
           (let j = chk3 par (take m (drop 1 p))
            in [tochar (uint (drop_bit 12 j AND 15)), tochar (uint (drop_bit 6 j AND 63)),
                tochar (uint (j AND 63))])
         else [])"

text \<open>The characters of a packet: padding, mark, length, sequence number, type, extended length, data.\<close>

definition packet_body :: "'a kcomm_scheme \<Rightarrow> byte \<Rightarrow> int \<Rightarrow> byte list \<Rightarrow> byte list" where
  "packet_body s type n d =
     (let pad = replicate (nat (spadn s)) (spadc s);
          j = int (length d) + bctu s
      in if j + 2 > 94 then
           (let h = [tochar 0, tochar n, type, tochar (j div 95), tochar (j mod 95)]
            in pad @ smark s # h @ tochar (uint (chk1 (parity s \<noteq> 0) h)) # d)
         else pad @ smark s # tochar (j + 2) # tochar n # type # d)"

definition packet :: "'a kcomm_scheme \<Rightarrow> byte \<Rightarrow> int \<Rightarrow> byte list \<Rightarrow> byte list" where
  "packet s type n d =
     (let p = packet_body s type n d
      in p @ block_check (bctu s) (parity s \<noteq> 0) p (nat (spadn s) + 1) @ [seol s])"

definition spacket :: "byte \<Rightarrow> int \<Rightarrow> byte list \<Rightarrow> 'a kcomm_scheme \<Rightarrow> (int, 'a kcomm_scheme) outcome" where
  "spacket type n d s =
     (let p = packet s type n d
      in if length (sndpkt s) \<le> length p then Wild
         else case ttol (length p) (s\<lparr>sndpkt := store (sndpkt s) 0 (p @ [0]), sndpkl := length p\<rparr>) of
                (x, s) \<Rightarrow> Ret x (if x > -1 then s\<lparr>sendtype := type\<rparr> else s))"

definition errpkt :: "byte list \<Rightarrow> 'a kcomm_scheme \<Rightarrow> ('b, 'a kcomm_scheme) outcome" where
  "errpkt t s = kbind (spacket 69 (seq s) t s) (\<lambda>x s. Exit 1 s)"

definition nak :: "'a kcomm_scheme \<Rightarrow> (int, 'a kcomm_scheme) outcome" where
  "nak s =
     (let s = s\<lparr>retries := Suc (retries s)\<rparr>
      in if retries s > MAXTRY then errpkt (cbytes ''Too many retries'') s
         else spacket 78 (seq s) [] s)"

definition resend :: "'a kcomm_scheme \<Rightarrow> (int, 'a kcomm_scheme) outcome" where
  "resend s =
     (if sndpkt s ! 0 \<noteq> 0 then
        (let s = s\<lparr>retries := Suc (retries s)\<rparr>
         in if retries s > MAXTRY then errpkt (cbytes ''Too many retries'') s
            else (case ttol (sndpkl s) s of (x, s) \<Rightarrow> Ret x s))
      else nak s)"

text \<open>
  \<open>ttinl\<close>: the local variables of the loop, the treatment of one character, and the loop over what
  \<open>read\<close> delivers. The loop stops with a return code; 0 stands for a complete packet. Every store
  into the buffer is checked against its size. A \<open>read\<close> that gives no character is repeated when
  the line is nonblocking; otherwise the last character is taken once more.
\<close>

record inl =
  dest :: "byte list"
  inl_n :: nat
  inl_c :: byte
  inl_flag :: bool
  ccn :: nat
  havelen :: bool
  pktlen :: int
  lplen :: int

definition inl_length :: "inl \<Rightarrow> inl" where
  "inl_length r =
     (if havelen r then r
      else if inl_n r = 2 then
        (let r = r\<lparr>pktlen := xunchar (dest r ! 1 AND 0x7F)\<rparr>
         in if pktlen r > 1 then r\<lparr>havelen := True\<rparr> else r)
      else if inl_n r = 5 \<and> pktlen r = 0 then r\<lparr>lplen := xunchar (dest r ! 4 AND 0x7F)\<rparr>
      else if inl_n r = 6 \<and> pktlen r = 0 then
        r\<lparr>pktlen := lplen r * 95 + xunchar (dest r ! 5 AND 0x7F) + 5, havelen := True\<rparr>
      else r)"

definition ttinl_char :: "bool \<Rightarrow> int \<Rightarrow> byte \<Rightarrow> byte \<Rightarrow> byte \<Rightarrow> inl \<Rightarrow> (int option, inl) outcome" where
  "ttinl_char par maxn soh turn c r =
     (let c = (if par then c AND 0x7F else c);
          r = r\<lparr>inl_c := c, ccn := (if c = 3 then Suc (ccn r) else 0)\<rparr>
      in if c = 3 \<and> ccn r > 2 then
           (if dest r = [] then Wild else Ret (Some (-9)) (r\<lparr>inl_n := 0, dest := (dest r)[0 := 0]\<rparr>))
         else if \<not> inl_flag r \<and> c \<noteq> soh then Ret None r
         else
           (let r = r\<lparr>inl_flag := True\<rparr>
            in if int (inl_n r) \<ge> maxn then Ret (Some (-2)) r
               else if length (dest r) \<le> inl_n r then Wild
               else
                 (let r = inl_length (r\<lparr>dest := (dest r)[inl_n r := c], inl_n := Suc (inl_n r)\<rparr>)
                  in if havelen r \<and> int (inl_n r) > pktlen r + 1 then
                       (if turn \<noteq> 0 \<and> c \<noteq> turn then Ret None r
                        else if length (dest r) \<le> inl_n r then Wild
                        else Ret (Some 0) (r\<lparr>dest := (dest r)[inl_n r := 0]\<rparr>))
                     else Ret None r)))"

fun ttinl_loop :: "bool \<Rightarrow> bool \<Rightarrow> int \<Rightarrow> bool \<Rightarrow> byte \<Rightarrow> byte \<Rightarrow> lineev list \<Rightarrow> inl \<Rightarrow> (int \<times> lineev list, inl) outcome" where
  "ttinl_loop nb par maxn timo soh turn [] r = Hang"
| "ttinl_loop nb par maxn timo soh turn (Ralarm # es) r =
     (if timo then Ret (-1, es) r else ttinl_loop nb par maxn timo soh turn es r)"
| "ttinl_loop nb par maxn timo soh turn (Rerror # es) r = Ret (-2, es) r"
| "ttinl_loop nb par maxn timo soh turn (Rlater # es) r = ttinl_loop nb par maxn timo soh turn es r"
| "ttinl_loop nb par maxn timo soh turn (Rnone # es) r =
     (if nb then ttinl_loop nb par maxn timo soh turn es r
      else kbind (ttinl_char par maxn soh turn (inl_c r) r) (\<lambda>rc r.
        case rc of None \<Rightarrow> ttinl_loop nb par maxn timo soh turn es r | Some rc \<Rightarrow> Ret (rc, es) r))"
| "ttinl_loop nb par maxn timo soh turn (Rbyte c # es) r =
     kbind (ttinl_char par maxn soh turn c r) (\<lambda>rc r.
       case rc of None \<Rightarrow> ttinl_loop nb par maxn timo soh turn es r | Some rc \<Rightarrow> Ret (rc, es) r)"

definition inl0 :: "byte list \<Rightarrow> inl" where
  "inl0 d = \<lparr>dest = d[0 := 0], inl_n = 0, inl_c = 0, inl_flag = False, ccn = 0, havelen = False, pktlen = 0, lplen = 0\<rparr>"

definition ttinl :: "int \<Rightarrow> int \<Rightarrow> byte \<Rightarrow> byte \<Rightarrow> 'a kcomm_scheme \<Rightarrow> (int, 'a kcomm_scheme) outcome" where
  "ttinl maxn timo soh turn s =
     (if rcvpkt s = [] then Wild
      else case ttinl_loop (nonblock s) (parity s \<noteq> 0) maxn (timo \<noteq> 0) soh turn (line_in s) (inl0 (rcvpkt s)) of
        Ret (rc, es) r \<Rightarrow>
          (let s = s\<lparr>rcvpkt := dest r, line_in := es\<rparr>
           in if rc = -9 then Exit 1 s else Ret (if rc > -1 then int (inl_n r) else rc) s)
      | Exit n r \<Rightarrow> Exit n s
      | Wild \<Rightarrow> Wild
      | Hang \<Rightarrow> Hang)"

text \<open>The comparison of the block check \<open>pbc\<close> with the one computed over \<open>p\<close>.\<close>

definition check_ok :: "int \<Rightarrow> bool \<Rightarrow> byte list \<Rightarrow> byte list \<Rightarrow> bool" where
  "check_ok bct par pbc p =
     (let u = (\<lambda>i. word_of_int (xunchar (pbc ! i)) :: u32)
      in if bct = 1 then u 0 = chk1 par p
         else if bct = 2 then (push_bit 6 (u 0)) OR u 1 = chksum par p
         else ((push_bit 12 (u 0)) OR (push_bit 6 (u 1)) OR u 2) AND 0xFFFF = chk3 par p)"

text \<open>
  \<open>rpacket\<close> after the raw packet is in \<open>rcvpkt\<close>: the extended header, then the fields and the block
  check. \<open>Q\<close> (81) is a packet in error, \<open>T\<close> (84) a timeout.
\<close>

definition long_header :: "'a kcomm_scheme \<Rightarrow> nat \<Rightarrow> (bool, 'a kcomm_scheme) outcome" where
  "long_header s rpktl =
     (if 6 > rpktl then Ret False s
      else if length (rcvpkt s) \<le> 6 then Wild
      else
        (let p = rcvpkt s; x = p ! 6; p0 = p[6 := 0]
         in if word_of_int (xunchar x) \<noteq> chk1 (parity s \<noteq> 0) (take 5 (drop 1 p0))
            then Ret False (s\<lparr>rcvpkt := p0\<rparr>)
            else Ret True (s\<lparr>rcvpkt := p0[6 := x], rln := xunchar (p ! 4) * 95 + xunchar (p ! 5) - bctu s\<rparr>)))"

definition packet_fields :: "nat \<Rightarrow> 'a kcomm_scheme \<Rightarrow> (byte, 'a kcomm_scheme) outcome" where
  "packet_fields off s =
     (let p = rcvpkt s;
          s = s\<lparr>rsn := xunchar (p ! 2)\<rparr>;
          type = p ! 3;
          i = 4 + off;
          s = s\<lparr>rdatap := i\<rparr>;
          j = rln s + int i
      in if j < 0 \<or> int (length p) \<le> j \<or> int (length p) < j + bctu s then Wild
         else
           (let pbc = take (nat (bctu s)) (drop (nat j) p);
                p = p[nat j := 0];
                s = s\<lparr>rcvpkt := p, datalen := j - int i\<rparr>
            in if bctu s \<notin> {1, 2, 3} then errpkt (cbytes ''BLOCKCHECK'') s
               else if check_ok (bctu s) (parity s \<noteq> 0) pbc (take (nat (j - 1)) (drop 1 p))
               then Ret type (s\<lparr>recvtype := type\<rparr>)
               else Ret 81 s))"

definition rpacket :: "'a kcomm_scheme \<Rightarrow> (byte, 'a kcomm_scheme) outcome" where
  "rpacket s =
     (let s = s\<lparr>rsn := -1, rln := -1, rcvpkt := (rcvpkt s)[0 := 0]\<rparr>
      in kbind (ttinl (maxrp s) (timint s) (rmark s) 0 s) (\<lambda>j s.
           if j < 5 then (if j = -1 then Ret 84 s else if j < -1 then Exit 1 s else Ret 81 s)
           else
             (let l = xunchar (rcvpkt s ! 1)
              in if l = 0 then
                   kbind (long_header s (nat j)) (\<lambda>ok s. if ok then packet_fields 3 s else Ret 81 s)
                 else if l < 3 then Ret 81 s
                 else packet_fields 0 (s\<lparr>rln := l - bctu s - 2\<rparr>))))"

section \<open>Block checks round trip\<close>

text \<open>What a sender puts after the characters \<open>q\<close> from the length field on.\<close>

definition check_of :: "int \<Rightarrow> bool \<Rightarrow> byte list \<Rightarrow> byte list" where
  "check_of bct par q = block_check bct par (0 # q) 1"

lemma block_check_at_1: "block_check bct par (m # q) 1 = check_of bct par q"
  by (simp add: check_of_def block_check_def Let_def)

lemma tochar_field: "word_of_int (xunchar (tochar (uint (x AND m :: u32)))) = x AND m" if "m < 224"
proof -
  have "uint (x AND m) \<le> uint m" using word_and_le1 [of x m] by (simp add: word_le_def)
  also have "uint m < 224" using that by (simp add: word_less_def)
  finally have "xunchar (tochar (uint (x AND m))) = uint (x AND m)"
    using uint_nonnegative [of "x AND m"] by (intro xunchar_tochar) linarith+
  then show ?thesis by (simp only: word_of_int_uint)
qed

lemma join_fields:
  "push_bit a (drop_bit a j AND mask b) OR (j AND mask a) = j AND mask (a + b)" for j :: u32
proof (rule bit_word_eqI)
  fix n assume "n < LENGTH(32)"
  then show "bit (push_bit a (drop_bit a j AND mask b) OR (j AND mask a)) n = bit (j AND mask (a + b)) n"
    by (cases "a \<le> n") (auto simp: bit_push_bit_iff bit_drop_bit_eq bit_or_iff bit_and_iff bit_mask_iff)
qed

lemma join_12: "push_bit 6 (drop_bit 6 j AND 63) OR (j AND 63) = j AND (0xFFF :: u32)"
  using join_fields [of 6 j 6] by (simp add: mask_numeral)

lemma join_16: "push_bit 12 (drop_bit 12 j AND 15) OR (j AND 0xFFF) = j AND (0xFFFF :: u32)"
  using join_fields [of 12 j 4] by (simp add: mask_numeral)

lemma chk1_bits: "chk1 par q AND 63 = chk1 par q"
  by (simp add: chk1_def Let_def and.assoc)

lemma chk3_bits: "chk3 par q AND 0xFFFF = chk3 par q"
  by (simp add: chk3_def and.assoc)

lemma check_of_length: "bct \<in> {1, 2, 3} \<Longrightarrow> length (check_of bct par q) = nat bct"
  by (auto simp: check_of_def block_check_def Let_def)

lemma check_of_bytes: "bct \<in> {1, 2, 3} \<Longrightarrow> b \<in> set (check_of bct par q) \<Longrightarrow> 31 < b \<and> b < 96"
proof -
  have *: "31 < tochar (uint (x AND m)) \<and> tochar (uint (x AND m)) < 96" if "m < 64" for x m :: u32
  proof -
    have "uint (x AND m) \<le> uint m" using word_and_le1 [of x m] by (simp add: word_le_def)
    also have "uint m < 64" using that by (simp add: word_less_def)
    finally have "uint (tochar (uint (x AND m))) = uint (x AND m) + 32" "uint (x AND m) < 64"
      using uint_nonnegative [of "x AND m"] uint_tochar [of "uint (x AND m)"] by linarith+
    moreover have "uint (31 :: byte) = 31" "uint (96 :: byte) = 96" by simp_all
    ultimately show ?thesis using uint_nonnegative [of "x AND m"] unfolding word_less_def by linarith
  qed
  show "bct \<in> {1, 2, 3} \<Longrightarrow> b \<in> set (check_of bct par q) \<Longrightarrow> 31 < b \<and> b < 96"
    using * [of 63 "chk1 par q"] * [of 63] * [of 15]
    by (auto simp: check_of_def block_check_def Let_def chk1_bits)
qed

lemma check_ok_of:
  assumes "bct \<in> {1, 2, 3}" "bct = 2 \<longrightarrow> chksum par q < 4096"
  shows "check_ok bct par (check_of bct par q) q"
proof -
  have "chksum par q AND 0xFFF = chksum par q" if "chksum par q < 4096"
  proof -
    have "take_bit 12 (unat (chksum par q)) = unat (chksum par q)"
      using that by (simp add: take_bit_nat_eq_self word_less_nat_alt)
    then have "take_bit 12 (chksum par q) = chksum par q"
      by (simp only: word_unat_eq_iff unsigned_take_bit_eq)
    then show ?thesis by (simp add: take_bit_eq_mask mask_numeral)
  qed
  moreover have f1: "word_of_int (xunchar (tochar (uint (chk1 par q)))) = chk1 par q"
    using tochar_field [of 63 "chk1 par q"] by (simp add: chk1_bits)
  moreover have f: "word_of_int (xunchar (tochar (uint (x AND 63)))) = x AND 63"
    "word_of_int (xunchar (tochar (uint (x AND 15)))) = x AND 15" for x :: u32
    by (rule tochar_field, simp)+
  ultimately show ?thesis using assms
    by (elim insertE emptyE)
       (simp_all add: check_ok_def check_of_def block_check_def Let_def f join_12 join_16 chk3_bits
         del: push_bit_and)
qed

section \<open>Framing\<close>

text \<open>
  The length a packet announces in its second character, or in its fifth and sixth when the second
  says zero, and packets from the mark to the end of the block check that have that length.
\<close>

definition plen :: "byte list \<Rightarrow> int" where
  "plen q = (let l = xunchar (q ! 1 AND 0x7F)
             in if l = 0 then xunchar (q ! 4 AND 0x7F) * 95 + xunchar (q ! 5 AND 0x7F) + 5 else l)"

definition framed :: "byte \<Rightarrow> byte list \<Rightarrow> bool" where
  "framed soh q \<longleftrightarrow> q ! 0 = soh \<and> 5 \<le> length q \<and> int (length q) = plen q + 2 \<and>
     (xunchar (q ! 1 AND 0x7F) > 1 \<or> xunchar (q ! 1 AND 0x7F) = 0 \<and> 6 \<le> length q)"

definition inl_at :: "byte list \<Rightarrow> nat \<Rightarrow> inl \<Rightarrow> bool" where
  "inl_at q k r \<longleftrightarrow> inl_n r = k \<and> take k (dest r) = take k q \<and> (inl_flag r \<longleftrightarrow> 0 < k) \<and>
     (let l = xunchar (q ! 1 AND 0x7F)
      in (havelen r \<longleftrightarrow> (if l = 0 then 6 \<le> k else 2 \<le> k)) \<and> (havelen r \<longrightarrow> pktlen r = plen q) \<and>
         (\<not> havelen r \<longrightarrow> pktlen r = 0) \<and> (l = 0 \<and> 5 \<le> k \<longrightarrow> lplen r = xunchar (q ! 4 AND 0x7F)))"

lemma inl_length_frame:
  "dest (inl_length r) = dest r" "inl_n (inl_length r) = inl_n r" "inl_flag (inl_length r) = inl_flag r"
  "inl_c (inl_length r) = inl_c r"
  by (simp_all add: inl_length_def Let_def)

lemma inl_length_at:
  assumes "inl_at q k r" "framed soh q" "k < length q" "length q < length (dest r)"
  shows "inl_at q (Suc k) (inl_length (r\<lparr>inl_flag := True, dest := (dest r)[k := q ! k], inl_n := Suc k\<rparr>))"
proof -
  let ?d = "(dest r)[k := q ! k]"
  have t: "take (Suc k) ?d = take (Suc k) q"
    using assms by (simp add: inl_at_def take_Suc_update take_Suc_conv_app_nth)
  then have n: "?d ! i = q ! i" if "i \<le> k" for i
    using that nth_take [of i "Suc k" ?d] nth_take [of i "Suc k" q] by simp
  have n': "k = 1 \<Longrightarrow> ?d ! 1 = q ! 1" "k = 4 \<Longrightarrow> ?d ! 4 = q ! 4" "k = 5 \<Longrightarrow> ?d ! 5 = q ! 5"
    "k = 1 \<Longrightarrow> ?d ! Suc 0 = q ! 1"
    using n by simp_all
  consider "k = 1" | "k = 4" | "k = 5" | "k \<noteq> 1" "k \<noteq> 4" "k \<noteq> 5" by blast
  then show ?thesis
  proof cases
    case 1 then show ?thesis using assms t n' by (auto simp: inl_at_def inl_length_def framed_def plen_def Let_def)
  next
    case 2 then show ?thesis using assms t n' by (auto simp: inl_at_def inl_length_def framed_def plen_def Let_def)
  next
    case 3 then show ?thesis using assms t n' by (auto simp: inl_at_def inl_length_def framed_def plen_def Let_def)
  next
    case 4 then show ?thesis using assms t by (auto simp: inl_at_def inl_length_def Let_def)
  qed
qed

lemma ttinl_char_at:
  assumes "inl_at q k r" "framed soh q" "k < length q" "length q < length (dest r)" "int (length q) \<le> maxn"
    "strip par c = q ! k" "q ! k \<noteq> 3"
  obtains r' where "inl_at q (Suc k) r'" "length (dest r') = length (dest r)"
    "ttinl_char par maxn soh 0 c r =
       (if Suc k = length q then Ret (Some 0) (r'\<lparr>dest := (dest r')[length q := 0]\<rparr>) else Ret None r')"
proof -
  define r0 where "r0 = r\<lparr>inl_c := q ! k, ccn := 0\<rparr>"
  define r' where "r' = inl_length (r0\<lparr>inl_flag := True, dest := (dest r0)[k := q ! k], inl_n := Suc k\<rparr>)"
  have at0: "inl_at q k r0" using assms(1) by (simp add: inl_at_def r0_def)
  have at': "inl_at q (Suc k) r'"
    unfolding r'_def by (rule inl_length_at [OF at0 assms(2,3)]) (simp add: r0_def assms(4))
  have l': "length (dest r') = length (dest r)"
    by (simp add: r'_def r0_def inl_length_def Let_def)
  have k: "inl_n r = k" "inl_flag r \<or> q ! k = soh"
    using assms(1,2) by (auto simp: inl_at_def framed_def)
  have c: "(if par then c AND 0x7F else c) = q ! k" using assms(6) by (simp add: strip_def)
  have stop: "havelen r' \<and> int (inl_n r') > pktlen r' + 1 \<longleftrightarrow> Suc k = length q"
    using at' assms(2,3) by (auto simp: inl_at_def framed_def Let_def split: if_splits)
  have "ttinl_char par maxn soh 0 c r =
      (if havelen r' \<and> int (inl_n r') > pktlen r' + 1 then Ret (Some 0) (r'\<lparr>dest := (dest r')[inl_n r' := 0]\<rparr>)
       else Ret None r')"
    unfolding ttinl_char_def c Let_def using k assms(3,4,5,7) l'
    by (auto simp: r'_def r0_def inl_length_frame)
  moreover have "inl_n r' = Suc k" using at' by (simp add: inl_at_def)
  ultimately show ?thesis using that at' l' stop by (auto split: if_splits)
qed

lemma ttinl_loop_at:
  assumes "framed soh q" "inl_at q k r" "k < length q" "length q < length (dest r)" "int (length q) \<le> maxn"
    "map (strip par) cs = drop k q" "3 \<notin> set q"
  shows "\<exists>r'. ttinl_loop nb par maxn timo soh 0 (map Rbyte cs @ es) r = Ret (0, es) r' \<and>
    inl_n r' = length q \<and> take (length q) (dest r') = q \<and> length (dest r') = length (dest r) \<and>
    dest r' ! length q = 0"
  using assms
proof (induction cs arbitrary: k r)
  case (Cons c cs)
  have c3: "q ! k \<noteq> 3" using nth_mem [OF Cons.prems(3)] Cons.prems(7) by metis
  have c: "strip par c = q ! k" "map (strip par) cs = drop (Suc k) q"
    using Cons.prems(3,6) by (simp_all add: Cons_nth_drop_Suc [symmetric])
  obtain r' where r': "inl_at q (Suc k) r'" "length (dest r') = length (dest r)"
    "ttinl_char par maxn soh 0 c r =
       (if Suc k = length q then Ret (Some 0) (r'\<lparr>dest := (dest r')[length q := 0]\<rparr>) else Ret None r')"
    by (rule ttinl_char_at [OF Cons.prems(2,1,3,4,5) c(1) c3])
  show ?case
  proof (cases "Suc k = length q")
    case True
    then have "cs = []" using c(2) by simp
    then show ?thesis using True r' Cons.prems(4) by (simp add: inl_at_def)
  next
    case False
    then have "Suc k < length q" using Cons.prems(3) by simp
    from Cons.IH [OF Cons.prems(1) r'(1) this _ Cons.prems(5) c(2) Cons.prems(7)] r' False Cons.prems(4)
    show ?thesis by simp
  qed
qed simp

text \<open>Characters before the mark are skipped, unless three in a row are control-C.\<close>

lemma ttinl_loop_skip:
  assumes "\<not> inl_flag r" "\<forall>c \<in> set pad. strip par c \<noteq> soh \<and> strip par c \<noteq> 3"
  shows "\<exists>r'. ttinl_loop nb par maxn timo soh 0 (map Rbyte pad @ es) r = ttinl_loop nb par maxn timo soh 0 es r' \<and>
    (\<exists>c k. r' = r\<lparr>inl_c := c, ccn := k\<rparr>)"
  using assms
proof (induction pad arbitrary: r)
  case (Cons c pad)
  let ?r = "r\<lparr>inl_c := strip par c, ccn := 0\<rparr>"
  have "ttinl_char par maxn soh 0 c r = Ret None ?r"
    using Cons.prems by (auto simp: ttinl_char_def strip_def Let_def)
  moreover obtain r' d k where "ttinl_loop nb par maxn timo soh 0 (map Rbyte pad @ es) ?r = ttinl_loop nb par maxn timo soh 0 es r'"
    "r' = ?r\<lparr>inl_c := d, ccn := k\<rparr>"
    using Cons.IH [of ?r] Cons.prems by auto
  ultimately show ?case by (intro exI [of _ r']) auto
next
  case Nil
  show ?case by (intro exI [of _ r] conjI exI [of _ "inl_c r"] exI [of _ "ccn r"]) simp_all
qed

lemma inl_at_0: "q \<noteq> [] \<Longrightarrow> inl_at q 0 (inl0 d)"
  by (simp add: inl_at_def inl0_def Let_def)

lemma ttinl_reads:
  assumes "framed (rmark r) q" "length q < length (rcvpkt r)" "int (length q) \<le> maxn" "3 \<notin> set q"
    "map (strip (parity r \<noteq> 0)) cs = q" "\<forall>c \<in> set pad. strip (parity r \<noteq> 0) c \<noteq> rmark r \<and> strip (parity r \<noteq> 0) c \<noteq> 3"
    "line_in r = map Rbyte (pad @ cs) @ es"
  shows "\<exists>p. ttinl maxn timo (rmark r) 0 r = Ret (int (length q)) (r\<lparr>rcvpkt := p, line_in := es\<rparr>) \<and>
    take (length q) p = q \<and> length p = length (rcvpkt r) \<and> p ! length q = 0"
proof -
  let ?par = "parity r \<noteq> 0"
  obtain r1 c k where r1: "ttinl_loop (nonblock r) ?par maxn (timo \<noteq> 0) (rmark r) 0 (line_in r) (inl0 (rcvpkt r)) =
      ttinl_loop (nonblock r) ?par maxn (timo \<noteq> 0) (rmark r) 0 (map Rbyte cs @ es) r1" "r1 = (inl0 (rcvpkt r))\<lparr>inl_c := c, ccn := k\<rparr>"
    using ttinl_loop_skip [of "inl0 (rcvpkt r)" pad ?par "rmark r" "nonblock r" maxn "timo \<noteq> 0" "map Rbyte cs @ es"] assms(6,7)
    by (auto simp: inl0_def)
  have "inl_at q 0 r1" "length (dest r1) = length (rcvpkt r)" "0 < length q"
    using r1(2) inl_at_0 [of q "rcvpkt r"] assms(1) by (auto simp: inl_at_def inl0_def framed_def)
  with ttinl_loop_at [OF assms(1), of 0 r1 maxn ?par cs "nonblock r" "timo \<noteq> 0" es] assms(2-5) r1(1)
  show ?thesis by (auto simp: ttinl_def Let_def)
qed

section \<open>Packets round trip\<close>

definition rdata :: "'a kcomm_scheme \<Rightarrow> byte list" where
  "rdata s = take (nat (datalen s)) (drop (rdatap s) (rcvpkt s))"

lemma packet_fields_ok:
  assumes "take (length q) (rcvpkt s) = q" "length q < length (rcvpkt s)"
    "q = m # body @ check_of (bctu s) (parity s \<noteq> 0) body" "body = pre @ d" "length pre = 3 + off"
    "pre ! 1 = tochar n" "pre ! 2 = type" "rln s = int (length d)" "bctu s \<in> {1, 2, 3}"
    "bctu s = 2 \<longrightarrow> chksum (parity s \<noteq> 0) body < 4096" "0 \<le> n" "n \<le> 63"
  shows "packet_fields off s = Ret type (s\<lparr>rsn := n, rdatap := 4 + off,
    rcvpkt := (rcvpkt s)[4 + off + length d := 0], datalen := int (length d), recvtype := type\<rparr>)"
proof -
  let ?par = "parity s \<noteq> 0" and ?p = "rcvpkt s"
  define c where "c = check_of (bctu s) ?par body"
  define j where "j = 4 + off + length d"
  have c: "length c = nat (bctu s)" "check_ok (bctu s) ?par c body"
    using check_of_length [OF assms(9)] check_ok_of [OF assms(9,10)] by (simp_all add: c_def)
  have b: "length body + 1 = j" using assms(4,5) by (simp add: j_def)
  obtain t where t: "?p = (m # body @ c) @ t" "t \<noteq> []"
  proof
    show "?p = (m # body @ c) @ drop (length q) ?p"
      using append_take_drop_id [of "length q" ?p] unfolding assms(1) by (simp add: assms(3) c_def)
    show "drop (length q) ?p \<noteq> []" using assms(2) by simp
  qed
  have f: "?p ! 2 = tochar n" "?p ! 3 = type"
    using assms(4-7) by (simp_all add: t nth_append numeral_eq_Suc)
  have pbc: "take (nat (bctu s)) (drop j ?p) = c" using c(1) by (simp add: t flip: b)
  have reg: "take (j - 1) (drop 1 (?p[j := 0])) = body" using b by (auto simp: t list_update_append)
  have lt: "\<not> (int j < 0 \<or> int (length ?p) \<le> int j \<or> int (length ?p) < int j + bctu s)"
    using b c(1) t(2) assms(9) by (auto simp: t)
  have j: "rln s + int (4 + off) = int j" "nat (int j - 1) = j - 1" "int j - int (4 + off) = int (length d)"
    using b assms(8) by (simp_all add: j_def)
  have n: "xunchar (tochar n) = n" using assms(11,12) by (simp add: xunchar_tochar)
  have nb: "bctu s \<notin> {1, 2, 3} \<longleftrightarrow> False" using assms(9) by blast
  have upd: "rln (s\<lparr>rsn := a, rdatap := x\<rparr>) = rln s" "bctu (s\<lparr>rsn := a, rdatap := x\<rparr>) = bctu s" for a x by simp_all
  have "packet_fields off s = (let s1 = s\<lparr>rsn := n, rdatap := 4 + off\<rparr> in
     if int j < 0 \<or> int (length ?p) \<le> int j \<or> int (length ?p) < int j + bctu s then Wild
     else let p = ?p[j := 0]; s2 = s1\<lparr>rcvpkt := p, datalen := int (length d)\<rparr> in
       if bctu s \<notin> {1, 2, 3} then errpkt (cbytes ''BLOCKCHECK'') s2
       else if check_ok (bctu s) ?par c (take (j - 1) (drop 1 p)) then Ret type (s2\<lparr>recvtype := type\<rparr>) else Ret 81 s2)"
    unfolding packet_fields_def Let_def f n upd j kcomm.simps nat_int pbc by simp
  then show ?thesis unfolding Let_def nb reg using lt c(2) by (simp add: j_def)
qed

text \<open>The header of a packet, from the length field to the data, and what \<open>spacket\<close> sends around it.\<close>

definition header :: "bool \<Rightarrow> int \<Rightarrow> byte \<Rightarrow> int \<Rightarrow> byte list \<Rightarrow> byte list" where
  "header par bct type n d =
     (let j = int (length d) + bct
      in if j + 2 > 94 then
           (let h = [tochar 0, tochar n, type, tochar (j div 95), tochar (j mod 95)]
            in h @ [tochar (uint (chk1 par h))])
         else [tochar (j + 2), tochar n, type])"

definition frame :: "byte \<Rightarrow> bool \<Rightarrow> int \<Rightarrow> byte \<Rightarrow> int \<Rightarrow> byte list \<Rightarrow> byte list" where
  "frame mark par bct type n d =
     (let body = header par bct type n d @ d in mark # body @ check_of bct par body)"

lemma packet_frame:
  assumes "bctu s = 1 \<or> spadn s \<le> 0"
  shows "packet s type n d = replicate (nat (spadn s)) (spadc s) @
    frame (smark s) (parity s \<noteq> 0) (bctu s) type n d @ [seol s]"
proof -
  let ?par = "parity s \<noteq> 0"
  let ?body = "header ?par (bctu s) type n d @ d" and ?pad = "replicate (nat (spadn s)) (spadc s)"
  have b: "packet_body s type n d = ?pad @ smark s # ?body"
    by (simp add: packet_body_def header_def Let_def)
  have "block_check (bctu s) ?par (?pad @ smark s # ?body) (nat (spadn s) + 1) = check_of (bctu s) ?par ?body"
  proof (cases "spadn s \<le> 0")
    case True
    then show ?thesis using block_check_at_1 [of "bctu s" ?par "smark s" ?body] by simp
  next
    case False
    then have "bctu s = 1" using assms by simp
    then show ?thesis by (simp add: check_of_def block_check_def Let_def)
  qed
  then show ?thesis by (simp add: packet_def b frame_def Let_def)
qed

lemma tochar_7: "0 \<le> n \<Longrightarrow> n \<le> 94 \<Longrightarrow> tochar n AND 0x7F = tochar n"
  by (rule byte_low7) (simp add: word_less_def uint_tochar)

lemma tochar_printable: "0 \<le> n \<Longrightarrow> n \<le> 94 \<Longrightarrow> tochar n \<noteq> 3 \<and> tochar n < 127"
  using uint_tochar [of n] by (auto simp: word_less_def)

lemma chk1_range: "0 \<le> uint (chk1 par q) \<and> uint (chk1 par q) \<le> 63"
proof -
  have "chk1 par q \<le> 63" using word_and_le1 [of "chk1 par q" 63] by (simp only: chk1_bits)
  then show ?thesis by (simp add: word_le_def)
qed

lemma header_shape:
  assumes "bct \<in> {1, 2, 3}" "0 \<le> n" "n \<le> 63" "int (length d) + bct \<le> 9024"
    and h_def: "h = header par bct type n d"
  shows "h ! 1 = tochar n" "h ! 2 = type" "length h = (if int (length d) + bct + 2 > 94 then 6 else 3)"
    "b \<in> set h \<Longrightarrow> b = type \<or> b \<noteq> 3 \<and> b < 127"
proof -
  let ?j = "int (length d) + bct"
  have "0 \<le> ?j div 95" "?j div 95 \<le> 94" "0 \<le> ?j mod 95" "?j mod 95 \<le> 94" using assms(1,4) by auto
  then have *: "tochar (?j div 95) \<noteq> 3 \<and> tochar (?j div 95) < 127" "tochar (?j mod 95) \<noteq> 3 \<and> tochar (?j mod 95) < 127"
    using tochar_printable by blast+
  have "tochar 0 \<noteq> 3 \<and> tochar 0 < 127" "tochar n \<noteq> 3 \<and> tochar n < 127"
    "?j + 2 \<le> 94 \<Longrightarrow> tochar (?j + 2) \<noteq> 3 \<and> tochar (?j + 2) < 127"
    "tochar (uint (chk1 par q)) \<noteq> 3 \<and> tochar (uint (chk1 par q)) < 127" for q
    by (rule tochar_printable; use assms(1-3) chk1_range [of par q] in auto)+
  note f = * this
  show "b \<in> set h \<Longrightarrow> b = type \<or> b \<noteq> 3 \<and> b < 127"
    using f unfolding h_def header_def Let_def by (auto split: if_splits)
qed (simp_all add: h_def header_def Let_def numeral_eq_Suc)

lemma frame_framed:
  assumes "bct \<in> {1, 2, 3}" "0 \<le> n" "n \<le> 63" "int (length d) + bct \<le> 9024"
  shows "framed mark (frame mark par bct type n d)"
proof -
  let ?j = "int (length d) + bct"
  let ?h = "header par bct type n d"
  have l: "int (length (frame mark par bct type n d)) = int (length ?h) + ?j + 1"
    using check_of_length [OF assms(1)] assms(1) by (auto simp: frame_def Let_def)
  show ?thesis
  proof (cases "?j + 2 > 94")
    case True
    have d: "0 \<le> ?j div 95" "?j div 95 \<le> 94" "0 \<le> ?j mod 95" "?j mod 95 \<le> 94" using assms(1,4) by auto
    have z: "tochar 0 AND 0x7F = tochar 0" by (rule tochar_7) simp_all
    have q: "frame mark par bct type n d ! 1 = tochar 0" "frame mark par bct type n d ! 4 = tochar (?j div 95)"
      "frame mark par bct type n d ! 5 = tochar (?j mod 95)" "frame mark par bct type n d ! 0 = mark"
      using True by (simp_all add: frame_def header_def Let_def numeral_eq_Suc)
    have "?j div 95 * 95 + ?j mod 95 = ?j" by simp
    then show ?thesis
      using l True header_shape(3) [where par = par and type = type, OF assms refl] d z
      by (auto simp: framed_def plen_def Let_def q tochar_7 xunchar_tochar simp del: One_nat_def)
  next
    case False
    have q: "frame mark par bct type n d ! 1 = tochar (?j + 2)" "frame mark par bct type n d ! 0 = mark"
      using False by (simp_all add: frame_def header_def Let_def)
    have "0 \<le> ?j + 2" "?j + 2 \<le> 94" using False assms(1) by auto
    then have "xunchar (tochar (?j + 2) AND 0x7F) = ?j + 2" by (simp add: tochar_7 xunchar_tochar)
    then show ?thesis
      using l False header_shape(3) [where par = par and type = type, OF assms refl] assms(1)
      by (auto simp: framed_def plen_def Let_def q simp del: One_nat_def)
  qed
qed

lemma long_header_ok:
  assumes "take 7 (rcvpkt s) = m # header par bct type n d" "int (length d) + bct + 2 > 94"
    "par = (parity s \<noteq> 0)" "bct = bctu s" "bct \<in> {1, 2, 3}" "int (length d) + bct \<le> 9024" "7 \<le> rpktl" "7 \<le> length (rcvpkt s)"
  shows "long_header s rpktl = Ret True (s\<lparr>rln := int (length d)\<rparr>)"
proof -
  let ?p = "rcvpkt s" and ?j = "int (length d) + bct"
  define h where "h = [tochar 0, tochar n, type, tochar (?j div 95), tochar (?j mod 95)]"
  have t: "take 7 ?p = m # h @ [tochar (uint (chk1 par h))]"
    using assms(1,2) by (simp add: header_def Let_def h_def)
  then obtain w where w: "?p = m # h @ tochar (uint (chk1 par h)) # w"
    using append_take_drop_id [of 7 ?p] by (metis append.assoc append_Cons append_Nil)
  have p: "?p ! 6 = tochar (uint (chk1 par h))" "?p ! 4 = tochar (?j div 95)" "?p ! 5 = tochar (?j mod 95)"
    "take 5 (drop 1 (?p[6 := 0])) = h" "?p[6 := 0, 6 := ?p ! 6] = ?p"
    by (simp_all add: w h_def numeral_eq_Suc)
  have c: "(word_of_int (xunchar (?p ! 6)) :: u32) = chk1 par h"
    unfolding p(1) using tochar_field [of 63 "chk1 par h"] by (simp add: chk1_bits)
  have "0 \<le> ?j div 95" "?j div 95 \<le> 94" "0 \<le> ?j mod 95" "?j mod 95 \<le> 94" using assms(5,6) by auto
  then have "xunchar (?p ! 4) * 95 + xunchar (?p ! 5) - bctu s = int (length d)"
    unfolding p(2,3) using assms(4) by (simp add: xunchar_tochar)
  moreover have "s\<lparr>rcvpkt := ?p, rln := x\<rparr> = s\<lparr>rln := x\<rparr>" for x by simp
  ultimately show ?thesis
    using assms(3,7,8) c p(4,5) by (simp add: long_header_def Let_def)
qed

text \<open>The bytes that come off the line for a frame \<open>q\<close> sent with parity \<open>xp\<close>.\<close>

definition marked :: "byte \<Rightarrow> byte list \<Rightarrow> byte list" where
  "marked xp q = (if xp \<noteq> 0 then map (dopar xp) q else q)"

lemma strip_marked:
  assumes "xp \<noteq> 0 \<longrightarrow> (\<forall>b \<in> set q. b AND 0x7F = b)"
  shows "map (strip (xp \<noteq> 0)) (marked xp q) = q"
  using assms by (auto simp: marked_def strip_def dopar_strips intro!: map_idI)

lemma rpacket_frame:
  assumes "bctu r \<in> {1, 2, 3}" "0 \<le> n" "n \<le> 63" "int (length d) + 10 \<le> maxrp r" "maxrp r \<le> 9000" "length (rcvpkt r) = 9016"
    and q: "q = frame (rmark r) (parity r \<noteq> 0) (bctu r) type n d"
    and "bctu r = 2 \<longrightarrow> chksum (parity r \<noteq> 0) (header (parity r \<noteq> 0) 2 type n d @ d) < 4096"
    and "3 \<notin> insert (rmark r) (insert type (set d))" "map (strip (parity r \<noteq> 0)) cs = q"
    and "\<forall>c \<in> set pad. strip (parity r \<noteq> 0) c \<noteq> rmark r \<and> strip (parity r \<noteq> 0) c \<noteq> 3"
    and "line_in r = map Rbyte (pad @ cs) @ es"
  shows "\<exists>p i. rpacket r = Ret type (r\<lparr>rsn := n, rln := int (length d), rcvpkt := p, line_in := es, rdatap := i,
      datalen := int (length d), recvtype := type\<rparr>) \<and> take (length d) (drop i p) = d \<and> length p = 9016"
proof -
  let ?par = "parity r \<noteq> 0" and ?b = "bctu r"
  let ?h = "header ?par ?b type n d"
  let ?r0 = "r\<lparr>rsn := -1, rln := -1, rcvpkt := (rcvpkt r)[0 := 0]\<rparr>"
  have d: "int (length d) + ?b \<le> 9024" using assms(1,4,5) by auto
  note hs = header_shape [where par = ?par and type = type, OF assms(1-3) d refl]
  have qq: "q = rmark r # (?h @ d) @ check_of ?b ?par (?h @ d)" by (simp add: q frame_def Let_def)
  have lq: "int (length q) = int (length ?h) + int (length d) + ?b + 1"
    using check_of_length [OF assms(1)] assms(1) by (auto simp: qq)
  have "3 \<notin> set (check_of ?b ?par (?h @ d))" using check_of_bytes [OF assms(1)] by fastforce
  then have q3: "3 \<notin> set q" using assms(9) hs(4) by (auto simp: qq)
  have fr: "framed (rmark ?r0) q" using frame_framed [OF assms(1-3) d] q by simp
  have "length q < length (rcvpkt ?r0)" "int (length q) \<le> maxrp r"
    using lq hs(3) assms(1,4-6) by (auto split: if_splits)
  from ttinl_reads [OF fr this q3, of cs pad es "timint r"] assms(10-12) obtain p where
    p: "ttinl (maxrp r) (timint r) (rmark r) 0 ?r0 = Ret (int (length q)) (?r0\<lparr>rcvpkt := p, line_in := es\<rparr>)"
      "take (length q) p = q" "length p = 9016" by (auto simp: assms(6))
  define r1 where "r1 = ?r0\<lparr>rcvpkt := p, line_in := es\<rparr>"
  have l5: "5 \<le> length q" using fr by (simp add: framed_def)
  have p1: "p ! 1 = q ! 1" using p(2) l5 nth_take [of 1 "length q" p] by simp
  let ?s = "r1\<lparr>rln := int (length d)\<rparr>"
  define off :: nat where "off = (if int (length d) + ?b + 2 > 94 then 3 else 0)"
  have l: "length ?h = 3 + off" using hs(3) by (simp add: off_def)
  have r1: "parity r1 = parity r" "bctu r1 = ?b" "rcvpkt r1 = p" by (simp_all add: r1_def)
  have rp: "rpacket r = packet_fields off ?s"
  proof (cases "int (length d) + ?b + 2 > 94")
    case True
    then have "q ! 1 = tochar 0" by (simp add: qq header_def Let_def)
    then have z: "xunchar (p ! 1) = 0" using p1 by (simp add: xunchar_tochar)
    have l7: "length ?h = 6" "7 \<le> length q" using hs(3) True by (auto simp: qq)
    have "take 7 p = take 7 q" using p(2) l7 by (metis min.absorb1 take_take)
    also have "\<dots> = rmark r # ?h" using l7 by (simp add: qq)
    finally have t7: "take 7 (rcvpkt r1) = rmark r # ?h" by (simp add: r1)
    have "long_header r1 (length q) = Ret True ?s"
      by (rule long_header_ok [OF t7 True _ _ assms(1) d l7(2)]) (simp_all add: r1 p(3))
    then show ?thesis
      using p(1) z l5 True by (simp add: rpacket_def Let_def r1_def off_def)
  next
    case False
    then have "q ! 1 = tochar (int (length d) + ?b + 2)" by (simp add: qq header_def Let_def)
    then have "xunchar (p ! 1) = int (length d) + ?b + 2" using p1 False assms(1) by (auto simp: xunchar_tochar)
    then show ?thesis
      using p(1) l5 False assms(1) by (auto simp: rpacket_def Let_def r1_def off_def)
  qed
  have "packet_fields off ?s = Ret type (?s\<lparr>rsn := n, rdatap := 4 + off,
      rcvpkt := (rcvpkt ?s)[4 + off + length d := 0], datalen := int (length d), recvtype := type\<rparr>)" (is "_ = Ret type ?t")
  proof (rule packet_fields_ok)
    show "take (length q) (rcvpkt ?s) = q" "length q < length (rcvpkt ?s)"
      using p(2,3) \<open>length q < length (rcvpkt ?r0)\<close> assms(6) by (simp_all add: r1)
    show "q = rmark r # (?h @ d) @ check_of (bctu ?s) (parity ?s \<noteq> 0) (?h @ d)" using qq by (simp add: r1)
    show "length ?h = 3 + off" by (rule l)
  qed (use assms(1-3,8) hs(1,2) in \<open>simp_all add: r1\<close>)
  moreover have "rdata ?t = d"
  proof -
    have "4 + off + length d \<le> length q" using lq l assms(1) by auto
    then have "take (4 + off + length d) p = take (4 + off + length d) q" using p(2) by (metis min.absorb1 take_take)
    also have "\<dots> = (rmark r # ?h) @ d"
    proof -
      have "length ((rmark r # ?h) @ d) = 4 + off + length d" using l by simp
      moreover have "q = ((rmark r # ?h) @ d) @ check_of ?b ?par (?h @ d)" using qq by simp
      ultimately show ?thesis by (metis append_eq_conv_conj)
    qed
    finally have "take (length d) (drop (4 + off) p) = d"
      using l drop_take [of "4 + off" "4 + off + length d" p] by (simp add: drop_Cons')
    then show ?thesis by (simp add: rdata_def r1 drop_update_swap)
  qed
  moreover have "?t = r\<lparr>rsn := n, rln := int (length d), rcvpkt := p[4 + off + length d := 0], line_in := es,
      rdatap := 4 + off, datalen := int (length d), recvtype := type\<rparr>" by (simp add: r1_def)
  ultimately show ?thesis unfolding rp using p(3)
    by (intro exI [of _ "p[4 + off + length d := 0]"] exI [of _ "4 + off"]) (simp add: rdata_def r1)
qed

section \<open>Sending\<close>

lemma ttol_loop_spec:
  "ttol_loop p m n out ws = (x, out', ws') \<Longrightarrow>
    x = int (m + n) \<and> out' = out @ take n (drop m p) \<or>
    x = -1 \<and> (\<exists>k \<le> n. out' = out @ take k (drop m p))"
proof (induction p m n out ws rule: ttol_loop.induct)
  case (2 p m n out w ws)
  show ?case
  proof (cases "n = 0")
    case False
    show ?thesis
    proof (cases w)
      case (Wrote i)
      define j where "j = min i n"
      show ?thesis
      proof (cases "j = n")
        case True
        then show ?thesis using "2.prems" False Wrote by (auto simp: j_def Let_def)
      next
        case jn: False
        then have lt: "j < n" and i: "min i n = j" "j = i" by (auto simp: j_def min_def split: if_splits)
        have "ttol_loop p (m + j) (n - j) (out @ take j (drop m p)) ws = (x, out', ws')"
          using "2.prems" False Wrote lt i by (simp add: Let_def)
        from "2.IH"(1) [OF False Wrote j_def refl jn this]
        consider "x = int (m + n)" "out' = out @ take j (drop m p) @ take (n - j) (drop (m + j) p)"
          | k where "x = -1" "k \<le> n - j" "out' = out @ take j (drop m p) @ take k (drop (m + j) p)"
          using lt by auto
        then show ?thesis
        proof cases
          case 1
          have "take n (drop m p) = take j (drop m p) @ take (n - j) (drop (m + j) p)"
            using lt take_add [of j "n - j" "drop m p"] by (simp add: add.commute)
          with 1 show ?thesis by simp
        next
          case 2
          have "take (j + k) (drop m p) = take j (drop m p) @ take k (drop (m + j) p)"
            using take_add [of j k "drop m p"] by (simp add: add.commute)
          with 2 lt show ?thesis by (intro disjI2 conjI exI [of _ "j + k"]) auto
        qed
      qed
    next
      case Wouldblock
      then show ?thesis using 2 False by auto
    next
      case Werror
      then show ?thesis using "2.prems" False by (intro disjI2) (auto intro: exI [of _ 0])
    qed
  qed (use "2.prems" in auto)
qed auto

text \<open>
  \<open>ttol\<close> puts the packet on the line, with its parity bits, in order and without
  gaps or repeats however \<open>write\<close> splits it, and returns its length; or it returns -1 and what
  reached the line is a prefix of the packet.
\<close>

lemma ttol_delivers:
  assumes "ttol len s = (x, s')" "len \<le> length (sndpkt s)"
  shows "x = int len \<and> line_out s' = line_out s @ marked (parity s) (take len (sndpkt s)) \<or>
     x = -1 \<and> (\<exists>k \<le> len. line_out s' = line_out s @ take k (marked (parity s) (take len (sndpkt s))))"
proof -
  let ?m = "marked (parity s) (take len (sndpkt s))"
  define p where "p = (if parity s \<noteq> 0 then map (dopar (parity s)) (take len (sndpkt s)) @ drop len (sndpkt s) else sndpkt s)"
  have tk: "take k p = take k ?m" if "k \<le> len" for k
    using that assms(2) by (auto simp: p_def marked_def)
  obtain out ws where "ttol_loop p 0 len (line_out s) (wresults s) = (x, out, ws)" "line_out s' = out"
    using assms(1) by (auto simp: ttol_def Let_def p_def split: prod.splits)
  from ttol_loop_spec [OF this(1)] this(2) show ?thesis
    using tk assms(2) by (auto simp: marked_def)
qed

text \<open>
  C2. A packet that \<open>spacket\<close> delivers to the line is received intact by a
  receiver with the same mark, parity and block check: \<open>rpacket\<close> skips the padding, finds the end of
  the packet by its length field, accepts the block check and returns the type, the sequence number
  and the data, short and long packets alike, leaving only the line terminator on the line. With
  block check type 1 any padding may precede it; types 2 and 3 need a sender that does not pad, and
  type 2 a packet whose sum fits twelve bits. With a parity the characters have to be seven bits.
\<close>

theorem packet_roundtrip:
  fixes s :: "'a kcomm_scheme" and r :: "'b kcomm_scheme"
  assumes "spacket type n d s = Ret x s'" "x > -1" "line_out s = []"
    and "line_in r = map Rbyte (line_out s') @ es" "rmark r = smark s" "parity r = parity s" "bctu r = bctu s"
    and "bctu s \<in> {1, 2, 3}" "bctu s = 1 \<or> spadn s \<le> 0"
    and "bctu s = 2 \<longrightarrow> chksum (parity s \<noteq> 0) (header (parity s \<noteq> 0) 2 type n d @ d) < 4096"
    and "0 \<le> n" "n \<le> 63" "int (length d) + 10 \<le> maxrp r" "maxrp r \<le> 9000" "length (rcvpkt r) = 9016"
    and "3 \<notin> insert (smark s) (insert type (set d))"
    and "strip (parity s \<noteq> 0) (spadc s) \<noteq> smark s" "strip (parity s \<noteq> 0) (spadc s) \<noteq> 3"
    and "parity s \<noteq> 0 \<longrightarrow> (\<forall>b \<in> insert (smark s) (insert type (set d)). b < 127)"
  shows "\<exists>r' eol. rpacket r = Ret type r' \<and> rsn r' = n \<and> rln r' = int (length d) \<and> rdata r' = d \<and>
    line_in r' = Rbyte eol # es"
proof -
  let ?xp = "parity s"
  let ?q = "frame (smark s) (?xp \<noteq> 0) (bctu s) type n d" and ?pad = "replicate (nat (spadn s)) (spadc s)"
  define p where "p = packet s type n d"
  have p: "p = ?pad @ ?q @ [seol s]" using packet_frame [OF assms(9)] by (simp add: p_def)
  define s1 where "s1 = s\<lparr>sndpkt := store (sndpkt s) 0 (p @ [0]), sndpkl := length p\<rparr>"
  from assms(1) obtain s2 where t: "ttol (length p) s1 = (x, s2)" "line_out s' = line_out s2" "length p < length (sndpkt s)"
    by (auto simp: spacket_def Let_def p_def s1_def split: if_splits prod.splits)
  have "take (length p) (sndpkt s1) = p" using t(3) by (simp add: s1_def store_eq del: store.simps)
  with ttol_delivers [OF t(1)] t(2,3) assms(2,3) have out: "line_out s' = marked ?xp p" by (simp add: s1_def)
  have mk: "marked ?xp (xs @ ys) = marked ?xp xs @ marked ?xp ys" for xs ys by (simp add: marked_def)
  obtain e where e: "marked ?xp [seol s] = [e]" by (cases "?xp = 0") (simp_all add: marked_def)
  have li: "line_in r = map Rbyte (marked ?xp ?pad @ marked ?xp ?q) @ Rbyte e # es"
    using assms(4) out e by (simp add: p mk)
  have d: "int (length d) + bctu s \<le> 9024" using assms(8,13,14) by auto
  have "b AND 0x7F = b" if "?xp \<noteq> 0" "b \<in> set ?q" for b
  proof (rule byte_low7)
    have "b \<in> set (check_of (bctu s) (?xp \<noteq> 0) (header (?xp \<noteq> 0) (bctu s) type n d @ d)) \<Longrightarrow> b < 96"
      using check_of_bytes [OF assms(8)] by blast
    moreover have "b \<in> set (header (?xp \<noteq> 0) (bctu s) type n d) \<Longrightarrow> b = type \<or> b < 127"
      using header_shape(4) [OF assms(8,11,12) d refl] by blast
    moreover have "b < 96 \<Longrightarrow> b < 127" by (simp add: word_less_nat_alt)
    ultimately show "b < 127" using that assms(19) by (auto simp: frame_def Let_def)
  qed
  then have cs: "map (strip (?xp \<noteq> 0)) (marked ?xp ?q) = ?q" by (intro strip_marked) blast
  have pd: "\<forall>c \<in> set (marked ?xp ?pad). strip (?xp \<noteq> 0) c \<noteq> smark s \<and> strip (?xp \<noteq> 0) c \<noteq> 3"
    using assms(17,18) by (auto simp: marked_def strip_def dopar_strips split: if_splits)
  have "\<exists>p i. rpacket r = Ret type (r\<lparr>rsn := n, rln := int (length d), rcvpkt := p, line_in := Rbyte e # es, rdatap := i,
      datalen := int (length d), recvtype := type\<rparr>) \<and> take (length d) (drop i p) = d \<and> length p = 9016"
    by (rule rpacket_frame [of r n d ?q type "marked ?xp ?q" "marked ?xp ?pad"])
       (use assms(5-8,10-16) cs pd li in simp_all)
  then show ?thesis by (auto simp: rdata_def)
qed

definition comm0 :: "byte \<Rightarrow> int \<Rightarrow> lineev list \<Rightarrow> kcomm" where
  "comm0 xp bct es = kdec.extend (receiver0 True True)
     \<lparr>parity = xp, spadn = 0, spadc = 0, smark = 1, seol = 13, bctu = bct, sndpkt = replicate 9016 0, sndpkl = 0,
      sendtype = 0, rcvpkt = replicate 9016 0, maxrp = 9000, timint = 9, reol = 13, rmark = 1, rln = 0, rsn = 0,
      rdatap = 0, datalen = 0, recvtype = 0, seq = 0, retries = 0, line_out = [], wresults = [], line_in = es, nonblock = True\<rparr>"

lemma comm0_spacket:
  "length (packet (comm0 xp bct es) type n d) < 9016 \<Longrightarrow>
   \<exists>s'. spacket type n d (comm0 xp bct es) = Ret (int (length (packet (comm0 xp bct es) type n d))) s'"
  by (auto simp: spacket_def ttol_def comm0_def receiver0_def sender0_def zopened_def zin.defs kenc.defs kdec.defs Let_def)

theorem packet_roundtrip_witness:
  "\<exists>r' eol s'. spacket 68 5 [65, 66] (comm0 101 3 []) = Ret 10 s' \<and>
     rpacket (comm0 101 3 (map Rbyte (line_out s'))) = Ret 68 r' \<and> rsn r' = 5 \<and> rdata r' = [65, 66] \<and> line_in r' = [Rbyte eol]"
proof -
  have l: "length (packet (comm0 101 3 []) 68 5 [65, 66]) = 10"
    by (simp add: packet_def packet_body_def comm0_def kdec.defs block_check_def Let_def)
  then obtain s' where s': "spacket 68 5 [65, 66] (comm0 101 3 []) = Ret 10 s'"
    using comm0_spacket [of 101 3 "[]" 68 5 "[65, 66]"] by auto
  have c: "parity (comm0 101 3 es) = 101" "bctu (comm0 101 3 es) = 3" "smark (comm0 101 3 es) = 1" "rmark (comm0 101 3 es) = 1"
    "spadn (comm0 101 3 es) = 0" "spadc (comm0 101 3 es) = 0" "line_out (comm0 101 3 es) = []" "line_in (comm0 101 3 es) = es"
    "maxrp (comm0 101 3 es) = 9000" "length (rcvpkt (comm0 101 3 es)) = 9016" for es
    by (simp_all add: comm0_def kdec.defs)
  show ?thesis
    using packet_roundtrip [of 68 5 "[65, 66]" "comm0 101 3 []" 10 s' "comm0 101 3 (map Rbyte (line_out s'))" "[]"] s'
    by (auto simp: c strip_def)
qed

section \<open>Malformed packets\<close>

text \<open>
  What the loop of \<open>ttinl\<close> knows of any characters, well formed or not: the length it waits for is
  the one its buffer announces, and it has not gone past it.
\<close>

definition seven_bit :: "byte list \<Rightarrow> bool" where
  "seven_bit bs \<longleftrightarrow> (\<forall>b \<in> set bs. b AND 0x7F = b)"

definition inl_ok :: "nat \<Rightarrow> inl \<Rightarrow> bool" where
  "inl_ok N r \<longleftrightarrow> length (dest r) = N \<and> inl_n r < N \<and> inl_c r AND 0x7F = inl_c r \<and> seven_bit (take (inl_n r) (dest r)) \<and>
     (let l = xunchar (dest r ! 1 AND 0x7F); x = xunchar (dest r ! 4 AND 0x7F) * 95 + xunchar (dest r ! 5 AND 0x7F) + 5
      in if havelen r then
           l > 1 \<and> 2 \<le> inl_n r \<and> pktlen r = l \<or> l = 0 \<and> 6 \<le> inl_n r \<and> pktlen r = x
         else pktlen r \<le> 1 \<and> (inl_n r < 2 \<longrightarrow> pktlen r = 0) \<and> (2 \<le> inl_n r \<longrightarrow> pktlen r = l) \<and>
              (pktlen r = 0 \<longrightarrow> inl_n r < 6 \<and> (inl_n r = 5 \<longrightarrow> lplen r = xunchar (dest r ! 4 AND 0x7F))))"

lemma inl_length_ok:
  assumes "inl_ok N r" "c AND 0x7F = c" "Suc (inl_n r) < N"
  shows "inl_ok N (inl_length (r\<lparr>inl_flag := True, dest := (dest r)[inl_n r := c], inl_n := Suc (inl_n r)\<rparr>))" (is "inl_ok N ?r")
proof -
  let ?d = "(dest r)[inl_n r := c]"
  have "take (Suc (inl_n r)) ?d = take (inl_n r) (dest r) @ [c]"
    using assms by (simp add: inl_ok_def take_Suc_update)
  then have "seven_bit (take (Suc (inl_n r)) ?d)"
    using assms(1,2) by (auto simp: inl_ok_def seven_bit_def)
  moreover have "i < inl_n r \<Longrightarrow> ?d ! i = dest r ! i" for i by simp
  then have n: "1 < inl_n r \<Longrightarrow> ?d ! 1 = dest r ! 1" "4 < inl_n r \<Longrightarrow> ?d ! 4 = dest r ! 4" "5 < inl_n r \<Longrightarrow> ?d ! 5 = dest r ! 5"
    by blast+
  ultimately show ?thesis
  proof (cases "havelen r")
    case True
    then show ?thesis
      using assms n \<open>seven_bit _\<close> by (auto simp: inl_ok_def inl_length_def Let_def)
  next
    case False
    consider "inl_n r = 0" | "inl_n r = 1" | "2 \<le> inl_n r" "pktlen r \<noteq> 0" | "2 \<le> inl_n r" "inl_n r \<le> 3" "pktlen r = 0"
      | "inl_n r = 4" "pktlen r = 0" | "inl_n r = 5" "pktlen r = 0"
      using assms(1) False by (fastforce simp: inl_ok_def Let_def)
    then show ?thesis
      using assms n False \<open>seven_bit _\<close> by cases (auto simp: inl_ok_def inl_length_def Let_def)
  qed
qed

definition inl_done :: "nat \<Rightarrow> nat \<Rightarrow> byte list \<Rightarrow> bool" where
  "inl_done N n p \<longleftrightarrow> length p = N \<and> n < N \<and> seven_bit (take n p) \<and> p ! n = 0 \<and>
     (let l = xunchar (p ! 1 AND 0x7F); x = xunchar (p ! 4 AND 0x7F) * 95 + xunchar (p ! 5 AND 0x7F) + 5
      in l > 1 \<and> int n = l + 2 \<or> l = 0 \<and> 6 \<le> n \<and> (n = 6 \<or> int n = x + 2))"

lemma ttinl_char_ok:
  assumes "inl_ok N r" "havelen r \<longrightarrow> int (inl_n r) \<le> pktlen r + 1" "strip par c AND 0x7F = strip par c" "maxn + 1 < int N"
  obtains rc r' where "ttinl_char par maxn soh 0 c r = Ret rc r'" "rc \<in> {None, Some 0, Some (-2), Some (-9)}"
    "rc = None \<longrightarrow> inl_ok N r' \<and> (havelen r' \<longrightarrow> int (inl_n r') \<le> pktlen r' + 1)"
    "rc = Some 0 \<longrightarrow> inl_done N (inl_n r') (dest r')"
proof -
  define c' where "c' = strip par c"
  have c: "(if par then c AND 0x7F else c) = c'" by (simp add: c'_def strip_def)
  define r0 where "r0 = r\<lparr>inl_c := c', ccn := (if c' = 3 then Suc (ccn r) else 0)\<rparr>"
  define r1 where "r1 = inl_length (r0\<lparr>inl_flag := True, dest := (dest r0)[inl_n r0 := c'], inl_n := Suc (inl_n r0)\<rparr>)"
  have r0: "inl_ok N r0" "havelen r0 \<longrightarrow> int (inl_n r0) \<le> pktlen r0 + 1" "inl_n r0 = inl_n r" "inl_flag r0 = inl_flag r"
    using assms(1-3) by (simp_all add: r0_def inl_ok_def c'_def Let_def)
  have N: "length (dest r0) = N" "0 < N" "length (dest r1) = N" "inl_n r1 = Suc (inl_n r)" "inl_n r < N"
    using assms(1) by (auto simp: r0_def r1_def inl_ok_def inl_length_frame)
  have step: "ttinl_char par maxn soh 0 c r =
    (if c' = 3 \<and> ccn r0 > 2 then Ret (Some (-9)) (r0\<lparr>inl_n := 0, dest := (dest r0)[0 := 0]\<rparr>)
     else if \<not> inl_flag r0 \<and> c' \<noteq> soh then Ret None r0
     else if int (inl_n r0) \<ge> maxn then Ret (Some (-2)) (r0\<lparr>inl_flag := True\<rparr>)
     else if havelen r1 \<and> int (inl_n r1) > pktlen r1 + 1 then Ret (Some 0) (r1\<lparr>dest := (dest r1)[inl_n r1 := 0]\<rparr>)
     else Ret None r1)"
    proof (cases "int (inl_n r) \<ge> maxn")
    case True
    then show ?thesis unfolding ttinl_char_def c Let_def using N(1,2) by (simp add: r0_def) blast
  next
    case False
    then have "\<not> N \<le> inl_n r" "\<not> N \<le> Suc (inl_n r)" "length (dest r) = N" "dest r \<noteq> []"
      using N(1,2) assms(4) by (auto simp: r0_def)
    then show ?thesis using False unfolding ttinl_char_def c Let_def by (simp add: r0_def r1_def inl_length_frame)
  qed
  have r1: "inl_ok N r1" if "\<not> int (inl_n r0) \<ge> maxn"
    unfolding r1_def by (rule inl_length_ok [OF r0(1)]) (use that assms(3,4) in \<open>auto simp: c'_def\<close>)
  have "inl_done N (inl_n r1) ((dest r1)[inl_n r1 := 0])"
    if "\<not> int (inl_n r0) \<ge> maxn" "havelen r1" "int (inl_n r1) > pktlen r1 + 1"
  proof -
    have k: "havelen r0 \<Longrightarrow> pktlen r1 = pktlen r0" by (simp add: r1_def inl_length_def)
    have h: "\<not> havelen r0 \<Longrightarrow> inl_n r1 = 6 \<or> inl_n r1 = 2 \<and> pktlen r1 > 1"
      using that(2) by (auto simp: r1_def inl_length_def Let_def split: if_splits)
    have e: "int (inl_n r1) = pktlen r1 + 2 \<or> inl_n r1 = 6 \<and> \<not> havelen r0"
      using k h that(3) r0(2) N(4) r0(3) by fastforce
    have "\<not> havelen r0 \<Longrightarrow> inl_n r1 = 6 \<Longrightarrow> pktlen r0 = 0 \<and> xunchar (dest r1 ! 1 AND 0x7F) = 0"
      using that(2) r1 [OF that(1)] r0(1) by (auto simp: r1_def inl_length_def inl_ok_def Let_def split: if_splits)
    with e show ?thesis using r1 [OF that(1)] that(2)
      by (auto simp: inl_done_def inl_ok_def Let_def)
  qed
  with step r0 r1 show ?thesis using that by (auto split: if_splits)
qed

lemma ttinl_loop_done:
  assumes "inl_ok N r" "havelen r \<longrightarrow> int (inl_n r) \<le> pktlen r + 1"
    "par \<or> (\<forall>c. Rbyte c \<in> set es \<longrightarrow> c AND 0x7F = c)" "maxn + 1 < int N"
  shows "ttinl_loop nb par maxn timo soh 0 es r = Hang \<or>
    (\<exists>rc es' r'. ttinl_loop nb par maxn timo soh 0 es r = Ret (rc, es') r' \<and> (rc > -1 \<longrightarrow> inl_done N (inl_n r') (dest r')))"
  using assms
proof (induction nb par maxn timo soh "0 :: byte" es r rule: ttinl_loop.induct)
  case (5 nb par maxn timo soh es r)
  have "strip par (inl_c r) AND 0x7F = strip par (inl_c r)"
    using "5.prems"(1) by (auto simp: strip_def and.assoc inl_ok_def)
  then obtain rc r' where "ttinl_char par maxn soh 0 (inl_c r) r = Ret rc r'"
    "rc \<in> {None, Some 0, Some (-2), Some (-9)}" "rc = None \<longrightarrow> inl_ok N r' \<and> (havelen r' \<longrightarrow> int (inl_n r') \<le> pktlen r' + 1)"
    "rc = Some 0 \<longrightarrow> inl_done N (inl_n r') (dest r')" by (rule ttinl_char_ok [where soh = soh, OF "5.prems"(1,2) _ "5.prems"(4)])
  then show ?case using 5 by (auto split: option.splits)
next
  case (6 nb par maxn timo soh c es r)
  have "strip par c AND 0x7F = strip par c" using "6.prems"(3) by (auto simp: strip_def and.assoc)
  then obtain rc r' where "ttinl_char par maxn soh 0 c r = Ret rc r'"
    "rc \<in> {None, Some 0, Some (-2), Some (-9)}" "rc = None \<longrightarrow> inl_ok N r' \<and> (havelen r' \<longrightarrow> int (inl_n r') \<le> pktlen r' + 1)"
    "rc = Some 0 \<longrightarrow> inl_done N (inl_n r') (dest r')" by (rule ttinl_char_ok [where soh = soh, OF "6.prems"(1,2) _ "6.prems"(4)])
  then show ?case using 6 by (auto split: option.splits)
qed (auto split: if_splits)

lemma ttinl_done:
  assumes "length (rcvpkt s) = N" "0 < N" "maxn + 1 < int N" "parity s \<noteq> 0 \<or> (\<forall>c. Rbyte c \<in> set (line_in s) \<longrightarrow> c < 127)"
  shows "ttinl maxn timo soh 0 s \<noteq> Wild"
    and "ttinl maxn timo soh 0 s = Ret j t \<Longrightarrow> j > -1 \<Longrightarrow> \<exists>n p es. j = int n \<and> t = s\<lparr>rcvpkt := p, line_in := es\<rparr> \<and> inl_done N n p"
proof -
  let ?l = "ttinl_loop (nonblock s) (parity s \<noteq> 0) maxn (timo \<noteq> 0) soh 0 (line_in s) (inl0 (rcvpkt s))"
  have ok: "inl_ok N (inl0 (rcvpkt s))" using assms(1,2) by (simp add: inl_ok_def inl0_def seven_bit_def Let_def)
  have "parity s \<noteq> 0 \<or> (\<forall>c. Rbyte c \<in> set (line_in s) \<longrightarrow> c AND 0x7F = c)"
    using assms(4) byte_low7 by blast
  then have l: "?l = Hang \<or> (\<exists>rc es r. ?l = Ret (rc, es) r \<and> (rc > -1 \<longrightarrow> inl_done N (inl_n r) (dest r)))"
    using ttinl_loop_done [OF ok _ _ assms(3)] by (simp add: inl0_def)
  show "ttinl maxn timo soh 0 s \<noteq> Wild" using l assms(1,2) by (auto simp: ttinl_def Let_def split: if_splits)
  show "ttinl maxn timo soh 0 s = Ret j t \<Longrightarrow> j > -1 \<Longrightarrow> \<exists>n p es. j = int n \<and> t = s\<lparr>rcvpkt := p, line_in := es\<rparr> \<and> inl_done N n p"
    using l assms(1,2) by (fastforce simp: ttinl_def Let_def split: if_splits)
qed

lemma inl_done_nth: "inl_done N n p \<Longrightarrow> i < n \<Longrightarrow> p ! i AND 0x7F = p ! i"
  unfolding inl_done_def seven_bit_def by (metis in_set_conv_nth length_take min_less_iff_conj nth_take order.strict_trans)

lemma packet_fields_safe:
  assumes "0 \<le> rln s + 4 + int off" "rln s + 4 + int off + bctu s \<le> int (length (rcvpkt s))" "bctu s \<in> {1, 2, 3}"
  shows "packet_fields off s \<noteq> Wild"
  using assms by (auto simp: packet_fields_def Let_def)

text \<open>
  C4. \<open>rpacket\<close> never touches memory outside the receive buffer, neither when
  \<open>ttinl\<close> stores the characters it reads nor when the fields are taken apart, whatever comes
  down the line (noise, truncated or malformed packets, wrong lengths, empty reads), when the characters are
  seven-bit: a parity is in use, or no character has its eighth bit set.
\<close>

theorem rpacket_memory_safe:
  assumes "length (rcvpkt s) = 9016" "maxrp s \<le> 9000" "bctu s \<in> {1, 2, 3}"
    "parity s \<noteq> 0 \<or> (\<forall>c. Rbyte c \<in> set (line_in s) \<longrightarrow> c < 127)"
  shows "rpacket s \<noteq> Wild"
proof
  define s0 where "s0 = s\<lparr>rsn := -1, rln := -1, rcvpkt := (rcvpkt s)[0 := 0]\<rparr>"
  assume "rpacket s = Wild"
  moreover have "ttinl (maxrp s) (timint s) (rmark s) 0 s0 \<noteq> Wild"
    by (rule ttinl_done(1) [of _ 9016]) (use assms(1,2,4) in \<open>auto simp: s0_def\<close>)
  ultimately obtain j t where t: "ttinl (maxrp s) (timint s) (rmark s) 0 s0 = Ret j t" "\<not> j < 5"
    and w: "if xunchar (rcvpkt t ! 1) = 0 then
        kbind (long_header t (nat j)) (\<lambda>ok s. if ok then packet_fields 3 s else Ret 81 s) = Wild
      else \<not> xunchar (rcvpkt t ! 1) < 3 \<and> packet_fields 0 (t\<lparr>rln := xunchar (rcvpkt t ! 1) - bctu t - 2\<rparr>) = Wild"
    by (auto simp: rpacket_def Let_def s0_def kbind_Wild_iff split: if_splits)
  obtain n p es where p: "j = int n" "t = s0\<lparr>rcvpkt := p, line_in := es\<rparr>" "inl_done 9016 n p"
    using ttinl_done(2) [OF _ _ _ _ t(1), of 9016] t(2) assms(1,2,4) by (auto simp: s0_def)
  have l: "length p = 9016" "n < 9016" "p ! n = 0" using p(3) by (auto simp: inl_done_def)
  have m: "p ! 1 AND 0x7F = p ! 1" "p ! 4 AND 0x7F = p ! 4" "5 < n \<Longrightarrow> p ! 5 AND 0x7F = p ! 5"
    using inl_done_nth [OF p(3)] t(2) p(1) by auto
  have b: "bctu t = bctu s" "rcvpkt t = p" by (simp_all add: p(2) s0_def)
  show False
  proof (cases "xunchar (p ! 1) = 0")
    case True
    then have n: "6 \<le> n" "n = 6 \<or> int n = xunchar (p ! 4) * 95 + xunchar (p ! 5) + 7"
      using p(3) m by (auto simp: inl_done_def Let_def)
    from w True have "kbind (long_header t n) (\<lambda>ok s. if ok then packet_fields 3 s else Ret 81 s) = Wild"
      by (simp add: b p(1))
    then obtain u where u: "long_header t n = Ret True u" "packet_fields 3 u = Wild"
      using l(1) b(2) by (auto simp: kbind_Wild_iff long_header_def Let_def split: if_splits)
    have h: "u = t\<lparr>rcvpkt := p[6 := p ! 6], rln := xunchar (p ! 4) * 95 + xunchar (p ! 5) - bctu s\<rparr>"
      "word_of_int (xunchar (p ! 6)) = chk1 (parity t \<noteq> 0) (take 5 (drop 1 (p[6 := 0])))"
      using u(1) b by (auto simp: long_header_def Let_def split: if_splits)
    have "n \<noteq> 6"
    proof
      assume "n = 6"
      then have "word_of_int (xunchar (p ! 6)) = (-32 :: u32)" using l(3) by (simp add: xunchar_def)
      moreover have "chk1 par q \<noteq> -32" for par q using chk1_range [of par q] by fastforce
      ultimately show False using h(2) by metis
    qed
    then have "packet_fields 3 u \<noteq> Wild"
      using n l assms(3) by (intro packet_fields_safe) (auto simp: h(1) b)
    with u(2) show False by simp
  next
    case False
    then have n: "\<not> xunchar (p ! 1) < 3" "packet_fields 0 (t\<lparr>rln := xunchar (p ! 1) - bctu t - 2\<rparr>) = Wild"
      using w by (auto simp: b)
    moreover have "int n = xunchar (p ! 1) + 2" using p(3) m False by (auto simp: inl_done_def Let_def)
    then have "packet_fields 0 (t\<lparr>rln := xunchar (p ! 1) - bctu t - 2\<rparr>) \<noteq> Wild"
      using n(1) l assms(3) by (intro packet_fields_safe) (auto simp: b)
    ultimately show False by simp
  qed
qed

theorem rpacket_memory_safe_witness: "rpacket (comm0 101 1 [Rbyte 1, Rbyte 160, Rbyte 255]) \<noteq> Wild"
  by (rule rpacket_memory_safe) (simp_all add: comm0_def kdec.defs)


text \<open>
  C34. After a packet went out with padding by NUL characters, which is the
  usual padding character, \<open>resend\<close> takes the packet buffer for empty and sends a NAK in place of
  the packet.
\<close>

theorem resend_after_nul_padding:
  assumes "spacket type n d s = Ret x s'" "spadn s > 0" "spadc s = 0" "parity s = 0"
  shows "resend s' = nak s'"
proof -
  let ?p = "packet s type n d"
  have l: "length ?p < length (sndpkt s)" and s': "sndpkt s' = store (sndpkt s) 0 (?p @ [0])"
    using assms(1,4) by (auto simp: spacket_def ttol_def Let_def split: if_splits prod.splits)
  have "?p = 0 # tl ?p"
    using assms(2,3) by (cases "nat (spadn s)") (auto simp: packet_def packet_body_def Let_def)
  then have "sndpkt s' ! 0 = 0"
    using l unfolding s' by (subst store_eq) (simp_all add: nth_append, metis list.size(3) nth_Cons_0)
  then show ?thesis by (simp add: resend_def)
qed

theorem resend_after_nul_padding_witness:
  "\<exists>s'. spacket 68 5 [65, 66] ((comm0 0 1 [])\<lparr>spadn := 2\<rparr>) = Ret 10 s' \<and> resend s' = nak s'"
proof -
  let ?s = "(comm0 0 1 [])\<lparr>spadn := 2\<rparr>"
  have "length (packet ?s 68 5 [65, 66]) = 10"
    by (simp add: packet_def packet_body_def comm0_def kdec.defs block_check_def Let_def)
  then obtain s' where s': "spacket 68 5 [65, 66] ?s = Ret 10 s'"
    by (auto simp: spacket_def ttol_def comm0_def kdec.defs Let_def)
  have "resend s' = nak s'"
    by (rule resend_after_nul_padding [OF s']) (simp_all add: comm0_def kdec.defs)
  with s' show ?thesis by blast
qed

end
