(* ===== verification/Kermit_Params.thy ===== *)
theory Kermit_Params
  imports Kermit_Packet
begin

text \<open>
  Parameter negotiation of gkermit.c: \<open>rpar\<close> builds the parameters a Kermit announces, \<open>spar\<close> sets
  the parameters from what the other announced, \<open>tinit\<close> resets them for a transaction.
\<close>

section \<open>Definitions\<close>

abbreviation MAXSP :: int where "MAXSP \<equiv> 9000"

record kpar = kcomm +
  spsiz :: int
  rpsiz :: int
  urpsiz :: int
  rtimo :: int
  rpadn :: int
  rpadc :: byte
  bctr :: int
  rqf :: int
  rq :: byte
  sq :: byte
  streamok :: int
  streaming :: bool
  manual :: bool
  literal :: bool
  longpackets :: bool
  attributes :: bool
  filnam :: "byte list"
  cx :: bool
  cz :: bool

text \<open>The test for a character that may serve as a prefix.\<close>

definition is_prefix_char :: "byte \<Rightarrow> bool" where
  "is_prefix_char x \<longleftrightarrow> 32 < x \<and> x < 63 \<or> 95 < x \<and> x < 127"

text \<open>
  \<open>spar\<close> field by field. \<open>d\<close> is the received data from \<open>rdatap\<close> on, and \<open>fld d k\<close> the field number
  \<open>k\<close>, which the code writes \<open>s[k]\<close> after stepping back by one.
\<close>

definition fld :: "byte list \<Rightarrow> int \<Rightarrow> byte" where
  "fld d k = d ! nat (k - 1)"

definition spar_sizes :: "byte list \<Rightarrow> 'a kpar_scheme \<Rightarrow> 'a kpar_scheme" where
  "spar_sizes d s =
     (let x = (if rln s \<ge> 1 then xunchar (fld d 1) else 80);
          s = s\<lparr>spsiz := (if x < 10 then 80 else x)\<rparr>;
          x = (if rln s \<ge> 2 then xunchar (fld d 2) else 5);
          s = (if timint s > 0 then s\<lparr>timint := (if x < 0 then 5 else x)\<rparr> else s);
          s = s\<lparr>spadn := 0, spadc := 0\<rparr>;
          s = (if rln s \<ge> 3 then s\<lparr>spadn := xunchar (fld d 3), spadc := (if rln s \<ge> 4 then ctl (fld d 4) else 0)\<rparr> else s);
          s = s\<lparr>seol := (if rln s \<ge> 5 then word_of_int (xunchar (fld d 5)) else 13)\<rparr>
      in if seol s < 2 \<or> seol s > 31 then s\<lparr>seol := 13\<rparr> else s)"

definition spar_prefixes :: "byte list \<Rightarrow> 'a kpar_scheme \<Rightarrow> 'a kpar_scheme" where
  "spar_prefixes d s =
     (let x = (if rln s \<ge> 6 then fld d 6 else 35);
          s = s\<lparr>rctlq := (if is_prefix_char x then x else 35)\<rparr>;
          s = s\<lparr>rq := (if rln s \<ge> 7 then fld d 7 else 0)\<rparr>;
          s = s\<lparr>rqf := (if rq s = 89 then 1 else if is_prefix_char (rq s) then 2 else 0)\<rparr>
      in if rqf s = 0 then s\<lparr>ebqflg := False\<rparr>
         else if rqf s = 1 then (if parity s \<noteq> 0 then s\<lparr>ebqflg := True, ebq := 38\<rparr> else s)
         else if ebq s = sq s \<or> sq s = 89 then s\<lparr>ebqflg := True, ebq := rq s\<rparr>
         else s\<lparr>ebqflg := False\<rparr>)"

definition spar_check :: "byte list \<Rightarrow> 'a kpar_scheme \<Rightarrow> 'a kpar_scheme" where
  "spar_check d s =
     (let x = (if rln s \<ge> 8 then (let x = uint (fld d 8) - 48 in if x < 1 \<or> x > 3 then 1 else x) else 1);
          x = (if bctr s > 1 \<and> bctr s \<noteq> x then 1 else x);
          s = s\<lparr>bctr := x\<rparr>
      in if rln s \<ge> 9 then s\<lparr>rptq := fld d 9, rptflg := is_prefix_char (fld d 9)\<rparr>
         else s\<lparr>rptflg := False\<rparr>)"

text \<open>The loop over the capability bytes: the first from \<open>k\<close> on whose low bit is clear.\<close>

function capas_end :: "byte list \<Rightarrow> int \<Rightarrow> int \<Rightarrow> int" where
  "capas_end d n k = (if n \<ge> k \<and> xunchar (fld d k) AND 1 \<noteq> 0 then capas_end d n (k + 1) else k)"
  by pat_completeness auto
termination
  by (relation "measure (\<lambda>(d, n, k). nat (n + 1 - k))") auto

declare capas_end.simps [simp del]

definition spar_capas :: "byte list \<Rightarrow> 'a kpar_scheme \<Rightarrow> int \<times> 'a kpar_scheme" where
  "spar_capas d s =
     (if rln s \<ge> 10 then
        (let x = xunchar (fld d 10);
             s = (if x AND 8 \<noteq> 0 then s\<lparr>attributes := True\<rparr> else s);
             s = (if x AND 2 \<noteq> 0 then s\<lparr>longpackets := True\<rparr> else s)
         in (capas_end d (rln s) 10, s))
      else (rln s, s))"

definition spar_long :: "byte list \<Rightarrow> int \<Rightarrow> 'a kpar_scheme \<Rightarrow> 'a kpar_scheme" where
  "spar_long d k s =
     (if rln s > k + 1 \<and> longpackets s then
        (let x = xunchar (fld d (k + 2)) * 95 + xunchar (fld d (k + 3));
             s = s\<lparr>spsiz := (if x > MAXSP then MAXSP else x)\<rparr>
         in if spsiz s < 10 then s\<lparr>spsiz := 80\<rparr> else s)
      else s)"

definition spar_whatami :: "byte list \<Rightarrow> int \<Rightarrow> 'a kpar_scheme \<Rightarrow> 'a kpar_scheme" where
  "spar_whatami d k s =
     (let s = (if rln s > k + 7 then
                 (let x = xunchar (fld d (k + 8))
                  in if streamok s > -1 \<and> x AND 32 \<noteq> 0 \<and> x AND 8 \<noteq> 0 then s\<lparr>streamok := 1\<rparr> else s)
               else s)
      in if rln s > k + 8 then
           (let x = xunchar (fld d (k + 9));
                k' = k + 9 + x
            in if x > 0 \<and> x < 16 \<and> rln s \<ge> k' \<and>
                  cstr (take (nat x) (drop (nat (k + 9)) d)) = [85, 49] \<and> \<not> manual s
               then s\<lparr>textmode := False, literal := True\<rparr> else s)
         else s)"

definition spar :: "byte list \<Rightarrow> 'a kpar_scheme \<Rightarrow> 'a kpar_scheme" where
  "spar d s =
     (let s = spar_check d (spar_prefixes d (spar_sizes d s))
      in case spar_capas d s of (k, s) \<Rightarrow> spar_whatami d k (spar_long d k s))"

text \<open>\<open>rpar\<close> fills \<open>xdata\<close> from index 1 and returns the string that starts there.\<close>

definition rpar_bid :: "'a kpar_scheme \<Rightarrow> 'a kpar_scheme" where
  "rpar_bid s = (if rqf s \<in> {-1, 1} \<and> parity s \<noteq> 0 then s\<lparr>ebq := 38, sq := 38\<rparr> else s)"

definition rpar_fields :: "'a kpar_scheme \<Rightarrow> byte list" where
  "rpar_fields s =
     [tochar (if rpsiz s > 94 then 94 else rpsiz s), tochar (rtimo s), tochar (rpadn s), ctl (rpadc s),
      tochar (uint (reol s)), 35, sq s, word_of_int (bctr s + 48), (if rptflg s then rptq s else 126),
      tochar (2 + 8), tochar 1]"

definition rpar_tail :: "'a kpar_scheme \<Rightarrow> byte list" where
  "rpar_tail s =
     (let x = (32 :: int);
          x = (if literal s then x OR 4 else x);
          x = (if \<not> textmode s then x OR 2 else x);
          x = (if streamok s > -1 then x OR 8 else x);
          y = (32 :: int);
          y = (if manual s then y OR 1 else y)
      in [48, 43, 43, 43, tochar x, tochar 2, 85, 49, tochar y])"

definition rpar :: "'a kpar_scheme \<Rightarrow> byte list \<times> 'a kpar_scheme" where
  "rpar s =
     (let s = rpar_bid s;
          s = s\<lparr>xdata := store (xdata s) 1 (rpar_fields s)\<rparr>;
          s = (if urpsiz s > 94 then
                 s\<lparr>xdata := store (xdata s) 12 [tochar (urpsiz s div 95), tochar (urpsiz s mod 95)]\<rparr> else s);
          s = s\<lparr>xdata := store (xdata s) 14 (rpar_tail s)\<rparr>
      in (cstr (drop 1 (xdata s)), s))"

definition tinit :: "'a kpar_scheme \<Rightarrow> 'a kpar_scheme" where
  "tinit s = s\<lparr>osp := None, cx := False, cz := False, bctu := 1, ebqflg := False, rptflg := False,
     sq := 89, rqf := -1, seq := 0, filnam := (filnam s)[0 := 0], sndpkt := (sndpkt s)[0 := 0],
     rcvpkt := (rcvpkt s)[0 := 0]\<rparr>"

section \<open>The parameters stay in range\<close>

definition par_ok :: "'a kpar_scheme \<Rightarrow> bool" where
  "par_ok s \<longleftrightarrow> 10 \<le> spsiz s \<and> spsiz s \<le> MAXSP \<and> bctr s \<in> {1, 2, 3} \<and> 2 \<le> seol s \<and> seol s \<le> 31 \<and>
     pfx_char (rctlq s) \<and> (ebqflg s \<longrightarrow> pfx_char (ebq s)) \<and> (rptflg s \<longrightarrow> pfx_char (rptq s))"

lemma is_prefix_char: "is_prefix_char = pfx_char"
  by (simp add: fun_eq_iff is_prefix_char_def pfx_char_def)

lemma xunchar_range: "xunchar c \<le> 223"
  unfolding xunchar_def using uint_byte_less [of c] by linarith

lemma spar_sizes_ok:
  "10 \<le> spsiz (spar_sizes d s)" "spsiz (spar_sizes d s) \<le> MAXSP" "2 \<le> seol (spar_sizes d s)" "seol (spar_sizes d s) \<le> 31"
proof -
  have "xunchar (fld d 1) \<le> MAXSP" using xunchar_range [of "fld d 1"] by simp
  then show "10 \<le> spsiz (spar_sizes d s)" "spsiz (spar_sizes d s) \<le> MAXSP" "2 \<le> seol (spar_sizes d s)" "seol (spar_sizes d s) \<le> 31"
    by (auto simp: spar_sizes_def Let_def not_less)
qed

definition prefixes :: "'a kpar_scheme \<Rightarrow> _" where
  "prefixes s = (rctlq s, ebqflg s, ebq s, rptflg s, rptq s, sctlq s)"

lemma spar_sizes_frame [simp]:
  "prefixes (spar_sizes d s) = prefixes s" "bctr (spar_sizes d s) = bctr s" "rln (spar_sizes d s) = rln s"
  by (simp_all add: spar_sizes_def prefixes_def Let_def)

lemma spar_prefixes_frame [simp]:
  "spsiz (spar_prefixes d s) = spsiz s" "seol (spar_prefixes d s) = seol s" "bctr (spar_prefixes d s) = bctr s"
  "rln (spar_prefixes d s) = rln s" "rptflg (spar_prefixes d s) = rptflg s" "rptq (spar_prefixes d s) = rptq s"
  by (simp_all add: spar_prefixes_def Let_def)

lemma spar_check_frame [simp]:
  "spsiz (spar_check d s) = spsiz s" "seol (spar_check d s) = seol s" "rln (spar_check d s) = rln s"
  "rctlq (spar_check d s) = rctlq s" "ebqflg (spar_check d s) = ebqflg s" "ebq (spar_check d s) = ebq s"
  by (simp_all add: spar_check_def Let_def)

lemma spar_capas_frame:
  assumes "spar_capas d s = (k, s')"
  shows "prefixes s' = prefixes s" "bctr s' = bctr s" "spsiz s' = spsiz s" "seol s' = seol s" "rln s' = rln s"
  using assms by (auto simp: spar_capas_def prefixes_def Let_def split: if_splits)

lemma spar_tail_frame [simp]:
  "prefixes (spar_whatami d k (spar_long d k s)) = prefixes s" "bctr (spar_whatami d k (spar_long d k s)) = bctr s"
  "seol (spar_whatami d k (spar_long d k s)) = seol s" "spsiz (spar_whatami d k s) = spsiz s"
proof -
  have w: "prefixes (spar_whatami d k s) = prefixes s" "bctr (spar_whatami d k s) = bctr s" "seol (spar_whatami d k s) = seol s"
    "spsiz (spar_whatami d k s) = spsiz s" for s :: "'a kpar_scheme"
    by (simp_all add: spar_whatami_def prefixes_def Let_def)
  have l: "prefixes (spar_long d k s) = prefixes s" "bctr (spar_long d k s) = bctr s" "seol (spar_long d k s) = seol s"
    by (simp_all add: spar_long_def prefixes_def Let_def)
  show "prefixes (spar_whatami d k (spar_long d k s)) = prefixes s" "bctr (spar_whatami d k (spar_long d k s)) = bctr s"
    "seol (spar_whatami d k (spar_long d k s)) = seol s" "spsiz (spar_whatami d k s) = spsiz s"
    by (simp_all only: w l)
qed

lemma spar_prefixes_ok:
  assumes "ebqflg s \<longrightarrow> pfx_char (ebq s)"
  shows "pfx_char (rctlq (spar_prefixes d s))" "ebqflg (spar_prefixes d s) \<longrightarrow> pfx_char (ebq (spar_prefixes d s))"
proof -
  have "pfx_char 35" "pfx_char 38" by code_simp+
  then show "pfx_char (rctlq (spar_prefixes d s))" "ebqflg (spar_prefixes d s) \<longrightarrow> pfx_char (ebq (spar_prefixes d s))"
    using assms by (auto simp: spar_prefixes_def is_prefix_char Let_def split: if_splits)
qed

lemma spar_check_ok:
  "bctr (spar_check d s) \<in> {1, 2, 3}" "rptflg (spar_check d s) \<longrightarrow> pfx_char (rptq (spar_check d s))"
  by (auto simp: spar_check_def is_prefix_char Let_def)

lemma spar_long_size:
  "10 \<le> spsiz s \<Longrightarrow> spsiz s \<le> MAXSP \<Longrightarrow> 10 \<le> spsiz (spar_long d k s) \<and> spsiz (spar_long d k s) \<le> MAXSP"
  by (auto simp: spar_long_def Let_def)

text \<open>Whatever the other side announces, after \<open>spar\<close> the parameters are in range.\<close>

lemma spar_par_ok: "par_ok s \<Longrightarrow> par_ok (spar d s)"
proof -
  assume ok: "par_ok s"
  define s1 where "s1 = spar_check d (spar_prefixes d (spar_sizes d s))"
  obtain k s2 where k: "spar_capas d s1 = (k, s2)" by fastforce
  note f = spar_capas_frame [OF k]
  have sp: "spar d s = spar_whatami d k (spar_long d k s2)" by (simp add: spar_def Let_def k flip: s1_def)
  have "ebqflg (spar_sizes d s) \<longrightarrow> pfx_char (ebq (spar_sizes d s))"
    using ok spar_sizes_frame(1) [of d s] by (simp add: par_ok_def prefixes_def)
  from spar_prefixes_ok [OF this]
  have "pfx_char (rctlq s1)" "ebqflg s1 \<longrightarrow> pfx_char (ebq s1)" "rptflg s1 \<longrightarrow> pfx_char (rptq s1)" "bctr s1 \<in> {1, 2, 3}"
    "10 \<le> spsiz s1" "spsiz s1 \<le> MAXSP" "2 \<le> seol s1" "seol s1 \<le> 31"
    using spar_check_ok spar_sizes_ok by (simp_all add: s1_def)
  moreover from this have "10 \<le> spsiz (spar d s) \<and> spsiz (spar d s) \<le> MAXSP"
    using spar_long_size [of s2 d k] f(3) by (simp add: sp)
  moreover have "prefixes (spar d s) = prefixes s1" "bctr (spar d s) = bctr s1" "seol (spar d s) = seol s1"
    using f by (simp_all add: sp)
  ultimately show "par_ok (spar d s)" by (simp add: par_ok_def prefixes_def)
qed

section \<open>Both sides agree\<close>

text \<open>
  A Kermit at the start of a transaction (\<open>tinit\<close>), with settings that can be announced and a
  data buffer whose cell 23 still holds the NUL it was loaded with.
\<close>

definition fresh :: "'a kpar_scheme \<Rightarrow> bool" where
  "fresh s \<longleftrightarrow> \<not> ebqflg s \<and> \<not> rptflg s \<and> sq s = 89 \<and> rqf s = -1 \<and> ebq s = 38 \<and> sctlq s = 35 \<and>
     bctr s \<in> {1, 2, 3} \<and> 95 \<le> urpsiz s \<and> urpsiz s \<le> 9000 \<and> length (xdata s) = 9016 \<and> xdata s ! 23 = 0 \<and>
     rpsiz s \<in> {10..94} \<and> rtimo s \<in> {0..94} \<and> rpadn s \<in> {0..94} \<and> reol s \<in> {2..31} \<and> rpadc s \<noteq> 64"

definition announced :: "'a kpar_scheme \<Rightarrow> byte list" where
  "announced s = rpar_fields s @ [tochar (urpsiz s div 95), tochar (urpsiz s mod 95)] @ rpar_tail s"

lemma tochar_nonzero: "0 \<le> n \<Longrightarrow> n \<le> 94 \<Longrightarrow> tochar n \<noteq> 0"
  using uint_tochar [of n] by force

lemma announced_nz:
  assumes "bctr s \<in> {1, 2, 3}" "95 \<le> urpsiz s" "urpsiz s \<le> 9000" "sq s \<noteq> 0" "rptflg s \<longrightarrow> rptq s \<noteq> 0"
    "rpsiz s \<in> {10..94}" "rtimo s \<in> {0..94}" "rpadn s \<in> {0..94}" "reol s \<in> {2..31}" "rpadc s \<noteq> 64"
  shows "0 \<notin> set (announced s)"
proof -
  have "ctl (rpadc s) \<noteq> 0" using assms(10) by (simp add: ctl_def word_xor_eq_0)
  moreover have "0 \<le> urpsiz s div 95" "urpsiz s div 95 \<le> 94" "0 \<le> urpsiz s mod 95" "urpsiz s mod 95 \<le> 94"
    using assms(2,3) by auto
  then have "tochar (urpsiz s div 95) \<noteq> 0" "tochar (urpsiz s mod 95) \<noteq> 0" by (simp_all only: tochar_nonzero not_False_eq_True)
  moreover have "uint (reol s) \<le> 31" using assms(9) by (simp add: word_le_def)
  then have "tochar (uint (reol s)) \<noteq> 0" by (intro tochar_nonzero) simp_all
  moreover have "0 \<notin> set (rpar_tail s)" by (auto simp: rpar_tail_def tochar_def Let_def)
  ultimately show ?thesis
    using assms tochar_nonzero [of "rpsiz s"] tochar_nonzero [of "rtimo s"] tochar_nonzero [of "rpadn s"]
      tochar_nonzero [of 10] tochar_nonzero [of 1]
    by (auto simp: announced_def rpar_fields_def)
qed

lemma rpar_announces:
  assumes "t = rpar_bid s" "0 \<notin> set (announced t)" "95 \<le> urpsiz s" "length (xdata s) = 9016" "xdata s ! 23 = 0"
  shows "fst (rpar s) = announced t \<and> (\<exists>x. snd (rpar s) = t\<lparr>xdata := x\<rparr> \<and> length x = 9016 \<and> x ! 23 = 0)"
proof -
  have t: "xdata t = xdata s" "urpsiz t = urpsiz s" by (simp_all add: assms(1) rpar_bid_def)
  have l: "length (rpar_fields t) = 11" "length (rpar_tail t) = 9" "length (announced t) = 22"
    by (simp_all add: rpar_fields_def rpar_tail_def announced_def Let_def)
  define x where "x = store (xdata s) 1 (announced t)"
  have r: "rpar s = (cstr (drop 1 x), t\<lparr>xdata := x\<rparr>)"
  proof -
    have i: "rpar_tail (t\<lparr>xdata := y\<rparr>) = rpar_tail t" "urpsiz (t\<lparr>xdata := y\<rparr>) = urpsiz t" for y
      by (simp_all add: rpar_tail_def)
    have "store (store (store (xdata s) 1 (rpar_fields t)) 12 [tochar (urpsiz t div 95), tochar (urpsiz t mod 95)]) 14 (rpar_tail t) = x"
      using l unfolding x_def announced_def store_append by simp
    then show ?thesis
      using assms(3) by (simp add: rpar_def Let_def i t del: store.simps flip: assms(1))
  qed
  have x: "x = take 1 (xdata s) @ announced t @ drop 23 (xdata s)"
    using assms(4) l by (simp add: x_def store_eq del: store.simps)
  have d23: "drop 23 (xdata s) = 0 # drop 24 (xdata s)"
    using assms(4,5) Cons_nth_drop_Suc [of 23 "xdata s"] by simp
  have "cstr (drop 1 x) = announced t"
    using assms(2,4) unfolding x d23 by (simp add: cstr_append_NUL)
  moreover have "length x = 9016" "x ! 23 = 0"
    using assms(4,5) l(3) unfolding x by (simp_all add: nth_append)
  ultimately show ?thesis using r by auto
qed

text \<open>What \<open>spar\<close> makes of an announcement.\<close>

lemma spar_announced:
  assumes "rln r = 22" "d = announced s @ e" "bctr s \<in> {1, 2, 3}" "95 \<le> urpsiz s" "urpsiz s \<le> 9000" "sq s = 89 \<or> sq s = 38"
    "rptflg s \<longrightarrow> rptq s = 126"
  shows "rctlq (spar d r) = 35" "rptflg (spar d r)" "rptq (spar d r) = 126" "sctlq (spar d r) = sctlq r"
    "bctr (spar d r) = (if bctr r > 1 \<and> bctr r \<noteq> bctr s then 1 else bctr s)"
    "spsiz (spar d r) = urpsiz s" "longpackets (spar d r)" "attributes (spar d r)"
    "ebqflg (spar d r) = (if sq s = 89 then parity r \<noteq> 0 \<or> ebqflg r else ebq r = sq r \<or> sq r = 89)"
    "ebq (spar d r) = (if sq s = 89 then (if parity r \<noteq> 0 then 38 else ebq r) else if ebq r = sq r \<or> sq r = 89 then 38 else ebq r)"
    "sq (spar d r) = sq r" "parity (spar d r) = parity r" "urpsiz (spar d r) = urpsiz r"
    "rqf (spar d r) = (if sq s = 89 then 1 else 2)"
proof -
  have f: "fld d 6 = 35" "fld d 7 = sq s" "fld d 8 = word_of_int (bctr s + 48)" "fld d 9 = 126"
    "fld d 10 = tochar 10" "fld d 12 = tochar (urpsiz s div 95)" "fld d 13 = tochar (urpsiz s mod 95)"
    using assms(7) by (simp_all add: assms(2) fld_def announced_def rpar_fields_def)
  have u: "0 \<le> urpsiz s div 95" "urpsiz s div 95 \<le> 94" "0 \<le> urpsiz s mod 95" "urpsiz s mod 95 \<le> 94"
    using assms(4,5) by auto
  have x10: "xunchar (tochar 10) = 10" by (simp add: xunchar_tochar)
  have k: "capas_end d 22 10 = 10" by (subst capas_end.simps) (simp add: f x10)
  have b: "uint (word_of_int (bctr s + 48) :: byte) - 48 = bctr s"
    using assms(3) by auto
  have sz: "xunchar (fld d 12) * 95 + xunchar (fld d 13) = urpsiz s"
    using u unfolding f by (simp add: xunchar_tochar)
  have p: "is_prefix_char 35" "is_prefix_char 126" "is_prefix_char 38" "\<not> is_prefix_char 89" by code_simp+
  let ?s1 = "spar_sizes d r"
  have fr: "rln ?s1 = 22" "parity ?s1 = parity r" "ebqflg ?s1 = ebqflg r" "ebq ?s1 = ebq r" "sq ?s1 = sq r" "bctr ?s1 = bctr r"
    "sctlq ?s1 = sctlq r" "urpsiz ?s1 = urpsiz r"
    using assms(1) by (simp_all add: spar_sizes_def Let_def)
  define s1 where "s1 = ?s1"
  note fr = fr [folded s1_def]
  define s2 where "s2 = spar_prefixes d s1"
  have s2: "rctlq s2 = 35" "rqf s2 = (if sq s = 89 then 1 else 2)" "sq s2 = sq r" "parity s2 = parity r" "urpsiz s2 = urpsiz r"
    "bctr s2 = bctr r" "rln s2 = 22" "sctlq s2 = sctlq r"
    "ebqflg s2 = (if sq s = 89 then parity r \<noteq> 0 \<or> ebqflg r else ebq r = sq r \<or> sq r = 89)"
    "ebq s2 = (if sq s = 89 then (if parity r \<noteq> 0 then 38 else ebq r) else if ebq r = sq r \<or> sq r = 89 then 38 else ebq r)"
    using assms(6) p fr by (auto simp: s2_def spar_prefixes_def Let_def f)
  define s3 where "s3 = spar_check d s2"
  have b3: "bctr s3 = (if bctr r > 1 \<and> bctr r \<noteq> bctr s then 1 else bctr s)" "rptflg s3" "rptq s3 = 126"
    using assms(3) s2 p b by (auto simp: s3_def spar_check_def Let_def f)
  have s3: "rctlq s3 = rctlq s2" "rqf s3 = rqf s2" "sq s3 = sq s2" "parity s3 = parity s2" "urpsiz s3 = urpsiz s2"
    "rln s3 = 22" "sctlq s3 = sctlq s2" "ebqflg s3 = ebqflg s2" "ebq s3 = ebq s2"
    using s2(7) by (simp_all add: s3_def spar_check_def Let_def)
  define s4 where "s4 = s3\<lparr>attributes := True, longpackets := True\<rparr>"
  have "spar_capas d s3 = (10, s4)" by (simp add: spar_capas_def s3 f x10 k s4_def Let_def)
  then have sp: "spar d r = spar_whatami d 10 (spar_long d 10 s4)"
    by (simp add: spar_def Let_def flip: s1_def s2_def s3_def)
  define s5 where "s5 = spar_long d 10 s4"
  have z5: "spsiz s5 = urpsiz s" "longpackets s5" "attributes s5"
    using sz assms(4,5) s3(6) by (simp_all add: s5_def s4_def spar_long_def Let_def)
  have s5: "rctlq s5 = rctlq s3" "rqf s5 = rqf s3" "sq s5 = sq s3" "parity s5 = parity s3" "urpsiz s5 = urpsiz s3"
    "sctlq s5 = sctlq s3" "ebqflg s5 = ebqflg s3" "ebq s5 = ebq s3" "bctr s5 = bctr s3" "rptflg s5 = rptflg s3" "rptq s5 = rptq s3"
    by (simp_all add: s5_def s4_def spar_long_def Let_def)
  have w: "rctlq (spar_whatami d k s) = rctlq s" "rqf (spar_whatami d k s) = rqf s" "sq (spar_whatami d k s) = sq s"
    "parity (spar_whatami d k s) = parity s" "urpsiz (spar_whatami d k s) = urpsiz s" "sctlq (spar_whatami d k s) = sctlq s"
    "ebqflg (spar_whatami d k s) = ebqflg s" "ebq (spar_whatami d k s) = ebq s" "bctr (spar_whatami d k s) = bctr s"
    "rptflg (spar_whatami d k s) = rptflg s" "rptq (spar_whatami d k s) = rptq s" "spsiz (spar_whatami d k s) = spsiz s"
    "longpackets (spar_whatami d k s) = longpackets s" "attributes (spar_whatami d k s) = attributes s"
    for k and s :: "'a kpar_scheme"
    by (simp_all add: spar_whatami_def Let_def)
  note all = w s5 z5 s3 b3 s2
  show "rctlq (spar d r) = 35" "rptflg (spar d r)" "rptq (spar d r) = 126" "sctlq (spar d r) = sctlq r"
    "bctr (spar d r) = (if bctr r > 1 \<and> bctr r \<noteq> bctr s then 1 else bctr s)"
    "spsiz (spar d r) = urpsiz s" "longpackets (spar d r)" "attributes (spar d r)"
    "ebqflg (spar d r) = (if sq s = 89 then parity r \<noteq> 0 \<or> ebqflg r else ebq r = sq r \<or> sq r = 89)"
    "ebq (spar d r) = (if sq s = 89 then (if parity r \<noteq> 0 then 38 else ebq r) else if ebq r = sq r \<or> sq r = 89 then 38 else ebq r)"
    "sq (spar d r) = sq r" "parity (spar d r) = parity r" "urpsiz (spar d r) = urpsiz r"
    "rqf (spar d r) = (if sq s = 89 then 1 else 2)"
    unfolding sp s5_def [symmetric] by (simp_all only: all)
qed

lemma rpar_bid_bid:
  assumes "sq s = 89" "ebq s = 38"
  shows "sq (rpar_bid s) = (if rqf s \<in> {-1, 1} \<and> parity s \<noteq> 0 then 38 else 89)" "ebq (rpar_bid s) = 38"
    "ebqflg (rpar_bid s) = ebqflg s" "rptflg (rpar_bid s) = rptflg s" "rptq (rpar_bid s) = rptq s" "bctr (rpar_bid s) = bctr s"
    "urpsiz (rpar_bid s) = urpsiz s" "parity (rpar_bid s) = parity s" "sctlq (rpar_bid s) = sctlq s" "spsiz (rpar_bid s) = spsiz s"
    "rctlq (rpar_bid s) = rctlq s" "rpsiz (rpar_bid s) = rpsiz s" "rtimo (rpar_bid s) = rtimo s" "rpadn (rpar_bid s) = rpadn s"
    "rpadc (rpar_bid s) = rpadc s" "reol (rpar_bid s) = reol s" "rqf (rpar_bid s) = rqf s" "xdata (rpar_bid s) = xdata s"
  using assms by (simp_all add: rpar_bid_def)

lemma spar_announcer_frame:
  "rpsiz (spar d s) = rpsiz s" "rtimo (spar d s) = rtimo s" "rpadn (spar d s) = rpadn s" "rpadc (spar d s) = rpadc s"
  "reol (spar d s) = reol s" "xdata (spar d s) = xdata s"
proof -
  have *: "rpsiz (spar_sizes d s) = rpsiz s" "rtimo (spar_sizes d s) = rtimo s" "rpadn (spar_sizes d s) = rpadn s"
    "rpadc (spar_sizes d s) = rpadc s" "reol (spar_sizes d s) = reol s" "xdata (spar_sizes d s) = xdata s"
    for s :: "'a kpar_scheme" by (simp_all add: spar_sizes_def Let_def)
  have c: "rpsiz (spar_check d s) = rpsiz s" "rtimo (spar_check d s) = rtimo s" "rpadn (spar_check d s) = rpadn s" "rpadc (spar_check d s) = rpadc s" "reol (spar_check d s) = reol s" "xdata (spar_check d s) = xdata s"
    for k and s :: "'a kpar_scheme" by (simp_all add: spar_check_def Let_def)
  have p: "rpsiz (spar_prefixes d s) = rpsiz s" "rtimo (spar_prefixes d s) = rtimo s" "rpadn (spar_prefixes d s) = rpadn s" "rpadc (spar_prefixes d s) = rpadc s" "reol (spar_prefixes d s) = reol s" "xdata (spar_prefixes d s) = xdata s"
    for k and s :: "'a kpar_scheme" by (simp_all add: spar_prefixes_def Let_def)
  have l: "rpsiz (spar_long d k s) = rpsiz s" "rtimo (spar_long d k s) = rtimo s" "rpadn (spar_long d k s) = rpadn s" "rpadc (spar_long d k s) = rpadc s" "reol (spar_long d k s) = reol s" "xdata (spar_long d k s) = xdata s"
    for k and s :: "'a kpar_scheme" by (simp_all add: spar_long_def Let_def)
  have w: "rpsiz (spar_whatami d k s) = rpsiz s" "rtimo (spar_whatami d k s) = rtimo s" "rpadn (spar_whatami d k s) = rpadn s" "rpadc (spar_whatami d k s) = rpadc s" "reol (spar_whatami d k s) = reol s" "xdata (spar_whatami d k s) = xdata s"
    for k and s :: "'a kpar_scheme" by (simp_all add: spar_whatami_def Let_def)
  define t where "t = spar_check d (spar_prefixes d (spar_sizes d s))"
  obtain k u where k: "spar_capas d t = (k, u)" by fastforce
  then have u: "rpsiz u = rpsiz t" "rtimo u = rtimo t" "rpadn u = rpadn t" "rpadc u = rpadc t" "reol u = reol t" "xdata u = xdata t"
    by (auto simp: spar_capas_def Let_def split: if_splits)
  show "rpsiz (spar d s) = rpsiz s" "rtimo (spar d s) = rtimo s" "rpadn (spar d s) = rpadn s" "rpadc (spar d s) = rpadc s"
    "reol (spar d s) = reol s" "xdata (spar d s) = xdata s"
    unfolding spar_def Let_def t_def [symmetric] k prod.case by (simp_all only: w l u t_def c p *)
qed

text \<open>
  C3. The exchange of parameters leaves both sides in agreement: after the
  sender's announcement, the receiver's \<open>spar\<close> and its own announcement, and the sender's \<open>spar\<close>
  of that, both use the same block check, the sender encodes with exactly the prefixes the receiver
  decodes with, which are distinct characters, eighth-bit prefixing is on when either side has a
  parity, and the sender's packets are as long as the receiver announced and no longer.
\<close>

theorem negotiation_agrees:
  fixes s :: "'a kpar_scheme" and r :: "'b kpar_scheme"
  assumes "fresh s" "fresh r" "rpar s = (a, s1)" "r1 = spar (a @ e) (r\<lparr>rln := int (length a)\<rparr>)"
    and "rpar r1 = (b, r2)" "s2 = spar (b @ e') (s1\<lparr>rln := int (length b)\<rparr>)"
  shows "enc_pfx s2 = dec_pfx r2 \<and> pfx_ok (enc_pfx s2) \<and> bctr s2 = bctr r2 \<and> bctr s2 \<in> {1, 2, 3} \<and>
    spsiz s2 = urpsiz r \<and> (ebqflg s2 \<longleftrightarrow> parity s \<noteq> 0 \<or> parity r \<noteq> 0)"
proof -
  have fs: "sq s = 89" "ebq s = 38" "\<not> ebqflg s" "\<not> rptflg s" "rqf s = -1" "sctlq s = 35" "bctr s \<in> {1, 2, 3}" "95 \<le> urpsiz s"
    "urpsiz s \<le> 9000" "length (xdata s) = 9016" "xdata s ! 23 = 0" "rpsiz s \<in> {10..94}" "rtimo s \<in> {0..94}" "rpadn s \<in> {0..94}"
    "reol s \<in> {2..31}" "rpadc s \<noteq> 64" using assms(1) by (auto simp: fresh_def)
  have fr: "sq r = 89" "ebq r = 38" "\<not> ebqflg r" "\<not> rptflg r" "sctlq r = 35" "bctr r \<in> {1, 2, 3}" "95 \<le> urpsiz r"
    "urpsiz r \<le> 9000" "length (xdata r) = 9016" "xdata r ! 23 = 0" "rpsiz r \<in> {10..94}" "rtimo r \<in> {0..94}" "rpadn r \<in> {0..94}"
    "reol r \<in> {2..31}" "rpadc r \<noteq> 64" using assms(2) by (auto simp: fresh_def)
  let ?t = "rpar_bid s"
  note bs = rpar_bid_bid [OF fs(1,2)]
  have "0 \<notin> set (announced ?t)" by (rule announced_nz) (use fs bs in auto)
  from rpar_announces [OF refl this fs(8,10,11)] assms(3) obtain x where a: "a = announced ?t" "s1 = ?t\<lparr>xdata := x\<rparr>" by auto
  have la: "length a = 22" by (simp add: a announced_def rpar_fields_def rpar_tail_def Let_def)
  let ?r = "r\<lparr>rln := int (length a)\<rparr>"
  have "rln ?r = 22" "a @ e = announced ?t @ e" "sq ?t = 89 \<or> sq ?t = 38" "rptflg ?t \<longrightarrow> rptq ?t = 126"
    using la a bs fs by auto
  note r1 = spar_announced [OF this(1,2) _ _ _ this(3,4), folded assms(4), unfolded bs kpar.simps, OF fs(7-9)]
  note r1f = spar_announcer_frame [of "a @ e" ?r, folded assms(4)]
  have r1s: "sq r1 = 89" "ebq r1 = 38" "rptq r1 = 126" "rptflg r1" using r1 fr by auto
  let ?u = "rpar_bid r1"
  note br = rpar_bid_bid [OF r1s(1,2)]
  have u1: "bctr ?u \<in> {1, 2, 3}" using br(6) r1(5) fs(7) by simp
  have u2: "95 \<le> urpsiz ?u" "urpsiz ?u \<le> 9000" using br(7) r1(13) fr(7,8) by simp_all
  have u3: "sq ?u = 89 \<or> sq ?u = 38" using br(1) by presburger
  have u4: "rptflg ?u \<longrightarrow> rptq ?u = 126" using br(5) r1s(3) by simp
  have "0 \<notin> set (announced ?u)"
  proof (rule announced_nz [OF u1 u2])
    show "sq ?u \<noteq> 0" using u3 by fastforce
    show "rptflg ?u \<longrightarrow> rptq ?u \<noteq> 0" using u4 by fastforce
    show "rpsiz ?u \<in> {10..94}" "rtimo ?u \<in> {0..94}" "rpadn ?u \<in> {0..94}" "reol ?u \<in> {2..31}" "rpadc ?u \<noteq> 64"
      using fr(11-15) by (simp_all add: br(12-16) r1f)
  qed
  then obtain y where b: "b = announced ?u" "r2 = ?u\<lparr>xdata := y\<rparr>"
    using rpar_announces [OF refl, of r1] assms(5) r1(13) r1f(6) fr(7,9,10) by auto
  have lb: "length b = 22" by (simp add: b announced_def rpar_fields_def rpar_tail_def Let_def)
  let ?s = "s1\<lparr>rln := int (length b)\<rparr>"
  have "rln ?s = 22" "b @ e' = announced ?u @ e'" using lb b(1) by simp_all
  note s2 = spar_announced [OF this u1 u2 u3 u4, folded assms(6)]
  have px: "pfx_char 35" "pfx_char 38" "pfx_char 126" by code_simp+
  have bb: "bctr r2 = (if bctr r > 1 \<and> bctr r \<noteq> bctr s then 1 else bctr s)" using b(2) br r1(5) by simp
  then have "bctr s2 = bctr r2" using s2(5) br(6) r1(5) bs(6) a(2) fs(7) fr(6) by auto
  moreover have "enc_pfx s2 = \<lparr>has_rpt = True, has_ebq = (parity s \<noteq> 0 \<or> parity r \<noteq> 0), c_rpt = 126, c_ebq = 38, c_ctl = 35\<rparr>"
    using s2(2-4,9,10) br(1) r1(12,14) bs a(2) fs fr by (simp add: enc_pfx_def)
  moreover have "dec_pfx r2 = \<lparr>has_rpt = True, has_ebq = (parity s \<noteq> 0 \<or> parity r \<noteq> 0), c_rpt = 126, c_ebq = 38, c_ctl = 35\<rparr>"
    using r1 br b(2) fs fr r1s by (auto simp: dec_pfx_def)
  moreover have "spsiz s2 = urpsiz r" using s2(6) br(7) r1(13) by simp
  ultimately show ?thesis using px bb fs(7) by (auto simp: pfx_ok_def enc_pfx_def)
qed

definition par0 :: "byte \<Rightarrow> int \<Rightarrow> int \<Rightarrow> kpar" where
  "par0 xp bct urp = kcomm.extend (comm0 xp 1 [])
     \<lparr>spsiz = 90, rpsiz = 94, urpsiz = urp, rtimo = 7, rpadn = 0, rpadc = 0, bctr = bct, rqf = -1, rq = 0, sq = 89,
      streamok = 0, streaming = False, manual = False, literal = False, longpackets = False, attributes = False,
      filnam = replicate 1025 0, cx = False, cz = False\<rparr>"

definition par1 :: "byte \<Rightarrow> int \<Rightarrow> int \<Rightarrow> kpar" where
  "par1 xp bct urp = tinit (par0 xp bct urp)"

lemmas par0_defs = par0_def comm0_def receiver0_def sender0_def zopened_def zin.defs kenc.defs kdec.defs kcomm.defs

lemma fresh_par1: "bct \<in> {1, 2, 3} \<Longrightarrow> 95 \<le> urp \<Longrightarrow> urp \<le> 9000 \<Longrightarrow> fresh (par1 xp bct urp)"
  by (simp add: fresh_def par1_def tinit_def par0_defs)

theorem negotiation_agrees_witness:
  "\<exists>a s1 b r1 r2 s2. rpar (par1 0 3 4000) = (a, s1) \<and> r1 = spar a ((par1 101 1 2000)\<lparr>rln := int (length a)\<rparr>) \<and>
     rpar r1 = (b, r2) \<and> s2 = spar b (s1\<lparr>rln := int (length b)\<rparr>) \<and> enc_pfx s2 = dec_pfx r2 \<and> bctr s2 = bctr r2 \<and>
     spsiz s2 = 2000 \<and> ebqflg s2"
proof -
  obtain a s1 where a: "rpar (par1 0 3 4000) = (a, s1)" by fastforce
  define r1 where "r1 = spar (a @ []) ((par1 101 1 2000)\<lparr>rln := int (length a)\<rparr>)"
  obtain b r2 where b: "rpar r1 = (b, r2)" by fastforce
  define s2 where "s2 = spar (b @ []) (s1\<lparr>rln := int (length b)\<rparr>)"
  have "fresh (par1 0 3 4000)" "fresh (par1 101 1 2000)" by (auto intro: fresh_par1)
  from negotiation_agrees [OF this a r1_def b s2_def]
  have "enc_pfx s2 = dec_pfx r2 \<and> bctr s2 = bctr r2 \<and> spsiz s2 = 2000 \<and> ebqflg s2"
    by (simp add: par1_def tinit_def par0_defs)
  with a r1_def b s2_def show ?thesis by auto
qed

end
