(* ===== verification/Kermit_Names.thy ===== *)
theory Kermit_Names
  imports Ctext
begin

text \<open>
  The file functions of gunixio.c: file name conversion between the local form and the common form
  of the protocol (\<open>zltor\<close>, \<open>zrtol\<close>), access checks (\<open>zchki\<close>, \<open>zchko\<close>) and backup of files that
  would be overwritten (\<open>zbackup\<close>).
\<close>

section \<open>Definitions\<close>

abbreviation MAXPATHLEN :: nat where "MAXPATHLEN \<equiv> 1024"

text \<open>\<open>strncpy(dst + off, src, n)\<close>: always \<open>n\<close> cells are written, the string and then NULs.\<close>

definition strncpy :: "byte list \<Rightarrow> nat \<Rightarrow> byte list \<Rightarrow> nat \<Rightarrow> byte list option" where
  "strncpy dst off src n =
     (if off + n \<le> length dst
      then Some (take off dst @ take n src @ replicate (n - length src) 0 @ drop (off + n) dst) else None)"

text \<open>The part of a name after its last slash.\<close>

fun after_slash :: "byte list \<Rightarrow> byte list \<Rightarrow> byte list" where
  "after_slash cur [] = cur"
| "after_slash cur (c # r) = (if c = 47 then after_slash r r else after_slash cur r)"

text \<open>
  The conversion loop of \<open>zltor\<close>: the characters left, how many more may be taken, the output so
  far and where in it the last dot and the last slash are.
\<close>

definition zltor_char :: "byte \<Rightarrow> byte" where
  "zltor_char c =
     (if islower c then toupper c
      else if c = 126 then 45
      else if c = 35 then 88
      else if c = 42 \<or> c = 63 then 88
      else if c = 32 then 95
      else if c < 32 then 88
      else if c = 46 then 95
      else c)"

fun zltor_loop :: "byte list \<Rightarrow> nat \<Rightarrow> byte list \<Rightarrow> nat option \<Rightarrow> nat option \<Rightarrow> byte list \<times> nat option \<times> nat option" where
  "zltor_loop [] n out dotp dirp = (out, dotp, dirp)"
| "zltor_loop (c # cp) 0 out dotp dirp = (out, dotp, dirp)"
| "zltor_loop (c # cp) (Suc n) out dotp dirp =
     zltor_loop cp n (out @ [zltor_char c])
       (if c = 46 then Some (length out) else dotp) (if c = 47 then Some (length out) else dirp)"

definition zltor_work :: "byte list \<Rightarrow> nat \<Rightarrow> byte list" where
  "zltor_work lclnam maxlen =
     (let np = after_slash lclnam lclnam;
          np = (if np = [] then lclnam else np)
      in case zltor_loop np maxlen [] None None of
           (work, None, dirp) \<Rightarrow> work
         | (work, Some i, None) \<Rightarrow> work[i := 46]
         | (work, Some i, Some j) \<Rightarrow> (if i > j then work[i := 46] else work))"

definition zltor :: "bool \<Rightarrow> byte list \<Rightarrow> byte list \<Rightarrow> nat \<Rightarrow> byte list option" where
  "zltor literal lclnam pktnam maxlen =
     (if literal then strncpy pktnam 0 (after_slash lclnam lclnam) maxlen
      else
        (let work = zltor_work lclnam maxlen;
             off = (if work \<noteq> [] \<and> work ! 0 = 46 then 1 else 0);
             pktnam = (if off = 1 then pktnam[0 := 88] else pktnam)
         in case strncpy pktnam off work maxlen of
              None \<Rightarrow> None
            | Some p \<Rightarrow> Some (p[off + maxlen - 1 := 0])))"

text \<open>
  \<open>zrtol\<close>: the copying loop drops leading blanks and controls and notes the cases of letters; then
  trailing blanks and controls go, and a name all in upper case becomes lower case.
\<close>

fun zrtol_loop :: "byte list \<Rightarrow> nat \<Rightarrow> bool \<Rightarrow> bool \<Rightarrow> bool \<Rightarrow> byte list \<Rightarrow> byte list \<times> bool \<times> bool" where
  "zrtol_loop [] n flag up lo out = (out, up, lo)"
| "zrtol_loop (c # r) 0 flag up lo out = (out, up, lo)"
| "zrtol_loop (c # r) (Suc n) flag up lo out =
     (let flag = (flag \<or> c > 32)
      in if \<not> flag \<and> c < 33 then zrtol_loop r (Suc n) flag up lo out
         else zrtol_loop r n flag (up \<or> isupper c) (lo \<or> islower c) (out @ [c]))"

text \<open>\<open>while (*p < '!' && p > lclnam) *p-- = 0\<close>, from the last character on.\<close>

fun strip_right :: "byte list \<Rightarrow> byte list" where
  "strip_right rs = (case rs of [] \<Rightarrow> [] | [c] \<Rightarrow> [c] | c # d # r \<Rightarrow> if c < 33 then strip_right (d # r) else rs)"

declare strip_right.simps [simp del]

definition zrtol_name :: "bool \<Rightarrow> byte list \<Rightarrow> nat \<Rightarrow> byte list" where
  "zrtol_name literal pktnam maxlen =
     (if literal then take maxlen pktnam
      else case zrtol_loop pktnam maxlen False False False [] of
        (out, up, lo) \<Rightarrow>
          (let nam = rev (strip_right (rev out))
           in if nam = [] then take maxlen [78, 79, 78, 65, 77, 69]
              else if up \<and> \<not> lo then map tolower nam
              else nam))"

section \<open>Files\<close>

text \<open>
  The file system as the program sees it: what is there under a name, and the answers of the
  operating system to access checks and to calls that may fail for reasons of its own.
\<close>

record node =
  isreg :: bool
  content :: "byte list"

record zfs =
  files :: "byte list \<Rightarrow> node option"
  can_read :: "byte list \<Rightarrow> bool"
  can_write :: "byte list \<Rightarrow> bool"
  link_ok :: "byte list \<Rightarrow> byte list \<Rightarrow> bool"
  unlink_ok :: "byte list \<Rightarrow> bool"
  creat_ok :: "byte list \<Rightarrow> bool"
  close_ok :: bool

definition zchki :: "byte list \<Rightarrow> 'a zfs_scheme \<Rightarrow> int" where
  "zchki fn s =
     (case files s fn of
        None \<Rightarrow> -1
      | Some nd \<Rightarrow> (if \<not> can_read s fn then -1 else if \<not> isreg nd then -2 else int (length (content nd))))"

text \<open>The directory of a name: everything before its last slash, and \<open>.\<close> if it has none.\<close>

definition dir_of :: "byte list \<Rightarrow> byte list" where
  "dir_of fn = (let r = dropWhile (\<lambda>c. c \<noteq> 47) (rev fn) in if r = [] then [46] else rev (tl r))"

definition zchko :: "byte list \<Rightarrow> 'a zfs_scheme \<Rightarrow> int" where
  "zchko fn s =
     (if fn = [] then -1
      else if fn = [47, 100, 101, 118, 47, 110, 117, 108, 108] then 0
      else
        (let x = zchki fn s
         in if x = -2 then -1
            else (let p = (if x < 0 then dir_of (take MAXPATHLEN fn) else fn)
                  in if can_write s p then 0 else -1)))"

text \<open>
  The scan of \<open>zbackup\<close> for a backup suffix, from the right: \<open>i\<close> is the index looked at, \<open>st\<close> the
  state. The result is where the name is cut.
\<close>

fun backup_scan :: "byte list \<Rightarrow> nat \<Rightarrow> bool \<Rightarrow> nat option" where
  "backup_scan p 0 st = None"
| "backup_scan p (Suc i) False = (if p ! Suc i = 126 then backup_scan p i True else None)"
| "backup_scan p (Suc i) True =
     (if p ! Suc i = 126 \<and> p ! i = 46 then Some i
      else if 48 \<le> p ! Suc i \<and> p ! Suc i \<le> 57 then backup_scan p i True
      else None)"

definition backup_stem :: "byte list \<Rightarrow> byte list" where
  "backup_stem fn =
     (let work = take MAXPATHLEN fn;
          p = (case backup_scan work (length work - 1) False of None \<Rightarrow> work | Some i \<Rightarrow> take i work)
      in if p = [] then fn else p)"

definition backup_name :: "byte list \<Rightarrow> nat \<Rightarrow> byte list" where
  "backup_name p i =
     (let k = (if i < 10 then 1 else if i < 100 then 2 else 3);
          x = (if length p + k + 3 > MAXPATHLEN then MAXPATHLEN - k - 3 else length p)
      in take x p @ [46, 126] @ decimal i @ [126])"

fun backup_search :: "nat \<Rightarrow> nat \<Rightarrow> byte list \<Rightarrow> byte list \<Rightarrow> 'a zfs_scheme \<Rightarrow> int \<times> 'a zfs_scheme" where
  "backup_search 0 i fn p s = (-1, s)"
| "backup_search (Suc n) i fn p s =
     (let newname = backup_name p i
      in if files s newname = None then
           (if \<not> link_ok s fn newname then (-1, s)
            else
              (let s = s\<lparr>files := (files s)(newname := files s fn)\<rparr>
               in if \<not> unlink_ok s fn then (-1, s)
                  else (0, s\<lparr>files := (files s)(fn := None)\<rparr>)))
         else backup_search n (Suc i) fn p s)"

definition zbackup :: "byte list \<Rightarrow> 'a zfs_scheme \<Rightarrow> int \<times> 'a zfs_scheme" where
  "zbackup fn s =
     (if fn = [] then (-1, s)
      else if files s fn = None then (0, s)
      else backup_search 999 1 fn (backup_stem fn) s)"

definition zrtol :: "bool \<Rightarrow> byte list \<Rightarrow> bool \<Rightarrow> nat \<Rightarrow> 'a zfs_scheme \<Rightarrow> int \<times> byte list \<times> 'a zfs_scheme" where
  "zrtol literal pktnam warn maxlen s =
     (let nam = zrtol_name literal pktnam maxlen
      in if warn then (case zbackup nam s of (x, s) \<Rightarrow> (if x < 0 then -1 else 0, nam, s)) else (0, nam, s))"

section \<open>Names in the common form\<close>

lemma toupper_isupper: "islower c \<Longrightarrow> isupper (toupper c)"
proof -
  assume l: "islower c"
  then have "32 \<le> c" by (auto simp: islower_def word_le_nat_alt)
  then have "unat (c - 32) = unat c - 32" by (simp add: unat_sub)
  with l show "isupper (toupper c)" by (auto simp: islower_def isupper_def toupper_def word_le_nat_alt)
qed

text \<open>A character that may stand in a name in the common form.\<close>

definition common_char :: "byte \<Rightarrow> bool" where
  "common_char c \<longleftrightarrow> 32 < c \<and> \<not> islower c \<and> c \<notin> {126, 35, 42, 63}"

lemma isupper_common: "isupper c \<Longrightarrow> common_char c \<and> c \<noteq> 46"
  by (auto simp: isupper_def common_char_def islower_def word_less_nat_alt word_le_nat_alt)

lemma zltor_char_common: "common_char (zltor_char c) \<and> zltor_char c \<noteq> 46"
proof (cases "islower c")
  case True
  then show ?thesis using isupper_common [OF toupper_isupper [OF True]] by (simp add: zltor_char_def)
next
  case False
  then show ?thesis
    by (auto simp: zltor_char_def common_char_def islower_def word_less_nat_alt word_le_nat_alt word_unat_eq_iff)
qed

lemma zltor_loop_spec:
  "zltor_loop cp n out dotp dirp = (work, dotp', dirp') \<Longrightarrow>
   work = out @ map zltor_char (take n cp) \<and>
   (\<forall>i. dotp' = Some i \<longrightarrow> dotp = Some i \<or> i < length work)"
proof (induction cp n out dotp dirp rule: zltor_loop.induct)
  case (3 c cp n out dotp dirp)
  then show ?case by (auto split: if_splits)
qed auto

lemma zltor_work_chars:
  assumes "c \<in> set (zltor_work nam maxlen)"
  shows "common_char c \<and> count_list (zltor_work nam maxlen) 46 \<le> 1"
proof -
  obtain np where np: "zltor_work nam maxlen =
      (case zltor_loop np maxlen [] None None of
           (work, None, dirp) \<Rightarrow> work
         | (work, Some i, None) \<Rightarrow> work[i := 46]
         | (work, Some i, Some j) \<Rightarrow> (if i > j then work[i := 46] else work))"
    by (simp add: zltor_work_def Let_def)
  obtain work dotp dirp where l: "zltor_loop np maxlen [] None None = (work, dotp, dirp)" by (metis prod_cases3)
  from zltor_loop_spec [OF this] have w: "work = map zltor_char (take maxlen np)" by simp
  have d: "common_char 46" by (simp add: common_char_def islower_def word_less_nat_alt word_le_nat_alt)
  have c0: "count_list work 46 = 0" using zltor_char_common by (auto simp: w count_list_0_iff)
  have c1: "count_list (work[i := 46]) 46 \<le> 1" for i
  proof (cases "i < length work")
    case True
    have "count_list (take i work) 46 = 0" "count_list (drop (Suc i) work) 46 = 0"
      using c0 by (auto simp: count_list_0_iff dest: in_set_takeD in_set_dropD)
    then show ?thesis using True by (simp add: upd_conv_take_nth_drop)
  qed (simp add: c0 list_update_beyond)
  have "c \<in> set work \<Longrightarrow> common_char c" for c using zltor_char_common by (auto simp: w)
  then have "c \<in> set (work[i := 46]) \<Longrightarrow> common_char c" for c i
    using d set_update_subset_insert [of work i 46] by auto
  with assms c0 c1 \<open>\<And>c. c \<in> set work \<Longrightarrow> common_char c\<close> show ?thesis
    unfolding np l by (auto split: option.splits if_splits)
qed

lemma strncpy_cstr:
  assumes "strncpy dst off src n = Some d" "length src < n" "0 \<notin> set src"
  shows "cstr (drop off d) = src"
proof -
  have "drop off d = src @ replicate (n - length src) 0 @ drop (off + n) dst"
    using assms(1,2) by (auto simp: strncpy_def split: if_splits)
  moreover obtain k where "n - length src = Suc k" using assms(2) by (metis Suc_diff_Suc)
  ultimately show ?thesis using assms(3) by (simp add: cstr_append_NUL)
qed

text \<open>
  Outside literal mode, the name \<open>zltor\<close> puts into a packet has no lower case
  letters, no blanks, controls, tildes, number signs or wildcards, has at most one dot and does not
  begin with it, for any local name of fewer than \<open>maxlen\<close> characters, and for any buffer large
  enough for it.
\<close>

lemma zltor_common_form:
  assumes "zltor False lclnam pktnam maxlen = Some p" "length lclnam < maxlen"
  shows "list_all common_char (cstr p) \<and> count_list (cstr p) 46 \<le> 1 \<and> (cstr p \<noteq> [] \<longrightarrow> cstr p ! 0 \<noteq> 46)"
proof -
  define work where "work = zltor_work lclnam maxlen"
  have cc: "c \<in> set work \<Longrightarrow> common_char c" and cl: "work \<noteq> [] \<Longrightarrow> count_list work 46 \<le> 1" for c
    using zltor_work_chars [of _ lclnam maxlen] by (auto simp: work_def dest: hd_in_set)
  have z: "0 \<notin> set work" using cc [of 0] by (auto simp: common_char_def)
  have len: "length (after_slash cur r) \<le> max (length cur) (length r)" for cur r
    by (induction cur r rule: after_slash.induct) auto
  have wl: "length work < maxlen"
  proof -
    define np where "np = (if after_slash lclnam lclnam = [] then lclnam else after_slash lclnam lclnam)"
    obtain w d e where l: "zltor_loop np maxlen [] None None = (w, d, e)" by (metis prod_cases3)
    have "length w \<le> length np" using zltor_loop_spec [OF l] by simp
    also have "\<dots> < maxlen" using len [of lclnam lclnam] assms(2) by (simp add: np_def)
    finally show ?thesis
      using l by (auto simp: work_def zltor_work_def Let_def np_def split: option.splits if_splits)
  qed
  define off :: nat where "off = (if work \<noteq> [] \<and> work ! 0 = 46 then 1 else 0)"
  define pk where "pk = (if off = 1 then pktnam[0 := 88] else pktnam)"
  obtain q where q: "strncpy pk off work maxlen = Some q" "p = q[off + maxlen - 1 := 0]"
    using assms(1) by (auto simp: zltor_def Let_def work_def [symmetric] off_def pk_def split: option.splits if_splits)
  have "q ! (off + maxlen - 1) = 0" "off + maxlen - 1 < length q"
    using q(1) wl by (auto simp: strncpy_def nth_append split: if_splits)
  then have p: "p = q" using q(2) by (metis list_update_id)
  have c: "cstr (drop off p) = work" using strncpy_cstr [OF q(1) wl z] p by simp
  show ?thesis
  proof (cases "off = 1")
    case True
    have "take 1 q = [88]" using q(1) True assms(2)
      by (cases pktnam) (auto simp: strncpy_def pk_def split: if_splits)
    then obtain q' where q': "q = 88 # q'" by (cases q) auto
    then have "cstr q' = work" using c True p by simp
    then have "cstr p = 88 # work" using p q' by (simp add: cstr_def)
    moreover have "common_char 88" by (simp add: common_char_def islower_def word_less_nat_alt word_le_nat_alt)
    ultimately show ?thesis using cc cl by (cases "work = []") (auto simp: list_all_iff)
  next
    case False
    then show ?thesis using c cc cl by (cases "work = []") (auto simp: off_def list_all_iff split: if_splits)
  qed
qed

text \<open>
  A local name whose only dot is its first character, such as
  \<open>.profile\<close>, gets an \<open>X\<close> in front, and then the copy of \<open>maxlen\<close> characters (which \<open>strncpy\<close> fills
  up with NULs) starts at the second cell: with the buffer of \<open>MAXPATHLEN\<close> cells that \<open>sfile\<close>
  passes, it goes one cell beyond the buffer, however short the name is.
\<close>

lemma zltor_dot_file_overflow:
  "length pktnam = MAXPATHLEN \<Longrightarrow> zltor False [46, 112, 114, 111, 102, 105, 108, 101] pktnam MAXPATHLEN = None"
proof -
  have "zltor_work [46, 112, 114, 111, 102, 105, 108, 101] MAXPATHLEN = [46, 80, 82, 79, 70, 73, 76, 69]" by code_simp
  then show "length pktnam = MAXPATHLEN \<Longrightarrow> zltor False [46, 112, 114, 111, 102, 105, 108, 101] pktnam MAXPATHLEN = None"
    by (simp add: zltor_def strncpy_def)
qed

section \<open>Names come back\<close>

text \<open>Names of lower case letters, digits, hyphens and underscores with one dot inside, or none.\<close>

definition plain_char :: "byte \<Rightarrow> bool" where
  "plain_char c \<longleftrightarrow> islower c \<or> 48 \<le> c \<and> c \<le> 57 \<or> c = 45 \<or> c = 95"

lemma plain_char_up: "plain_char c \<Longrightarrow> zltor_char c = toupper c \<and> tolower (toupper c) = c \<and> 32 < toupper c \<and>
    \<not> islower (toupper c) \<and> c \<noteq> 46 \<and> c \<noteq> 47 \<and> c \<noteq> 0 \<and> toupper c \<noteq> 0"
proof (cases "islower c")
  case True
  have "isupper (toupper c)" by (rule toupper_isupper [OF True])
  moreover have "tolower (toupper c) = c" using toupper_isupper [OF True] True by (simp add: tolower_def toupper_def)
  moreover have "isupper x \<Longrightarrow> 32 < x \<and> \<not> islower x \<and> x \<noteq> 0" for x
    by (auto simp: isupper_def islower_def word_less_nat_alt word_le_nat_alt)
  ultimately show ?thesis using True by (auto simp: zltor_char_def islower_def)
next
  case False
  assume "plain_char c"
  then have "c = 45 \<or> c = 95 \<or> 48 \<le> c \<and> c \<le> 57" using False by (auto simp: plain_char_def)
  moreover have "\<not> isupper c" using calculation by (auto simp: isupper_def word_le_nat_alt)
  ultimately show ?thesis using False
    by (auto simp: zltor_char_def toupper_def tolower_def word_less_nat_alt word_le_nat_alt word_unat_eq_iff)
qed

lemma after_slash_none: "47 \<notin> set r \<Longrightarrow> after_slash cur r = cur"
  by (induction cur r rule: after_slash.induct) auto

lemma zltor_loop_plain:
  "list_all plain_char cp \<Longrightarrow> length cp \<le> n \<Longrightarrow>
   zltor_loop (cp @ r) n out dotp dirp = zltor_loop r (n - length cp) (out @ map toupper cp) dotp dirp"
proof (induction cp arbitrary: n out)
  case (Cons c cp)
  then obtain m where "n = Suc m" by (cases n) auto
  with Cons plain_char_up [of c] show ?case by simp
qed simp

lemma zltor_work_plain:
  assumes "list_all plain_char a" "list_all plain_char b" "length (a @ 46 # b) < maxlen" "a \<noteq> []"
  shows "zltor_work a maxlen = map toupper a" "zltor_work (a @ 46 # b) maxlen = map toupper a @ 46 # map toupper b"
proof -
  have s: "47 \<notin> set a" "47 \<notin> set b" using assms(1,2) plain_char_up by (auto simp: list_all_iff)
  have "zltor_loop a maxlen [] None None = (map toupper a, None, None)"
    using zltor_loop_plain [OF assms(1), of maxlen "[]"] assms(3) by simp
  then show "zltor_work a maxlen = map toupper a"
    using s assms(4) by (simp add: zltor_work_def after_slash_none)
  obtain m where m: "maxlen - length a = Suc m" "length b \<le> m" using assms(3) by (cases "maxlen - length a") auto
  have "zltor_char 46 = 95" by code_simp
  then have "zltor_loop (a @ 46 # b) maxlen [] None None = (map toupper a @ 95 # map toupper b, Some (length a), None)"
    using zltor_loop_plain [OF assms(1), of maxlen "46 # b"] zltor_loop_plain [OF assms(2) m(2), of "[]"] assms(3) m(1) by simp
  then show "zltor_work (a @ 46 # b) maxlen = map toupper a @ 46 # map toupper b"
    using s assms(4) by (simp add: zltor_work_def after_slash_none list_update_append)
qed

lemma zltor_plain:
  assumes "zltor_work nam maxlen = w" "w \<noteq> []" "w ! 0 \<noteq> 46" "length w < maxlen" "0 \<notin> set w" "maxlen \<le> length pktnam"
  shows "\<exists>p. zltor False nam pktnam maxlen = Some p \<and> cstr p = w"
proof -
  obtain q where q: "strncpy pktnam 0 w maxlen = Some q" using assms(6) by (simp add: strncpy_def)
  have "q ! (maxlen - 1) = 0" "maxlen - 1 < length q"
    using q assms(4,6) by (auto simp: strncpy_def nth_append split: if_splits)
  then have "q[maxlen - 1 := 0] = q" by (metis list_update_id)
  moreover have "cstr q = w" using strncpy_cstr [OF q assms(4,5)] by simp
  ultimately show ?thesis using q assms by (auto simp: zltor_def Let_def)
qed

lemma zrtol_loop_keeps:
  "list_all (\<lambda>c. 32 < c \<and> \<not> islower c) r \<Longrightarrow> length r \<le> n \<Longrightarrow>
   zrtol_loop r n flag up lo out = (out @ r, up \<or> (\<exists>c \<in> set r. isupper c), lo)"
proof (induction r arbitrary: n flag up out)
  case (Cons c r)
  then obtain m where "n = Suc m" by (cases n) auto
  with Cons show ?case by (auto simp: Let_def)
qed simp

lemma strip_right_id: "rs = [] \<or> \<not> hd rs < 33 \<Longrightarrow> strip_right rs = rs"
  by (subst strip_right.simps) (auto split: list.splits)

lemma zrtol_upper:
  assumes "w \<noteq> []" "list_all (\<lambda>c. 32 < c \<and> \<not> islower c) w" "\<exists>c \<in> set w. isupper c" "length w \<le> maxlen"
  shows "zrtol_name False w maxlen = map tolower w"
proof -
  have "\<not> last w < 33" using assms(1,2) by (auto simp: list_all_iff word_less_nat_alt dest!: bspec [OF _ last_in_set])
  then have "strip_right (rev w) = rev w" using assms(1) by (intro strip_right_id) (simp add: hd_rev)
  then show ?thesis using zrtol_loop_keeps [OF assms(2,4)] assms(1,3) by (simp add: zrtol_name_def)
qed

text \<open>
  C26. A file name of lower case letters, digits, hyphens and underscores with at
  least one letter and with one dot or none comes back unchanged: the sender's \<open>zltor\<close> puts it in
  the common form and the receiver's \<open>zrtol\<close> restores it.
\<close>

theorem name_roundtrip:
  assumes "list_all plain_char a" "list_all plain_char b" "\<exists>c \<in> set (a @ b). islower c" "a \<noteq> []"
    "nam = a @ 46 # b \<or> nam = a \<and> b = []" "length nam + 1 < maxlen" "maxlen \<le> length pktnam"
  shows "\<exists>p. zltor False nam pktnam maxlen = Some p \<and> zrtol_name False (cstr p) maxlen = nam"
proof -
  define w where "w = (if nam = a then map toupper a else map toupper a @ 46 # map toupper b)"
  have l: "length (a @ 46 # b) < maxlen" using assms(5,6) by auto
  have na: "a @ 46 # b \<noteq> a" by simp
  have ww: "zltor_work nam maxlen = w"
    using zltor_work_plain [OF assms(1,2) l assms(4)] assms(5) na by (auto simp: w_def)
  have up: "c \<in> set a \<or> c \<in> set b \<Longrightarrow> tolower (toupper c) = c \<and> 32 < toupper c \<and> \<not> islower (toupper c) \<and> toupper c \<noteq> 0" for c
    using assms(1,2) plain_char_up by (auto simp: list_all_iff)
  have d: "tolower 46 = 46" "32 < (46 :: byte)" "\<not> islower 46" by code_simp+
  have m: "map (tolower \<circ> toupper) a = a" "map (tolower \<circ> toupper) b = b" using up by (auto intro: map_idI)
  have "w \<noteq> []" "w ! 0 \<noteq> 46" "length w < maxlen" "0 \<notin> set w"
  proof -
    show "w \<noteq> []" using assms(4) by (simp add: w_def)
    obtain c a' where a: "a = c # a'" using assms(4) by (cases a) auto
    have "zltor_char c = toupper c" using assms(1) plain_char_up by (auto simp: a)
    then show "w ! 0 \<noteq> 46" using zltor_char_common [of c] by (auto simp: w_def a)
    show "length w < maxlen" using assms(6) assms(5) by (auto simp: w_def)
    show "0 \<notin> set w" using up by (auto simp: w_def)
  qed
  from zltor_plain [OF ww this assms(7)] obtain p where p: "zltor False nam pktnam maxlen = Some p" "cstr p = w" by blast
  have "zrtol_name False w maxlen = map tolower w"
  proof (rule zrtol_upper)
    show "w \<noteq> []" "length w \<le> maxlen" using \<open>w \<noteq> []\<close> \<open>length w < maxlen\<close> by simp_all
    show "list_all (\<lambda>c. 32 < c \<and> \<not> islower c) w" using up d by (auto simp: w_def list_all_iff)
    show "\<exists>c \<in> set w. isupper c" using assms(3,5) toupper_isupper na by (auto simp: w_def)
  qed
  also have "map tolower w = nam" using assms(5) m d by (auto simp: w_def)
  finally show ?thesis using p by auto
qed

theorem name_roundtrip_witness:
  "\<exists>p. zltor False [97, 49, 46, 99] (replicate 10 0) 9 = Some p \<and> zrtol_name False (cstr p) 9 = [97, 49, 46, 99]"
proof -
  have "list_all plain_char [97, 49]" "list_all plain_char [99]" "islower 97" by code_simp+
  then show ?thesis using name_roundtrip [of "[97, 49]" "[99]" "[97, 49, 46, 99]" 9 "replicate 10 0"] by simp
qed

section \<open>Backing up\<close>

lemma backup_search_spec:
  assumes "backup_search n i fn p s = (x, t)"
  shows "x = 0 \<and> (\<exists>new. files s new = None \<and> files t = (files s)(new := files s fn, fn := None)) \<or>
    x = -1 \<and> (t = s \<or> (\<exists>new. files s new = None \<and> files t = (files s)(new := files s fn)))"
  using assms
proof (induction n i fn p s rule: backup_search.induct)
  case (2 n i fn p s)
  let ?new = "backup_name p i"
  show ?case
  proof (cases "files s ?new = None")
    case True
    then consider "x = -1" "t = s" | "x = -1" "files t = (files s)(?new := files s fn)"
      | "x = 0" "files t = (files s)(?new := files s fn, fn := None)"
      using "2.prems" by (auto simp: Let_def split: if_splits)
    then show ?thesis using True by cases blast+
  next
    case False
    then have "backup_search n (Suc i) fn p s = (x, t)" using "2.prems" by (auto simp: Let_def)
    from "2.IH" [OF refl False this] show ?thesis .
  qed
qed simp

text \<open>
  C24. \<open>zbackup\<close> never loses a file: when it succeeds on an existing file, the
  name is free, the old contents are under a name that nothing had before, and every other file is
  as it was; when it fails, every file is still there, at most with a second name for the old file.
\<close>

theorem zbackup_loses_nothing:
  assumes "zbackup fn s = (x, t)" "files s fn = Some nd"
  shows "x = 0 \<and> (\<exists>new. new \<noteq> fn \<and> files s new = None \<and> files t = (files s)(new \<mapsto> nd, fn := None)) \<or>
    x = -1 \<and> (t = s \<or> (\<exists>new. files s new = None \<and> files t = (files s)(new \<mapsto> nd)))"
proof (cases "fn = []")
  case True
  with assms(1) show ?thesis by (simp add: zbackup_def)
next
  case False
  with assms have "backup_search 999 1 fn (backup_stem fn) s = (x, t)" by (simp add: zbackup_def)
  from backup_search_spec [OF this] consider
      new where "x = 0" "files s new = None" "files t = (files s)(new := files s fn, fn := None)"
    | "x = -1" "t = s" | new where "x = -1" "files s new = None" "files t = (files s)(new := files s fn)" by blast
  then show ?thesis
  proof cases
    case 1
    then have "new \<noteq> fn" using assms(2) by auto
    with 1 assms(2) show ?thesis by metis
  qed (use assms(2) in metis)+
qed

text \<open>A backup name that is free is found.\<close>

lemma backup_search_finds:
  assumes "\<exists>j. i \<le> j \<and> j < i + n \<and> files s (backup_name p j) = None"
    "\<And>new. link_ok s fn new" "unlink_ok s fn"
  shows "fst (backup_search n i fn p s) = 0"
  using assms
proof (induction n i fn p s rule: backup_search.induct)
  case (2 n i fn p s)
  show ?case
  proof (cases "files s (backup_name p i) = None")
    case True
    then show ?thesis using "2.prems" by simp
  next
    case False
    have "\<exists>j. Suc i \<le> j \<and> j < Suc i + n \<and> files s (backup_name p j) = None"
    proof -
      obtain j where j: "i \<le> j" "j < i + Suc n" "files s (backup_name p j) = None" using "2.prems"(1) by blast
      then have "j \<noteq> i" using False by auto
      with j show ?thesis by (intro exI [of _ j]) auto
    qed
    with 2 False show ?thesis by (simp add: Let_def)
  qed
qed auto

definition fs0 :: "(byte list \<times> byte list) list \<Rightarrow> zfs" where
  "fs0 xs = \<lparr>files = map_of (map (\<lambda>(n, c). (n, \<lparr>isreg = True, content = c\<rparr>)) xs), can_read = (\<lambda>_. True),
     can_write = (\<lambda>_. True), link_ok = (\<lambda>_ _. True), unlink_ok = (\<lambda>_. True), creat_ok = (\<lambda>_. True), close_ok = True\<rparr>"

theorem zbackup_loses_nothing_witness:
  "\<exists>x t. zbackup [97] (fs0 [([97], [1, 2])]) = (x, t) \<and>
     (x = 0 \<and> (\<exists>new. new \<noteq> [97] \<and> files (fs0 [([97], [1, 2])]) new = None \<and>
        files t = (files (fs0 [([97], [1, 2])]))(new \<mapsto> \<lparr>isreg = True, content = [1, 2]\<rparr>, [97] := None)) \<or>
      x = -1 \<and> (t = fs0 [([97], [1, 2])] \<or> (\<exists>new. files (fs0 [([97], [1, 2])]) new = None \<and>
        files t = (files (fs0 [([97], [1, 2])]))(new \<mapsto> \<lparr>isreg = True, content = [1, 2]\<rparr>))))"
proof -
  obtain x t where z: "zbackup [97] (fs0 [([97], [1, 2])]) = (x, t)" by fastforce
  have f: "files (fs0 [([97], [1, 2])]) [97] = Some \<lparr>isreg = True, content = [1, 2]\<rparr>" by (simp add: fs0_def)
  from zbackup_loses_nothing [OF z f] z show ?thesis by blast
qed

text \<open>
  C25. \<open>zbackup\<close> succeeds whenever one of the 999 backup names is free and the
  operating system grants the link and the unlink: the search finds the first free name.
\<close>

theorem zbackup_succeeds:
  assumes "fn \<noteq> []" "1 \<le> j" "j \<le> 999" "files s (backup_name (backup_stem fn) j) = None"
    "\<And>new. link_ok s fn new" "unlink_ok s fn"
  shows "fst (zbackup fn s) = 0"
proof (cases "files s fn = None")
  case True
  then show ?thesis using assms(1) by (simp add: zbackup_def)
next
  case False
  have "\<exists>j. 1 \<le> j \<and> j < 1 + 999 \<and> files s (backup_name (backup_stem fn) j) = None"
    using assms(2-4) by (intro exI [of _ j]) auto
  from backup_search_finds [OF this assms(5,6)] False assms(1) show ?thesis by (simp add: zbackup_def)
qed

theorem zbackup_succeeds_witness: "fst (zbackup [97] (fs0 [([97], [1, 2])])) = 0"
proof (rule zbackup_succeeds [of _ 1])
  have "backup_name (backup_stem [97]) 1 = [97, 46, 126, 49, 126]" by code_simp
  then show "files (fs0 [([97], [1, 2])]) (backup_name (backup_stem [97]) 1) = None" by (simp add: fs0_def)
qed (simp_all add: fs0_def)

end
