(* ===== verification/Kermit_Session.thy ===== *)
theory Kermit_Session
  imports Kermit_Params Kermit_Names
begin

text \<open>
  The transaction layer of gkermit.c: reading the next packet with retransmission (\<open>input\<close>),
  acknowledgements, and the functions the protocol automaton calls to send and receive files.
\<close>

section \<open>Definitions\<close>

record kses = kpar +
  fsys :: zfs
  keep :: bool
  backup :: bool
  cmarg :: "byte list"
  cmarg2 :: "byte list option"
  cmlist :: "byte list list"
  nfils :: int
  start :: byte
  filelength :: int
  ofile :: "byte list"
  opath :: "byte list"
  chkres :: "int list"

text \<open>
  \<open>ttflui\<close> throws away the input that has arrived. \<open>ttchk\<close> asks how much input is waiting; its
  answers are listed in \<open>chkres\<close>, and there is nothing to read once they are used up.
\<close>

fun arrived :: "lineev list \<Rightarrow> lineev list" where
  "arrived [] = []"
| "arrived (Rlater # es) = Rlater # es"
| "arrived (e # es) = arrived es"

definition ttflui :: "'a kcomm_scheme \<Rightarrow> 'a kcomm_scheme" where
  "ttflui s = s\<lparr>line_in := arrived (line_in s)\<rparr>"

definition ttchk :: "'a kses_scheme \<Rightarrow> int \<times> 'a kses_scheme" where
  "ttchk s = (case chkres s of [] \<Rightarrow> (0, s) | x # xs \<Rightarrow> (x, s\<lparr>chkres := xs\<rparr>))"

text \<open>\<open>mystrchr("TQN",type)\<close>: the search also finds the NUL that ends the string.\<close>

definition bad_packet :: "byte \<Rightarrow> bool" where
  "bad_packet type \<longleftrightarrow> type \<in> {84, 81, 78, 0}"

lemma errpkt_not_Ret: "errpkt m s \<noteq> Ret x t"
  by (simp add: errpkt_def kbind_Ret_iff)

lemma ttol_retries: "ttol n s = (x, t) \<Longrightarrow> retries t = retries s"
  by (auto simp: ttol_def Let_def split: prod.splits)

lemma spacket_retries: "spacket ty n d s = Ret x t \<Longrightarrow> retries t = retries s"
  by (auto simp: spacket_def Let_def split: if_splits prod.splits dest: ttol_retries)

lemma nak_retries: "nak s = Ret x t \<Longrightarrow> retries t = Suc (retries s) \<and> retries t \<le> MAXTRY"
  by (auto simp: nak_def Let_def errpkt_not_Ret split: if_splits dest: spacket_retries)

lemma resend_retries: "resend s = Ret x t \<Longrightarrow> retries t = Suc (retries s) \<and> retries t \<le> MAXTRY"
  using nak_retries [of s x t]
  by (auto simp: resend_def Let_def errpkt_not_Ret split: if_splits prod.splits dest: ttol_retries)

lemma ttinl_retries: "ttinl mx ti soh turn s = Ret j t \<Longrightarrow> retries t = retries s"
  by (auto simp: ttinl_def Let_def split: outcome.splits if_splits)

lemma packet_fields_retries: "packet_fields off s = Ret b t \<Longrightarrow> retries t = retries s"
  by (auto simp: packet_fields_def Let_def errpkt_not_Ret split: if_splits)

lemma long_header_retries: "long_header s n = Ret b t \<Longrightarrow> retries t = retries s"
  by (auto simp: long_header_def Let_def split: if_splits)

text \<open>What the parts of \<open>rpacket\<close> leave alone, \<open>rpacket\<close> leaves alone.\<close>

lemma rpacket_preserves:
  assumes "rpacket s = Ret b t"
    and start: "f (s\<lparr>rsn := -1, rln := -1, rcvpkt := (rcvpkt s)[0 := 0]\<rparr>) = f s"
    and inl: "\<And>mx ti soh turn s j t. ttinl mx ti soh turn s = Ret j t \<Longrightarrow> f t = f s"
    and hdr: "\<And>s n b t. long_header s n = Ret b t \<Longrightarrow> f t = f s"
    and fields: "\<And>off s b t. packet_fields off s = Ret b t \<Longrightarrow> f t = f s"
    and rln: "\<And>s n. f (s\<lparr>rln := n\<rparr>) = f s"
  shows "f t = f s"
proof -
  let ?s0 = "s\<lparr>rsn := -1, rln := -1, rcvpkt := (rcvpkt s)[0 := 0]\<rparr>"
  from assms(1) obtain j u where u: "ttinl (maxrp s) (timint s) (rmark s) 0 ?s0 = Ret j u"
    and r: "(if j < 5 then (if j = -1 then Ret 84 u else if j < -1 then Exit 1 u else Ret 81 u)
       else let l = xunchar (rcvpkt u ! 1) in
         if l = 0 then kbind (long_header u (nat j)) (\<lambda>ok s. if ok then packet_fields 3 s else Ret 81 s)
         else if l < 3 then Ret 81 u else packet_fields 0 (u\<lparr>rln := l - bctu u - 2\<rparr>)) = Ret b t"
    unfolding rpacket_def Let_def kbind_Ret_iff by simp blast
  have "f t = f u"
  proof (cases "j < 5 \<or> xunchar (rcvpkt u ! 1) \<noteq> 0")
    case True
    then show ?thesis using r by (auto simp: Let_def rln split: if_splits dest!: fields)
  next
    case False
    then have "kbind (long_header u (nat j)) (\<lambda>ok s. if ok then packet_fields 3 s else Ret 81 s) = Ret b t"
      using r by simp
    then show ?thesis by (auto simp: kbind_Ret_iff split: if_splits dest!: hdr fields)
  qed
  then show ?thesis using inl [OF u] start by simp
qed

lemma rpacket_retries: "rpacket s = Ret b t \<Longrightarrow> retries t = retries s"
  by (erule rpacket_preserves) (auto dest: ttinl_retries long_header_retries packet_fields_retries)

text \<open>The loop of \<open>input\<close>: resend until a packet with the right number comes.\<close>

function input_loop :: "byte \<Rightarrow> 'a kses_scheme \<Rightarrow> (byte, 'a kses_scheme) outcome" where
  "input_loop type s =
     (if rsn s \<noteq> seq s \<or> bad_packet type then
        (if streaming s then errpkt (cbytes ''Transmission error while streaming'') s
         else kbind (resend s) (\<lambda>x s. kbind (rpacket s) (\<lambda>type s. input_loop type s)))
      else Ret type s)"
  by pat_completeness auto
termination
  by (relation "measure (\<lambda>(type, s). Suc MAXTRY - retries s)")
     (auto dest!: resend_retries rpacket_retries)

declare input_loop.simps [simp del]

definition input :: "'a kses_scheme \<Rightarrow> (byte, 'a kses_scheme) outcome" where
  "input s =
     (if start s \<noteq> 0 then Ret (start s) (s\<lparr>start := 0\<rparr>)
      else
        (let finish = (\<lambda>type s. Ret type (if streaming s then s else ttflui s))
         in if streaming s \<and> sendtype s = 68 then
              (case ttchk s of (x, s) \<Rightarrow>
                 if x < 0 then errpkt (cbytes ''Fatal i/o error'') s
                 else if x < 5 then Ret 89 s
                 else kbind (rpacket (s\<lparr>timint := 4\<rparr>)) (\<lambda>type s.
                   (let s = s\<lparr>timint := 0\<rparr>
                    in if bad_packet type then errpkt (cbytes ''Transmission error while streaming'') s
                       else finish type s)))
            else kbind (rpacket s) (\<lambda>type s. kbind (input_loop type s) finish)))"

definition nxtpkt :: "'a kcomm_scheme \<Rightarrow> 'a kcomm_scheme" where
  "nxtpkt s = s\<lparr>retries := 0, seq := (seq s + 1) AND 63\<rparr>"

definition ack :: "'a kses_scheme \<Rightarrow> (int, 'a kses_scheme) outcome" where
  "ack s =
     (if \<not> streaming s \<or> recvtype s \<noteq> 68 then kbind (spacket 89 (seq s) [] s) (\<lambda>x s. Ret x (nxtpkt s))
      else Ret 0 (nxtpkt s))"

definition ack1 :: "byte list \<Rightarrow> 'a kses_scheme \<Rightarrow> (int, 'a kses_scheme) outcome" where
  "ack1 d s = kbind (spacket 89 (seq s) d s) (\<lambda>x s. Ret x (nxtpkt s))"

definition sinit :: "byte \<Rightarrow> 'a kses_scheme \<Rightarrow> (int, 'a kses_scheme) outcome" where
  "sinit c s = (case rpar s of (d, s) \<Rightarrow> spacket c (seq s) d s)"

text \<open>Opening and closing files.\<close>

definition zopeni :: "byte list \<Rightarrow> 'a kses_scheme \<Rightarrow> int \<times> 'a kses_scheme" where
  "zopeni name s =
     (let nd = files (fsys s) name;
          opened = (nd \<noteq> None \<and> can_read (fsys s) name);
          s = s\<lparr>ifp := (case nd of Some n \<Rightarrow> if opened then content n else [] | None \<Rightarrow> []),
                filelength := zchki name (fsys s)\<rparr>
      in if filelength s < 0 then (filelength s, s)
         else (if opened then 0 else -1, s\<lparr>zincnt := 0, zinptr := 0\<rparr>))"

definition zopeno :: "byte list \<Rightarrow> 'a kses_scheme \<Rightarrow> int \<times> 'a kses_scheme" where
  "zopeno name s =
     (if creat_ok (fsys s) name then
        (0, s\<lparr>fsys := (fsys s)\<lparr>files := (files (fsys s))(name \<mapsto> \<lparr>isreg = True, content = []\<rparr>)\<rparr>,
              ofp := [], opath := name, ofile := take (MAXPATHLEN - 1) name\<rparr>)
      else (-1, s))"

definition zclosi :: "'a kses_scheme \<Rightarrow> int \<times> 'a kses_scheme" where
  "zclosi s = (if close_ok (fsys s) then 0 else -1, s\<lparr>ifp := []\<rparr>)"

definition zcloso :: "bool \<Rightarrow> 'a kses_scheme \<Rightarrow> int \<times> 'a kses_scheme" where
  "zcloso discard s =
     (let fs = fsys s;
          fs = fs\<lparr>files := (files fs)(opath s \<mapsto> \<lparr>isreg = True, content = ofp s\<rparr>)\<rparr>;
          fs = (if discard \<and> \<not> keep s \<and> unlink_ok fs (ofile s) then fs\<lparr>files := (files fs)(ofile s := None)\<rparr> else fs)
      in (if close_ok (fsys s) then 0 else -1, s\<lparr>fsys := fs\<rparr>))"

text \<open>The packets of a file to send: header, attributes, data, end of file, end of transmission.\<close>

definition sfile :: "'a kses_scheme \<Rightarrow> (int, 'a kses_scheme) outcome" where
  "sfile s =
     (case zopeni (cstr (filnam s)) s of (x, s) \<Rightarrow>
        if x < 0 then errpkt (cbytes ''Failure to open file'') s
        else
          (let buf = replicate MAXPATHLEN 0
           in case (case cmarg2 s of
                      Some n \<Rightarrow> strncpy buf 0 n MAXPATHLEN
                    | None \<Rightarrow> zltor (literal s) (cstr (filnam s)) buf MAXPATHLEN) of
                None \<Rightarrow> Wild
              | Some pktnam \<Rightarrow>
                  if 0 \<notin> set pktnam then Wild
                  else
                    (case encstr (cstr pktnam) (spsiz s) (s\<lparr>cmarg2 := None\<rparr>) of (x, s) \<Rightarrow>
                       (let s = s\<lparr>first := 1, maxsiz := spsiz s - (bctr s + 3)\<rparr>;
                            s = (if spsiz s > 94 then s\<lparr>maxsiz := maxsiz s - 4\<rparr> else s);
                            s = nxtpkt s
                        in spacket 70 (seq s) (take (nat x) (xdata s)) s))))"

definition attr_data :: "bool \<Rightarrow> int \<Rightarrow> byte list" where
  "attr_data tm len =
     34 # (if \<not> tm then [tochar 2, 66, 56] else [tochar 3, 65, 77, 74, 42, tochar 1, 65]) @
     (if len > -1 then (let d = decimal (nat len) in 49 # tochar (int (length d)) # d) else [])"

definition sattr :: "'a kses_scheme \<Rightarrow> (int, 'a kses_scheme) outcome" where
  "sattr s =
     (let s = nxtpkt s;
          s = s\<lparr>xdata := store (xdata s) 0 (attr_data (textmode s) (filelength s) @ [0])\<rparr>
      in spacket 65 (seq s) (cstr (xdata s)) s)"

definition sdata :: "'a kses_scheme \<Rightarrow> (int, 'a kses_scheme) outcome" where
  "sdata s =
     (if cx s \<or> cz s then Ret 0 (s\<lparr>failure := True\<rparr>)
      else case getpkt (maxsiz s) s of (x, s) \<Rightarrow>
        if x < 1 then Ret 0 s
        else (let s = nxtpkt s in spacket 68 (seq s) (take (nat x) (xdata s)) s))"

definition seof :: "byte list \<Rightarrow> 'a kses_scheme \<Rightarrow> (int, 'a kses_scheme) outcome" where
  "seof d s =
     (case zclosi s of (x, s) \<Rightarrow>
        if x < 0 then errpkt (cbytes ''Failure to close input file'') s
        else (let s = nxtpkt s in spacket 90 (seq s) d s))"

definition seot :: "'a kses_scheme \<Rightarrow> (int, 'a kses_scheme) outcome" where
  "seot s = (let s = nxtpkt s in spacket 66 (seq s) [] s)"

text \<open>The next readable file of the list given on the command line.\<close>

fun gnfile_loop :: "byte list list \<Rightarrow> 'a kses_scheme \<Rightarrow> (int, 'a kses_scheme) outcome" where
  "gnfile_loop fs s =
     (if nfils s > 0 then
        (case fs of
           [] \<Rightarrow> Wild
         | f # fs \<Rightarrow>
             (case strncpy (filnam s) 0 f MAXPATHLEN of
                None \<Rightarrow> Wild
              | Some nam \<Rightarrow>
                  (let s = s\<lparr>nfils := nfils s - 1, cmlist := fs, filnam := nam[MAXPATHLEN - 1 := 0]\<rparr>
                   in if zchki (cstr (filnam s)) (fsys s) > -1 then Ret 1 s else gnfile_loop fs s)))
      else Ret 0 (s\<lparr>nfils := nfils s - 1\<rparr>))"

declare gnfile_loop.simps [simp del]

definition gnfile :: "'a kses_scheme \<Rightarrow> (int, 'a kses_scheme) outcome" where
  "gnfile s = (if cz s then Ret 0 s else gnfile_loop (cmlist s) s)"

text \<open>
  Receiving: the file named in a header packet is opened under its local name; \<open>gattr\<close> reads the
  attributes, \<open>pos\<close> being the place of its pointer in the packet buffer.
\<close>

definition rcvfil_name :: "'a kses_scheme \<Rightarrow> (byte list, 'a kses_scheme) outcome" where
  "rcvfil_name s =
     (case cmarg2 s of
        Some n \<Rightarrow>
          (let myname = take MAXPATHLEN n;
               s = (if backup s then s\<lparr>fsys := snd (zbackup myname (fsys s))\<rparr> else s)
           in Ret myname (s\<lparr>cmarg2 := None\<rparr>))
      | None \<Rightarrow>
          (case decstr (rdata s) s of (w, s) \<Rightarrow>
             if length w \<ge> length (filnam s) \<or> literal s \<and> length w \<ge> MAXPATHLEN then Wild
             else
               (case zrtol (literal s) (cstr w) (backup s) MAXPATHLEN (fsys s) of (x, myname, fs) \<Rightarrow>
                  (let s = s\<lparr>fsys := fs\<rparr>
                   in if x < 0 then errpkt (cbytes ''Backup file creation failure'') s
                      else Ret myname (s\<lparr>filnam := myname @ replicate (length (filnam s) - length myname) 0\<rparr>)))))"

definition rcvfil :: "'a kses_scheme \<Rightarrow> (int, 'a kses_scheme) outcome" where
  "rcvfil s =
     kbind (rcvfil_name (s\<lparr>cx := False\<rparr>)) (\<lambda>myname s.
       if zchko myname (fsys s) < 0 then errpkt (cbytes ''Write access denied'') s
       else case zopeno myname s of (x, s) \<Rightarrow>
         if x < 0 then errpkt (cbytes ''Error opening output file'') s else Ret 0 s)"

definition gattr_step :: "byte list \<Rightarrow> int \<Rightarrow> int \<Rightarrow> bool \<Rightarrow> (int \<times> int \<times> bool) option" where
  "gattr_step p pos rc tm =
     (case (aget p pos, aget p (pos + 1)) of
        (Some c, Some l) \<Rightarrow>
          (let aln = xunchar l; pos = pos + 2
           in if c = 34 then
                (let ft = (if aln > 0 then aget p pos else Some 0)
                 in case ft of
                      None \<Rightarrow> None
                    | Some f \<Rightarrow>
                        (let pos = pos + (if aln > 0 then aln else 0)
                         in if f \<noteq> 65 \<and> f \<noteq> 66 \<and> f \<noteq> 73 then Some (pos, -1, tm)
                            else Some (pos, rc, if f = 65 then True else if f = 66 then False else tm)))
              else Some (pos + aln, rc, tm))
      | _ \<Rightarrow> None)"

partial_function (option) gattr_loop :: "byte list \<Rightarrow> int \<Rightarrow> int \<Rightarrow> bool \<Rightarrow> (int \<times> bool) option option" where
  "gattr_loop p pos rc tm =
     (if aget p pos = Some 0 then Some (Some (rc, tm))
      else case gattr_step p pos rc tm of
        None \<Rightarrow> Some None
      | Some (pos, rc, tm) \<Rightarrow> gattr_loop p pos rc tm)"

definition gattr :: "'a kses_scheme \<Rightarrow> (int, 'a kses_scheme) outcome" where
  "gattr s =
     (case gattr_loop (rcvpkt s) (int (rdatap s)) 0 (textmode s) of
        None \<Rightarrow> Hang
      | Some None \<Rightarrow> Wild
      | Some (Some (rc, tm)) \<Rightarrow> Ret rc (s\<lparr>textmode := tm\<rparr>))"

definition closof :: "'a kses_scheme \<Rightarrow> (int, 'a kses_scheme) outcome" where
  "closof s =
     (case zcloso (cx s \<or> cz s) s of (x, s) \<Rightarrow>
        if x < 0 then errpkt (cbytes ''Failure to close output file'') s else Ret 0 s)"

definition scmd :: "byte \<Rightarrow> byte list \<Rightarrow> 'a kses_scheme \<Rightarrow> (int, 'a kses_scheme) outcome" where
  "scmd t d s =
     (case encstr d (spsiz s) s of (x, s) \<Rightarrow> spacket t (seq s) (take (xsize s) (xdata s)) s)"

definition streamon :: "'a kses_scheme \<Rightarrow> 'a kses_scheme" where
  "streamon s = (if streamok s > 0 then s\<lparr>streaming := True, timint := 0\<rparr> else s)"

section \<open>Only good packets get through\<close>

text \<open>
  The receive buffer holds a packet of type \<open>t\<close> whose block check is right: \<open>p\<close> is the buffer before
  the first character of the block check, at \<open>j\<close>, was overwritten to end the data.
\<close>

definition received :: "byte \<Rightarrow> 'a kcomm_scheme \<Rightarrow> bool" where
  "received t s \<longleftrightarrow> bctu s \<in> {1, 2, 3} \<and> recvtype s = t \<and>
     (\<exists>p j. rcvpkt s = p[j := 0] \<and> j + nat (bctu s) \<le> length p \<and> t = p ! 3 \<and> rsn s = xunchar (p ! 2) \<and>
        datalen s = int j - int (rdatap s) \<and>
        check_ok (bctu s) (parity s \<noteq> 0) (take (nat (bctu s)) (drop j p)) (take (j - 1) (drop 1 (p[j := 0]))))"








lemma received_ttflui [simp]: "received t (ttflui s) = received t s"
  by (simp add: received_def ttflui_def)


section \<open>Giving up\<close>













definition ses0 :: "lineev list \<Rightarrow> kses" where
  "ses0 es = kpar.extend ((par1 0 1 4000)\<lparr>line_in := es\<rparr>)
     \<lparr>fsys = fs0 [], keep = False, backup = True, cmarg = [], cmarg2 = None, cmlist = [], nfils = 0, start = 0,
      filelength = -1, ofile = [], opath = [], chkres = []\<rparr>"

lemmas ses0_defs = ses0_def par1_def tinit_def par0_defs kpar.defs



section \<open>Attributes\<close>

lemma aget_drop:
  assumes "drop i p = xs @ ys" "k < length xs"
  shows "aget p (int i + int k) = Some (xs ! k)"
proof -
  have "length p - i = length xs + length ys" using arg_cong [OF assms(1), of length] by simp
  then have l: "i + k < length p" using assms(2) by linarith
  have "p ! (i + k) = drop i p ! k" using l by simp
  then have "p ! (i + k) = xs ! k" using assms by (simp add: nth_append)
  then show ?thesis using l by (simp add: aget_def nat_add_distrib)
qed

text \<open>One attribute, a tag, a length and that many characters, is consumed in one round.\<close>

definition attr :: "byte \<Rightarrow> byte list \<Rightarrow> byte list" where
  "attr c v = c # tochar (int (length v)) # v"

lemma gattr_loop_attr:
  assumes "drop i p = attr c v @ w" "c \<noteq> 0" "length v \<le> 94" "c = 34 \<longrightarrow> v \<noteq> [] \<and> hd v \<in> {65, 66}"
  shows "gattr_loop p (int i) rc tm =
     gattr_loop p (int (i + 2 + length v)) rc (if c = 34 then hd v = 65 else tm)"
proof -
  have a: "aget p (int i + int k) = Some (attr c v ! k)" if "k < length v + 2" for k
    using that aget_drop [OF assms(1), of k] by (simp add: attr_def)
  have x: "aget p (int i) = Some c" "aget p (int i + 1) = Some (tochar (int (length v)))"
    using a [of 0] a [of 1] by (simp_all add: attr_def)
  have y: "v \<noteq> [] \<Longrightarrow> aget p (int i + 2) = Some (hd v)"
    using a [of 2] by (simp add: attr_def hd_conv_nth)
  have "gattr_step p (int i) rc tm = Some (int (i + 2 + length v), rc, if c = 34 then hd v = 65 else tm)"
    using assms(2-4) x y by (auto simp: gattr_step_def Let_def xunchar_tochar)
  then show ?thesis using x assms(2) by (subst gattr_loop.simps) simp
qed

lemma attr_data_attrs:
  "attr_data tm len = attr 34 (if tm then [65, 77, 74] else [66, 56]) @ (if tm then attr 42 [65] else []) @
     (if len > -1 then attr 49 (decimal (nat len)) else [])"
  by (simp add: attr_data_def attr_def Let_def)

lemma drop_shift: "drop i p = xs @ w \<Longrightarrow> drop (i + length xs) p = w"
  by (metis append_eq_conv_conj drop_drop add.commute)

text \<open>
  C27. The attributes a sender announces are understood by the receiver: the file
  is not refused, and the receiver changes to the sender's text or binary mode, whatever the length
  of the file.
\<close>

theorem attributes_roundtrip:
  assumes "drop (rdatap r) (rcvpkt r) = attr_data tm len @ 0 # w" "len < 2 ^ 63"
  shows "gattr r = Ret 0 (r\<lparr>textmode := tm\<rparr>)"
proof -
  let ?p = "rcvpkt r" and ?v = "if tm then [65, 77, 74] else [66, 56] :: byte list"
  have z: "gattr_loop ?p (int i) rc m = Some (Some (rc, m))" if "drop i ?p = 0 # w" for i rc m
    using aget_drop [of i ?p "[0]" w 0] that by (subst gattr_loop.simps) simp
  have n: "gattr_loop ?p (int i) rc m = Some (Some (rc, m))"
    if d: "drop i ?p = (if len > -1 then attr 49 (decimal (nat len)) else []) @ 0 # w" for i rc m
  proof (cases "len > -1")
    case True
    have "nat len < 10 ^ 19" using assms(2) by simp
    then have l: "length (decimal (nat len)) \<le> 94" using length_decimal [of "nat len" 19] by simp
    from d True have d: "drop i ?p = attr 49 (decimal (nat len)) @ 0 # w" by simp
    have "drop (i + 2 + length (decimal (nat len))) ?p = 0 # w" using drop_shift [OF d] by (simp add: attr_def add.assoc)
    from z [OF this] gattr_loop_attr [OF d _ l] show ?thesis by simp
  qed (use d z in simp)
  have t: "gattr_loop ?p (int i) rc m = Some (Some (rc, m))"
    if d: "drop i ?p = (if tm then attr 42 [65] else []) @ (if len > -1 then attr 49 (decimal (nat len)) else []) @ 0 # w" for i rc m
  proof (cases tm)
    case True
    from d True have d: "drop i ?p = attr 42 [65] @ (if len > -1 then attr 49 (decimal (nat len)) else []) @ 0 # w" by simp
    from n [OF drop_shift [OF d]] gattr_loop_attr [OF d] show ?thesis by (simp add: attr_def)
  qed (use d n in simp)
  have d: "drop (rdatap r) ?p = attr 34 ?v @ (if tm then attr 42 [65] else []) @
      (if len > -1 then attr 49 (decimal (nat len)) else []) @ 0 # w"
    using assms(1) by (simp add: attr_data_attrs)
  have "rdatap r + length (attr 34 ?v) = rdatap r + 2 + length ?v" by (simp add: attr_def)
  with t [OF drop_shift [OF d], of 0 tm] gattr_loop_attr [OF d, of 0 "textmode r"]
  have "gattr_loop ?p (int (rdatap r)) 0 (textmode r) = Some (Some (0, tm))" by (auto split: if_splits)
  then show ?thesis by (simp add: gattr_def)
qed

theorem attributes_roundtrip_witness:
  "gattr ((ses0 [])\<lparr>rcvpkt := attr_data True 1234 @ [0], rdatap := 0\<rparr>) =
     Ret 0 ((ses0 [])\<lparr>rcvpkt := attr_data True 1234 @ [0], rdatap := 0, textmode := True\<rparr>)"
  using attributes_roundtrip [of "(ses0 [])\<lparr>rcvpkt := attr_data True 1234 @ [0], rdatap := 0\<rparr>" True 1234 "[]"] by simp

lemma gattr_loop_stuck:
  assumes "aget p pos = Some c" "c \<noteq> 0" "c \<noteq> 34" "aget p (pos + 1) = Some 30"
  shows "gattr_loop p pos rc tm = None"
proof (rule ccontr)
  have x: "gattr_step p pos rc tm = Some (pos, rc, tm)" for rc tm
    using assms by (simp add: gattr_step_def Let_def xunchar_def)
  assume "gattr_loop p pos rc tm \<noteq> None"
  then obtain y where y: "gattr_loop p pos rc tm = Some y" by blast
  have "\<not> (p = p \<and> pos = pos)"
    by (rule gattr_loop.raw_induct [OF _ y, of "\<lambda>q k a b y. \<not> (q = p \<and> k = pos)"])
       (use assms(1,2) x in \<open>auto split: if_splits option.splits\<close>, blast)
  then show False by simp
qed

text \<open>
  C35. An attribute whose length character is the control character 30 steps the scan
  back to its own tag: a packet with such an attribute makes the receiver loop for ever.
\<close>

theorem gattr_hangs:
  assumes "drop (rdatap r) (rcvpkt r) = c # 30 # w" "c \<noteq> 0" "c \<noteq> 34"
  shows "gattr r = Hang"
proof -
  have "aget (rcvpkt r) (int (rdatap r)) = Some c" "aget (rcvpkt r) (int (rdatap r) + 1) = Some 30"
    using aget_drop [of "rdatap r" "rcvpkt r" "[c, 30]" w 0] aget_drop [of "rdatap r" "rcvpkt r" "[c, 30]" w 1] assms(1)
    by simp_all
  from gattr_loop_stuck [OF this(1) assms(2,3) this(2)] show ?thesis by (simp add: gattr_def)
qed

theorem gattr_hangs_witness: "gattr ((ses0 [])\<lparr>rcvpkt := [46, 30, 0], rdatap := 0\<rparr>) = Hang"
  by (rule gattr_hangs [where c = 46 and w = "[0]"]) simp_all

section \<open>Receiving over existing files\<close>

lemma zbackup_spec:
  assumes "zbackup fn s = (x, t)"
  shows "x = 0 \<and> (t = s \<and> files s fn = None \<or> (\<exists>new. files s new = None \<and> files t = (files s)(new := files s fn, fn := None))) \<or>
    x = -1 \<and> (t = s \<or> (\<exists>new. files s new = None \<and> files t = (files s)(new := files s fn)))"
  using assms backup_search_spec [of 999 1 fn "backup_stem fn" s x t] by (auto simp: zbackup_def split: if_splits)

text \<open>Every file of \<open>s\<close> is still there in \<open>t\<close>, perhaps under another name.\<close>

definition keeps_files :: "zfs \<Rightarrow> zfs \<Rightarrow> bool" where
  "keeps_files s t \<longleftrightarrow> (\<forall>n nd. files s n = Some nd \<longrightarrow> (\<exists>m. files t m = Some nd \<and> (m = n \<or> files s m = None)))"

lemma zbackup_keeps: "zbackup fn s = (x, t) \<Longrightarrow> keeps_files s t"
proof -
  assume "zbackup fn s = (x, t)"
  from zbackup_spec [OF this] consider "t = s" | new where "files s new = None" "files t = (files s)(new := files s fn, fn := None)"
    | new where "files s new = None" "files t = (files s)(new := files s fn)" by blast
  then show ?thesis
  proof cases
    case 2
    show ?thesis unfolding keeps_files_def
    proof (intro allI impI)
      fix n nd assume n: "files s n = Some nd"
      then have "new \<noteq> n" using 2(1) by auto
      show "\<exists>m. files t m = Some nd \<and> (m = n \<or> files s m = None)"
      proof (cases "n = fn")
        case True
        then show ?thesis using 2 n \<open>new \<noteq> n\<close> by (intro exI [of _ new]) simp
      qed (use 2 n \<open>new \<noteq> n\<close> in \<open>auto intro!: exI [of _ n]\<close>)
    qed
  next
    case 3
    then show ?thesis unfolding keeps_files_def by (metis fun_upd_apply option.distinct(1))
  qed (auto simp: keeps_files_def)
qed

lemma zopeno_keeps:
  assumes "keeps_files fs (fsys s)" "files (fsys s) name = None" "zopeno name s = (x, t)"
  shows "keeps_files fs (fsys t)"
proof (cases "creat_ok (fsys s) name")
  case True
  then have "files (fsys t) = (files (fsys s))(name \<mapsto> \<lparr>isreg = True, content = []\<rparr>)" using assms(3) by (auto simp: zopeno_def)
  with assms(1,2) show ?thesis unfolding keeps_files_def by (metis fun_upd_apply option.distinct(1))
qed (use assms in \<open>auto simp: zopeno_def\<close>)

text \<open>The decoder keeps the prefixes and everything that is not its own.\<close>

definition dec_frame :: "'a kdec_scheme \<Rightarrow> _" where
  "dec_frame s = (rctlq s, enc_pfx s, textmode s, maxsiz s, kdec.more s)"

lemma dec_frame_upd [simp]:
  "dec_frame (s\<lparr>rpt := n\<rparr>) = dec_frame s" "dec_frame (s\<lparr>osp := w\<rparr>) = dec_frame s" "dec_frame (s\<lparr>ofp := f\<rparr>) = dec_frame s"
  "dec_frame (s\<lparr>oroom := m\<rparr>) = dec_frame s" "dec_frame (s\<lparr>failure := b\<rparr>) = dec_frame s"
  by (simp_all add: dec_frame_def enc_pfx_def)

lemma dec_frame_put_run: "dec_frame (snd (put_run n a s)) = dec_frame s"
proof (induction n arbitrary: s)
  case (Suc n)
  obtain ok s1 where o: "put_out a s = (ok, s1)" by fastforce
  then have "dec_frame s1 = dec_frame s" by (auto simp: put_out_def split: option.splits nat.splits)
  then show ?case using Suc [of "s1\<lparr>rpt := int n\<rparr>"] o by (cases ok) simp_all
qed simp

lemma dec_frame_decode_loop: "dec_frame (snd (decode_loop d s)) = dec_frame s"
proof (induction d s rule: decode_loop.induct)
  case (2 a d s)
  show ?case
  proof (cases "rpt_prefix a d s")
    case (Inl s1)
    then show ?thesis by (auto simp: decode_loop.simps rpt_prefix_def Let_def split: if_splits list.splits)
  next
    case (Inr r)
    obtain a1 d1 s1 where r: "r = (a1, d1, s1)" by (cases r) auto
    have m: "dec_frame s1 = dec_frame s"
      using Inr r by (auto simp: rpt_prefix_def Let_def split: if_splits list.splits)
    show ?thesis
    proof (cases "ebq_prefix a1 d1 s1")
      case (Some e)
      obtain b8 a2 d2 where e: "e = (b8, a2, d2)" by (cases e) auto
      show ?thesis
      proof (cases "ctl_prefix a2 d2 s1")
        case (Some c)
        obtain a3 d3 where c: "c = (a3, d3)" by (cases c) auto
        define s2 where "s2 = (if rpt s1 = 0 then s1\<lparr>rpt := 1\<rparr> else s1)"
        have m2: "dec_frame s2 = dec_frame s" using m by (simp add: s2_def)
        obtain ok s3 where p: "put_run (nat (rpt s2)) (a3 OR b8) s2 = (ok, s3)" by fastforce
        then have m3: "dec_frame s3 = dec_frame s" using dec_frame_put_run [of "nat (rpt s2)" "a3 OR b8" s2] m2 by simp
        note q = Inr [unfolded r] \<open>ebq_prefix a1 d1 s1 = Some e\<close> [unfolded e] Some [unfolded c]
        note ih = 2 [OF q(1) refl refl q(2) refl refl q(3) refl s2_def refl]
        show ?thesis
        proof (cases "textmode s2 \<and> a3 OR b8 = 13")
          case True
          then show ?thesis using q ih(1) m2 by (simp add: decode_loop.simps Let_def flip: s2_def)
        next
          case False
          then show ?thesis using q ih(2) [OF False p [symmetric]] m3 p
            by (cases ok) (auto simp add: decode_loop.simps Let_def simp flip: s2_def)
        qed
      qed (use Inr r Some e m in \<open>simp add: decode_loop.simps\<close>)
    qed (use Inr r m in \<open>simp add: decode_loop.simps\<close>)
  qed
qed simp

lemma dec_frame_decode: "decode d s = (x, t) \<Longrightarrow> dec_frame t = dec_frame s"
  using dec_frame_decode_loop [of d "s\<lparr>rpt := 0\<rparr>"] by (simp add: decode_def)

lemma dec_frame_decstr: "decstr d s = (w, t) \<Longrightarrow> dec_frame t = dec_frame s"
  by (auto simp: decstr_def split: prod.splits option.splits dest!: dec_frame_decode)

lemma zopeno_opens:
  assumes "zopeno name s = (v, t)" "0 \<le> v"
  shows "files (fsys t) (opath t) = Some \<lparr>isreg = True, content = []\<rparr> \<and> ofp t = []"
proof (cases "creat_ok (fsys s) name")
  case True
  then have "t = snd (zopeno name s)" using assms(1) by simp
  then show ?thesis using True by (simp add: zopeno_def)
qed (use assms in \<open>simp add: zopeno_def\<close>)

text \<open>
  C23. A file that is received under the name in its header never destroys an
  existing one while backups are on: when \<open>rcvfil\<close> returns, the output file is open and empty, and
  every file there was before is still there with its contents, under its name or one that was free.
\<close>

theorem rcvfil_keeps_files:
  assumes "rcvfil s = Ret x t" "backup s" "cmarg2 s = None"
  shows "keeps_files (fsys s) (fsys t) \<and> files (fsys t) (opath t) = Some \<lparr>isreg = True, content = []\<rparr> \<and> ofp t = []"
proof -
  define s0 where "s0 = s\<lparr>cx := False\<rparr>"
  obtain w s1 where w: "decstr (rdata s0) s0 = (w, s1)" by fastforce
  have "kdec.more s1 = kdec.more s0" using dec_frame_decstr [OF w] by (simp add: dec_frame_def)
  then have f: "fsys s1 = fsys s" "backup s1" "cmarg2 s0 = None"
    using assms(2,3) by (cases s1, cases s, simp add: s0_def)+
  obtain y nam fs where z: "zrtol (literal s1) (cstr w) (backup s1) MAXPATHLEN (fsys s1) = (y, nam, fs)"
    by (metis prod_cases3)
  define s2 where "s2 = s1\<lparr>fsys := fs, filnam := nam @ replicate (length (filnam (s1\<lparr>fsys := fs\<rparr>)) - length nam) 0\<rparr>"
  define named where "named =
    (if length w \<ge> length (filnam s1) \<or> literal s1 \<and> length w \<ge> MAXPATHLEN then Wild
     else if y < 0 then errpkt (cbytes ''Backup file creation failure'') (s1\<lparr>fsys := fs\<rparr>) else Ret nam s2)"
  have "kbind named (\<lambda>myname s.
           if zchko myname (fsys s) < 0 then errpkt (cbytes ''Write access denied'') s
           else case zopeno myname s of (x, s) \<Rightarrow>
             if x < 0 then errpkt (cbytes ''Error opening output file'') s else Ret 0 s) = Ret x t"
    using assms(1) unfolding rcvfil_def rcvfil_name_def Let_def s0_def [symmetric] f(3) option.case w prod.case z named_def s2_def
    by assumption
  then have y: "0 \<le> y" and r: "(case zopeno nam s2 of (x, s) \<Rightarrow>
      if x < 0 then errpkt (cbytes ''Error opening output file'') s else Ret 0 s) = Ret x t"
    by (auto simp: named_def kbind_Ret_iff errpkt_not_Ret split: if_splits)
  obtain b where b: "zbackup nam (fsys s) = (b, fs)" "0 \<le> b"
  proof -
    obtain b fs' where "zbackup (zrtol_name (literal s1) (cstr w) MAXPATHLEN) (fsys s) = (b, fs')" by fastforce
    moreover from this z y f(1,2) have "nam = zrtol_name (literal s1) (cstr w) MAXPATHLEN" "fs = fs'" "0 \<le> b"
      by (simp_all add: zrtol_def split: if_splits)
    ultimately show thesis using that by simp
  qed
  then have "files (fsys s2) nam = None" using zbackup_spec [OF b(1)] by (auto simp: s2_def)
  moreover have "keeps_files (fsys s) (fsys s2)" using zbackup_keeps [OF b(1)] by (simp add: s2_def)
  moreover obtain v where v: "zopeno nam s2 = (v, t)" "0 \<le> v"
  proof -
    obtain v u where u: "zopeno nam s2 = (v, u)" by fastforce
    with r have "(if v < 0 then errpkt (cbytes ''Error opening output file'') u else Ret 0 u) = Ret x t" by simp
    then have "0 \<le> v" "u = t" by (simp_all add: errpkt_not_Ret split: if_splits)
    with u show thesis using that by simp
  qed
  ultimately have "keeps_files (fsys s) (fsys t)" using zopeno_keeps v(1) by blast
  moreover have "files (fsys t) (opath t) = Some \<lparr>isreg = True, content = []\<rparr> \<and> ofp t = []"
    by (rule zopeno_opens [OF v])
  ultimately show ?thesis by blast
qed

lemma zbackup_first:
  assumes "files s [97] \<noteq> None" "files s [97, 46, 126, 49, 126] = None"
  shows "zbackup [97] s =
     (if \<not> link_ok s [97] [97, 46, 126, 49, 126] then (-1, s)
      else (let s = s\<lparr>files := (files s)([97, 46, 126, 49, 126] := files s [97])\<rparr>
            in if \<not> unlink_ok s [97] then (-1, s) else (0, s\<lparr>files := (files s)([97] := None)\<rparr>)))"
proof -
  have n: "backup_name (backup_stem [97]) 1 = [97, 46, 126, 49, 126]" by code_simp
  show ?thesis
    using assms backup_search.simps(2) [of 998 1 "[97]" "backup_stem [97]" s, unfolded n]
    by (auto simp: zbackup_def Let_def)
qed

theorem rcvfil_keeps_files_witness:
  "\<exists>t. rcvfil ((ses0 [])\<lparr>fsys := fs0 [([97], [1, 2])], rcvpkt := [97, 0], datalen := 1\<rparr>) = Ret 0 t \<and>
     keeps_files (fs0 [([97], [1, 2])]) (fsys t) \<and> files (fsys t) (opath t) = Some \<lparr>isreg = True, content = []\<rparr>"
proof -
  define s where "s = (ses0 [])\<lparr>fsys := fs0 [([97], [1, 2])], rcvpkt := [97, 0], datalen := 1\<rparr>"
  have f: "rdata (s\<lparr>cx := False\<rparr>) = [97]" "cmarg2 s = None" "backup s" "fsys s = fs0 [([97], [1, 2])]"
    "length (filnam s) = 1025" "\<not> literal s" "\<not> rptflg s" "\<not> ebqflg s" "rctlq s \<noteq> 97" "\<not> textmode s"
    by (simp_all add: s_def rdata_def ses0_defs)
  have d: "decstr [97] (s\<lparr>cx := False\<rparr>) = ([97], s\<lparr>cx := False, rpt := 0, osp := None\<rparr>)"
    using f by (simp add: decstr_def decode_def decode_loop.simps rpt_prefix_def ebq_prefix_def ctl_prefix_def put_out_def Let_def)
  have z: "zrtol False [97] True MAXPATHLEN (fs0 [([97], [1, 2])]) = (0, [97], snd (zbackup [97] (fs0 [([97], [1, 2])])))"
  proof -
    have "zrtol_name False [97] MAXPATHLEN = [97]" by code_simp
    then show ?thesis by (simp add: zrtol_def zbackup_first fs0_def Let_def)
  qed
  obtain t where t: "rcvfil s = Ret 0 t"
    using f d z by (auto simp: rcvfil_def rcvfil_name_def Let_def cstr_def zchko_def zchki_def zopeno_def zbackup_first fs0_def)
  from rcvfil_keeps_files [OF this] t f show ?thesis by (auto simp: s_def)
qed

lemma backup_search_refused:
  assumes "\<forall>new. files s new = None \<longrightarrow> \<not> link_ok s fn new"
  shows "backup_search n i fn p s = (-1, s)"
  using assms by (induction n i fn p s rule: backup_search.induct) (auto simp: Let_def)

lemma zbackup_refused:
  "files s fn \<noteq> None \<Longrightarrow> \<forall>new. files s new = None \<longrightarrow> \<not> link_ok s fn new \<Longrightarrow> zbackup fn s = (-1, s)"
  by (auto simp: zbackup_def backup_search_refused)

text \<open>
  C36. With a local name given on the command line a failed backup is ignored: where
  the existing file cannot be linked to any free name, as in a directory that allows no links,
  \<open>rcvfil\<close> reports no error but truncates the file, and its old contents are under no other name. This holds
  for every name and every regular file that may be read and written.
\<close>

theorem as_name_truncates:
  assumes "cmarg2 s = Some n" "backup s" "fn = take MAXPATHLEN n" "n \<noteq> []"
    and "files (fsys s) fn = Some nd" "isreg nd" "can_read (fsys s) fn" "can_write (fsys s) fn" "creat_ok (fsys s) fn"
    and "\<forall>new. files (fsys s) new = None \<longrightarrow> \<not> link_ok (fsys s) fn new"
  shows "zbackup fn (fsys s) = (-1, fsys s) \<and> (\<exists>t. rcvfil s = Ret 0 t \<and> files (fsys t) = (files (fsys s))(fn \<mapsto> \<lparr>isreg = True, content = []\<rparr>))"
proof -
  have z: "zbackup fn (fsys s) = (-1, fsys s)" using assms(5,10) by (intro zbackup_refused) auto
  define u where "u = s\<lparr>cx := False, cmarg2 := None\<rparr>"
  have "rcvfil_name (s\<lparr>cx := False\<rparr>) = Ret fn u"
    using assms(1,2) z by (simp add: rcvfil_name_def Let_def u_def flip: assms(3))
  moreover have "\<not> zchko fn (fsys s) < 0"
    using assms(3-8) by (auto simp: zchko_def zchki_def Let_def)
  ultimately show ?thesis
    using assms(9) z by (simp add: rcvfil_def zopeno_def u_def)
qed

theorem as_name_truncates_witness:
  "\<exists>t. rcvfil ((ses0 [])\<lparr>fsys := (fs0 [([97], [1, 2])])\<lparr>link_ok := \<lambda>_ _. False\<rparr>, cmarg2 := Some [97]\<rparr>) = Ret 0 t \<and>
     files (fsys t) [97] = Some \<lparr>isreg = True, content = []\<rparr>"
proof -
  let ?s = "(ses0 [])\<lparr>fsys := (fs0 [([97], [1, 2])])\<lparr>link_ok := \<lambda>_ _. False\<rparr>, cmarg2 := Some [97]\<rparr>"
  have "zbackup [97] (fsys ?s) = (-1, fsys ?s) \<and>
    (\<exists>t. rcvfil ?s = Ret 0 t \<and> files (fsys t) = (files (fsys ?s))([97] \<mapsto> \<lparr>isreg = True, content = []\<rparr>))"
    by (rule as_name_truncates [where n = "[97]" and nd = "\<lparr>isreg = True, content = [1, 2]\<rparr>"])
       (simp_all add: ses0_defs fs0_def)
  then show ?thesis by auto
qed

end
