(* ===== verification/Kermit_Proto.thy ===== *)
theory Kermit_Proto
  imports Kermit_Session
begin

text \<open>
  The protocol automaton: the states and rules of gproto.w, and the loop that gwart generates around
  them, which reads a packet type and performs the action of the first rule that matches.
\<close>

section \<open>Definitions\<close>

text \<open>The states of gproto.w; \<open>Wstart\<close> is the state 0 the generated code starts in.\<close>

datatype wstate = Wstart | Ssini | Ssfil | Ssdat | Ssatt | Sseot | Sseof | Sipkt | Srini | Srfil | Srdat | Sratt

text \<open>
  What an action does at its end: \<open>Inl st\<close> goes on in state \<open>st\<close> (\<open>BEGIN\<close>, or the state it was
  in), \<open>Inr x\<close> is \<open>return(x)\<close>. \<open>errpkt\<close> never comes back.
\<close>

type_synonym 's verdict = "(wstate + int, 's) outcome"

definition rdata_head :: "'a kcomm_scheme \<Rightarrow> byte" where
  "rdata_head s = rcvpkt s ! rdatap s"

definition rdata_all :: "'a kcomm_scheme \<Rightarrow> byte list" where
  "rdata_all s = drop (rdatap s) (rcvpkt s)"

definition failed :: "'a kdec_scheme \<Rightarrow> int" where
  "failed s = (if failure s then 1 else 0)"

text \<open>Sending.\<close>

definition act_s :: "'a kses_scheme \<Rightarrow> 'a kses_scheme verdict" where
  "act_s s = kbind (sinit 83 (tinit s)) (\<lambda>x s.
     if x < 0 then errpkt (cbytes ''sinit'') s else Ret (Inl Ssini) s)"

definition act_ssini_Y :: "'a kses_scheme \<Rightarrow> 'a kses_scheme verdict" where
  "act_ssini_Y s =
     (let s = spar (rdata_all s) s; s = s\<lparr>bctu := bctr s\<rparr>
      in kbind (gnfile s) (\<lambda>x s.
           if x > 0 then
             kbind (sfile s) (\<lambda>x s.
               if x < 0 then errpkt (cbytes ''sfile'') s else Ret (Inl Ssfil) (streamon s))
           else
             kbind (seot s) (\<lambda>x s.
               if x < 0 then errpkt (cbytes ''seot'') s else Ret (Inl Sseot) s)))"

definition first_data :: "'a kses_scheme \<Rightarrow> 'a kses_scheme verdict" where
  "first_data s =
     kbind (sdata s) (\<lambda>x s.
       if x = 0 then
         kbind (seof [] s) (\<lambda>x s.
           if x < 0 then errpkt (cbytes ''seof'') s else Ret (Inl Sseof) s)
       else if x < 0 then errpkt (cbytes ''sdata'') s
       else Ret (Inl Ssdat) s)"

definition act_ssfil_Y :: "'a kses_scheme \<Rightarrow> 'a kses_scheme verdict" where
  "act_ssfil_Y s =
     (if attributes s then
        kbind (sattr s) (\<lambda>x s.
          if x < 0 then errpkt (cbytes ''sattr'') s else Ret (Inl Ssatt) s)
      else first_data s)"

definition act_ssatt_Y :: "'a kses_scheme \<Rightarrow> 'a kses_scheme verdict" where
  "act_ssatt_Y s =
     (if rdata_head s = 78 then kbind (seof [68] s) (\<lambda>x s. Ret (Inl Sseof) s)
      else first_data s)"

definition act_ssdat_Y :: "'a kses_scheme \<Rightarrow> 'a kses_scheme verdict" where
  "act_ssdat_Y s =
     (let s = (if rdata_head s = 88 then s\<lparr>cx := True\<rparr> else if rdata_head s = 90 then s\<lparr>cz := True\<rparr> else s)
      in kbind (sdata s) (\<lambda>x s.
           if x = 0 then
             kbind (seof (if cx s \<or> cz s then [68] else []) s) (\<lambda>x s.
               if x < 0 then errpkt (cbytes ''seof'') s else Ret (Inl Sseof) s)
           else if x < 0 then errpkt (cbytes ''sdata'') s
           else Ret (Inl Ssdat) s))"

definition act_sseof_Y :: "'a kses_scheme \<Rightarrow> 'a kses_scheme verdict" where
  "act_sseof_Y s =
     kbind (gnfile s) (\<lambda>x s.
       if x > 0 then
         kbind (sfile s) (\<lambda>x s.
           if x > 0 then Ret (Inl Ssfil) s else errpkt (cbytes ''sfile'') s)
       else kbind (seot s) (\<lambda>x s. Ret (Inl Sseot) s))"

text \<open>Receiving.\<close>

definition act_srini_S :: "'a kses_scheme \<Rightarrow> 'a kses_scheme verdict" where
  "act_srini_S s =
     (case rpar (spar (rdata_all s) s) of (d, s) \<Rightarrow>
        kbind (ack1 d s) (\<lambda>x s. Ret (Inl Srfil) (streamon (s\<lparr>bctu := bctr s\<rparr>))))"

definition act_srfil_B :: "'a kses_scheme \<Rightarrow> 'a kses_scheme verdict" where
  "act_srfil_B s = kbind (ack s) (\<lambda>x s. Ret (Inr (failed s)) s)"

definition act_srfil_F :: "'a kses_scheme \<Rightarrow> 'a kses_scheme verdict" where
  "act_srfil_F s =
     kbind (rcvfil s) (\<lambda>x s.
       if x < 0 then errpkt (cbytes ''rcvfil'') s
       else
         (case encstr (cstr (filnam s)) (spsiz s) s of (x, s) \<Rightarrow>
            kbind (ack1 (cstr (xdata s)) s) (\<lambda>x s. Ret (Inl Sratt) (streamon s))))"

definition act_sratt_A :: "'a kses_scheme \<Rightarrow> 'a kses_scheme verdict" where
  "act_sratt_A s =
     kbind (gattr s) (\<lambda>x s. kbind (if x = 0 then ack s else ack1 [34] s) (\<lambda>x s. Ret (Inl Sratt) s))"

definition act_data :: "'a kses_scheme \<Rightarrow> 'a kses_scheme verdict" where
  "act_data s =
     (case decode (rdata s) s of (x, s) \<Rightarrow>
        if x < 0 then errpkt (cbytes ''Packet decoding error'') s
        else kbind (ack s) (\<lambda>x s. Ret (Inl Srdat) s))"

definition act_eof :: "'a kses_scheme \<Rightarrow> 'a kses_scheme verdict" where
  "act_eof s =
     (let s = (if rdata_head s = 68 then s\<lparr>cx := True\<rparr> else s)
      in kbind (closof s) (\<lambda>x s.
           if x < 0 then errpkt (cbytes ''closof'') s
           else kbind (ack s) (\<lambda>x s. Ret (Inl Srfil) s)))"

text \<open>Getting files from a server.\<close>

definition act_r :: "'a kses_scheme \<Rightarrow> 'a kses_scheme verdict" where
  "act_r s = kbind (sinit 73 (tinit s)) (\<lambda>x s. Ret (Inl Sipkt) s)"

definition act_sipkt_Y :: "'a kses_scheme \<Rightarrow> 'a kses_scheme verdict" where
  "act_sipkt_Y s =
     kbind (scmd 82 (cmarg s) (spar (rdata_all s) s)) (\<lambda>x s.
       if x < 0 then errpkt (cbytes ''scmd'') s else Ret (Inl Srini) s)"

text \<open>The rules in the order of the file. A rule has its states (\<open>None\<close> is any state) and its character.\<close>

datatype paction = P_s | P_ssini_Y | P_ssfil_Y | P_ssatt_Y | P_ssdat_Y | P_sseof_Y | P_sseot_Y | P_v | P_srini_S |
  P_srfil_B | P_srfil_F | P_sratt_A | P_sratt_D | P_sratt_Z | P_srdat_D | P_srdat_Z | P_r | P_sipkt_Y | P_E | P_any

definition gproto_rules :: "(wstate list option \<times> byte \<times> paction) list" where
  "gproto_rules =
     [(None, 115, P_s), (Some [Ssini], 89, P_ssini_Y), (Some [Ssfil], 89, P_ssfil_Y), (Some [Ssatt], 89, P_ssatt_Y),
      (Some [Ssdat], 89, P_ssdat_Y), (Some [Sseof], 89, P_sseof_Y), (Some [Sseot], 89, P_sseot_Y), (None, 118, P_v),
      (Some [Srini], 83, P_srini_S), (Some [Srfil], 66, P_srfil_B), (Some [Srfil], 70, P_srfil_F),
      (Some [Sratt], 65, P_sratt_A), (Some [Sratt], 68, P_sratt_D), (Some [Sratt], 90, P_sratt_Z),
      (Some [Srdat], 68, P_srdat_D), (Some [Srdat], 90, P_srdat_Z), (None, 114, P_r), (Some [Sipkt], 89, P_sipkt_Y),
      (None, 69, P_E), (None, 46, P_any)]"

text \<open>
  Which action the rules prescribe: that of the first one for the state and the packet type. The program finds it
  in a table; that the two agree is shown where gwart is run on the file.
\<close>

fun match_rule :: "(wstate list option \<times> byte \<times> paction) list \<Rightarrow> wstate \<Rightarrow> byte \<Rightarrow> paction option" where
  "match_rule [] st t = None"
| "match_rule ((sts, c, a) # rs) st t =
     (if (case sts of None \<Rightarrow> True | Some ss \<Rightarrow> st \<in> set ss) \<and> (c = 46 \<or> c = t) then Some a
      else match_rule rs st t)"

fun perform :: "paction \<Rightarrow> wstate \<Rightarrow> 'a kses_scheme \<Rightarrow> 'a kses_scheme verdict" where
  "perform P_s st s = act_s s"
| "perform P_ssini_Y st s = act_ssini_Y s"
| "perform P_ssfil_Y st s = act_ssfil_Y s"
| "perform P_ssatt_Y st s = act_ssatt_Y s"
| "perform P_ssdat_Y st s = act_ssdat_Y s"
| "perform P_sseof_Y st s = act_sseof_Y s"
| "perform P_sseot_Y st s = Ret (Inr (failed s)) s"
| "perform P_v st s = Ret (Inl Srini) (tinit s)"
| "perform P_srini_S st s = act_srini_S s"
| "perform P_srfil_B st s = act_srfil_B s"
| "perform P_srfil_F st s = act_srfil_F s"
| "perform P_sratt_A st s = act_sratt_A s"
| "perform P_sratt_D st s = act_data s"
| "perform P_sratt_Z st s = act_eof s"
| "perform P_srdat_D st s = act_data s"
| "perform P_srdat_Z st s = act_eof s"
| "perform P_r st s = act_r s"
| "perform P_sipkt_Y st s = act_sipkt_Y s"
| "perform P_E st s = Ret (Inr 1) (s\<lparr>failure := True\<rparr>)"
| "perform P_any st s = errpkt (cbytes ''Unknown packet type'') s"

text \<open>
  One turn of the generated loop. Types outside 33 to 127 go to column 0 of the table, which has no
  action. \<open>gwart\<close> is the loop; \<open>None\<close> means that it never ends.
\<close>

definition gwart_act :: "wstate \<Rightarrow> byte \<Rightarrow> 'a kses_scheme \<Rightarrow> 'a kses_scheme verdict" where
  "gwart_act st t s =
     (if t \<le> 32 \<or> 127 < t then Ret (Inl st) s
      else case match_rule gproto_rules st t of
        None \<Rightarrow> Ret (Inl st) s
      | Some a \<Rightarrow> perform a st s)"

definition gwart_step :: "wstate \<Rightarrow> 'a kses_scheme \<Rightarrow> 'a kses_scheme verdict" where
  "gwart_step st s = kbind (input s) (gwart_act st)"

partial_function (option) gwart :: "wstate \<Rightarrow> 'a kses_scheme \<Rightarrow> (int, 'a kses_scheme) outcome option" where
  "gwart st s =
     (case gwart_step st s of
        Ret v s' \<Rightarrow> (case v of Inl st' \<Rightarrow> gwart st' s' | Inr x \<Rightarrow> Some (Ret x s'))
      | Exit x s' \<Rightarrow> Some (Exit x s')
      | Wild \<Rightarrow> Some Wild
      | Hang \<Rightarrow> Some Hang)"

section \<open>What the operations leave alone\<close>

text \<open>The encoder keeps the prefixes and everything that is not its own.\<close>

definition enc_frame :: "'a kenc_scheme \<Rightarrow> _" where
  "enc_frame s = (enc_pfx s, maxsiz s, textmode s, kenc.more s)"

lemma enc_frame_upd [simp]:
  "enc_frame (s\<lparr>rpt := n\<rparr>) = enc_frame s" "enc_frame (s\<lparr>osize := k\<rparr>) = enc_frame s" "enc_frame (emit b s) = enc_frame s"
  "enc_frame (emit_NUL s) = enc_frame s" "enc_frame (s\<lparr>first := j\<rparr>) = enc_frame s" "enc_frame (s\<lparr>getpkt_c := j\<rparr>) = enc_frame s"
  "enc_frame (s\<lparr>xsize := k\<rparr>) = enc_frame s" "enc_frame (s\<lparr>xdata := x\<rparr>) = enc_frame s" "enc_frame (s\<lparr>remain := x\<rparr>) = enc_frame s"
  "enc_frame (s\<lparr>isp := i\<rparr>) = enc_frame s" "enc_frame (save_remain s) = enc_frame s" "enc_frame (take_remain s) = enc_frame s"
  by (simp_all add: enc_frame_def enc_pfx_def emit_def emit_NUL_def save_remain_def take_remain_def Let_def)

lemma enc_frame_char: "enc_frame (encode_char a s) = enc_frame s"
  by (simp add: encode_char_def Let_def split: prod.split)

lemma enc_frame_encode: "enc_frame (encode a nxt s) = enc_frame s"
proof (induction a nxt s rule: encode.induct)
  case (1 a nxt s)
  show ?case by (subst encode.simps) (use 1 in \<open>auto simp: Let_def enc_frame_char\<close>)
qed

lemma enc_frame_next: "next_char s = (c, t) \<Longrightarrow> enc_frame t = enc_frame s"
  using next_char_frame [of s c t] by (simp add: enc_frame_def)

lemma enc_frame_getpkt_loop: "enc_frame (getpkt_loop maxlen s) = enc_frame s"
proof (induction maxlen s rule: getpkt_loop.induct)
  case (1 maxlen s)
  obtain nxt s1 where n: "next_char s = (nxt, s1)" by fastforce
  show ?case
    using "1.IH" [OF _ n [symmetric] refl refl refl] n enc_frame_next [OF n]
    by (subst getpkt_loop.simps) (auto simp: Let_def enc_frame_encode)
qed

lemma enc_frame_getpkt: "getpkt maxlen s = (n, t) \<Longrightarrow> enc_frame t = enc_frame s"
  by (auto simp: getpkt_def Let_def enc_frame_getpkt_loop split: if_splits prod.splits dest!: enc_frame_next)

lemma enc_frame_encstr: "encstr d m s = (n, t) \<Longrightarrow> enc_frame t = enc_frame s"
  by (auto simp: encstr_def split: prod.splits dest!: enc_frame_getpkt)

text \<open>The numbers and parameters that the packets of a transaction are built with.\<close>

definition line_par :: "'a kpar_scheme \<Rightarrow> _" where
  "line_par s = (seq s, bctu s, spsiz s, bctr s, seol s, rctlq s, enc_pfx s)"

definition ses_ok :: "'a kpar_scheme \<Rightarrow> bool" where
  "ses_ok s \<longleftrightarrow> par_ok s \<and> 0 \<le> seq s \<and> seq s \<le> 63 \<and> bctu s \<in> {1, 2, 3}"

lemma ses_ok_cong: "line_par t = line_par s \<Longrightarrow> ses_ok t = ses_ok s"
  by (simp add: line_par_def ses_ok_def par_ok_def enc_pfx_def)

lemma line_par_enc:
  fixes s t :: "'a kpar_scheme"
  assumes "enc_frame t = enc_frame s"
  shows "line_par t = line_par s"
proof -
  have "kenc.more t = kenc.more s" "enc_pfx t = enc_pfx s" using assms by (simp_all add: enc_frame_def)
  then show ?thesis by (cases s, cases t) (simp add: line_par_def)
qed

lemma line_par_ttol: "ttol n s = (x, t) \<Longrightarrow> line_par t = line_par s"
  by (auto simp: ttol_def Let_def line_par_def enc_pfx_def split: prod.splits)

lemma line_par_spacket: "spacket ty n d s = Ret x t \<Longrightarrow> line_par t = line_par s"
  by (auto simp: spacket_def Let_def split: if_splits prod.splits dest!: line_par_ttol)
     (simp_all add: line_par_def enc_pfx_def)

lemma line_par_upd [simp]:
  "line_par (s\<lparr>retries := n\<rparr>) = line_par s" "line_par (s\<lparr>timint := i\<rparr>) = line_par s" "line_par (s\<lparr>line_in := es\<rparr>) = line_par s"
  "line_par (s\<lparr>cx := b\<rparr>) = line_par s" "line_par (s\<lparr>cz := b\<rparr>) = line_par s" "line_par (s\<lparr>failure := b\<rparr>) = line_par s"
  "line_par (s\<lparr>rln := i\<rparr>) = line_par s" "line_par (s\<lparr>rsn := i\<rparr>) = line_par s" "line_par (s\<lparr>rcvpkt := p\<rparr>) = line_par s"
  "line_par (s\<lparr>datalen := i\<rparr>) = line_par s" "line_par (s\<lparr>rdatap := k\<rparr>) = line_par s" "line_par (s\<lparr>recvtype := c\<rparr>) = line_par s"
  "line_par (s\<lparr>xdata := x\<rparr>) = line_par s" "line_par (s\<lparr>first := j\<rparr>) = line_par s" "line_par (s\<lparr>maxsiz := j\<rparr>) = line_par s"
  "line_par (s\<lparr>ifp := f\<rparr>) = line_par s" "line_par (s\<lparr>zincnt := j\<rparr>) = line_par s" "line_par (s\<lparr>zinptr := k\<rparr>) = line_par s"
  "line_par (s\<lparr>ofp := f\<rparr>) = line_par s" "line_par (s\<lparr>filnam := f\<rparr>) = line_par s" "line_par (s\<lparr>textmode := b\<rparr>) = line_par s"
  "line_par (s\<lparr>osp := w\<rparr>) = line_par s" "line_par (s\<lparr>streaming := b\<rparr>) = line_par s"
  by (simp_all add: line_par_def enc_pfx_def)

lemma line_par_kses [simp]:
  "line_par (s\<lparr>fsys := f\<rparr>) = line_par s" "line_par (s\<lparr>filelength := i\<rparr>) = line_par s" "line_par (s\<lparr>opath := w\<rparr>) = line_par s"
  "line_par (s\<lparr>ofile := w\<rparr>) = line_par s" "line_par (s\<lparr>cmarg2 := w'\<rparr>) = line_par s" "line_par (s\<lparr>cmlist := ws\<rparr>) = line_par s"
  "line_par (s\<lparr>nfils := i\<rparr>) = line_par s" "line_par (s\<lparr>start := c\<rparr>) = line_par s" "line_par (s\<lparr>chkres := xs\<rparr>) = line_par s"
  by (simp_all add: line_par_def enc_pfx_def)

lemma line_par_nak: "nak s = Ret x t \<Longrightarrow> line_par t = line_par s"
  by (auto simp: nak_def Let_def errpkt_not_Ret split: if_splits dest!: line_par_spacket)

lemma line_par_resend: "resend s = Ret x t \<Longrightarrow> line_par t = line_par s"
  by (auto simp: resend_def Let_def errpkt_not_Ret split: if_splits prod.splits dest!: line_par_ttol line_par_nak)

lemma line_par_ttinl: "ttinl mx ti soh turn s = Ret j t \<Longrightarrow> line_par t = line_par s"
  by (auto simp: ttinl_def Let_def split: outcome.splits if_splits)

lemma line_par_fields: "packet_fields off s = Ret b t \<Longrightarrow> line_par t = line_par s"
  by (auto simp: packet_fields_def Let_def errpkt_not_Ret split: if_splits)

lemma line_par_header: "long_header s n = Ret b t \<Longrightarrow> line_par t = line_par s"
  by (auto simp: long_header_def Let_def split: if_splits)

lemma line_par_rpacket: "rpacket s = Ret b t \<Longrightarrow> line_par t = line_par s"
  by (erule rpacket_preserves) (auto dest: line_par_ttinl line_par_header line_par_fields)

lemma line_par_input_loop: "input_loop ty s = Ret b t \<Longrightarrow> line_par t = line_par s"
proof (induction ty s rule: input_loop.induct)
  case (1 ty s)
  show ?case
  proof (cases "rsn s \<noteq> seq s \<or> bad_packet ty")
    case True
    with "1.prems" have ns: "\<not> streaming s" by (subst (asm) input_loop.simps) (auto simp: errpkt_not_Ret split: if_splits)
    with True "1.prems" obtain x u c v where u: "resend s = Ret x u" "rpacket u = Ret c v" "input_loop c v = Ret b t"
      by (subst (asm) input_loop.simps) (auto simp: kbind_Ret_iff)
    then show ?thesis using "1.IH" [OF True ns u(1,2)] line_par_resend line_par_rpacket by metis
  qed (use "1.prems" in \<open>subst (asm) input_loop.simps, simp\<close>)
qed

lemma line_par_input: "input s = Ret b t \<Longrightarrow> line_par t = line_par s"
proof -
  assume i: "input s = Ret b t"
  have fl: "line_par (ttflui u) = line_par u" for u :: "'a kses_scheme" by (simp add: ttflui_def)
  consider "start s \<noteq> 0" | "start s = 0" "streaming s \<and> sendtype s = 68" | "start s = 0" "\<not> (streaming s \<and> sendtype s = 68)" by blast
  then show ?thesis
  proof cases
    case 1
    then show ?thesis using i by (auto simp: input_def)
  next
    case 2
    obtain x u where c: "ttchk s = (x, u)" by fastforce
    then have lu: "line_par u = line_par s" by (auto simp: ttchk_def split: list.splits)
    show ?thesis
    proof (cases "x < 5")
      case True
      then show ?thesis using i 2 c lu by (auto simp: input_def errpkt_not_Ret split: if_splits)
    next
      case False
      with i 2 c obtain ty v where v: "rpacket (u\<lparr>timint := 4\<rparr>) = Ret ty v"
        "(let s = v\<lparr>timint := 0\<rparr> in if bad_packet ty then errpkt (cbytes ''Transmission error while streaming'') s
          else Ret ty (if streaming s then s else ttflui s)) = Ret b t"
        by (auto simp: input_def Let_def kbind_Ret_iff)
      then show ?thesis using lu fl by (auto simp: Let_def errpkt_not_Ret split: if_splits dest!: line_par_rpacket)
    qed
  next
    case 3
    with i obtain ty u ty' v where "rpacket s = Ret ty u" "input_loop ty u = Ret ty' v" "t = (if streaming v then v else ttflui v)"
      by (auto simp: input_def Let_def kbind_Ret_iff)
    then show ?thesis using fl by (auto dest!: line_par_rpacket line_par_input_loop)
  qed
qed

text \<open>The next packet number.\<close>

lemma nxtpkt_seq: "0 \<le> seq (nxtpkt s) \<and> seq (nxtpkt s) \<le> 63"
proof -
  have "seq (nxtpkt s) = take_bit 6 (seq s + 1)" by (simp add: nxtpkt_def take_bit_eq_mask mask_eq_exp_minus_1)
  then show ?thesis using take_bit_int_less_exp [of 6 "seq s + 1"] by simp
qed

lemma ses_ok_nxtpkt: "ses_ok s \<Longrightarrow> ses_ok (nxtpkt s)"
  using nxtpkt_seq [of s] by (simp add: ses_ok_def par_ok_def nxtpkt_def)

lemma ses_ok_spacket: "spacket ty n d s = Ret x t \<Longrightarrow> ses_ok t = ses_ok s"
  by (rule ses_ok_cong) (rule line_par_spacket)

lemma ses_ok_upd [simp]:
  "ses_ok (s\<lparr>cx := b\<rparr>) = ses_ok s" "ses_ok (s\<lparr>cz := b\<rparr>) = ses_ok s" "ses_ok (s\<lparr>failure := b\<rparr>) = ses_ok s"
  "ses_ok (s\<lparr>textmode := b\<rparr>) = ses_ok s" "ses_ok (s\<lparr>xdata := x\<rparr>) = ses_ok s"
  by (rule ses_ok_cong; simp)+

lemma ses_ok_ack: "ack s = Ret x t \<Longrightarrow> ses_ok s \<Longrightarrow> ses_ok t"
  by (auto simp: ack_def kbind_Ret_iff ses_ok_spacket intro!: ses_ok_nxtpkt split: if_splits)

lemma ses_ok_ack1: "ack1 d s = Ret x t \<Longrightarrow> ses_ok s \<Longrightarrow> ses_ok t"
  by (auto simp: ack1_def kbind_Ret_iff ses_ok_spacket intro!: ses_ok_nxtpkt)

lemma ses_ok_streamon [simp]: "ses_ok (streamon s) = ses_ok s"
  by (rule ses_ok_cong) (simp add: streamon_def)

lemma ses_ok_zclosi: "zclosi s = (x, t) \<Longrightarrow> ses_ok t = ses_ok s"
  by (rule ses_ok_cong) (auto simp: zclosi_def)

lemma ses_ok_seof: "seof d s = Ret x t \<Longrightarrow> ses_ok s \<Longrightarrow> ses_ok t"
proof -
  assume a: "seof d s = Ret x t" "ses_ok s"
  obtain y u where z: "zclosi s = (y, u)" by fastforce
  with a have "spacket 90 (seq (nxtpkt u)) d (nxtpkt u) = Ret x t" by (auto simp: seof_def Let_def errpkt_not_Ret split: if_splits)
  then show "ses_ok t" using a(2) ses_ok_zclosi [OF z] ses_ok_nxtpkt [of u] by (simp add: ses_ok_spacket)
qed

lemma ses_ok_seot: "seot s = Ret x t \<Longrightarrow> ses_ok s \<Longrightarrow> ses_ok t"
  by (auto simp: seot_def Let_def ses_ok_spacket intro!: ses_ok_nxtpkt)

lemma ses_ok_sattr: "sattr s = Ret x t \<Longrightarrow> ses_ok s \<Longrightarrow> ses_ok t"
  by (auto simp: sattr_def Let_def ses_ok_spacket intro!: ses_ok_nxtpkt)

lemma ses_ok_sdata: "sdata s = Ret x t \<Longrightarrow> ses_ok s \<Longrightarrow> ses_ok t"
proof -
  assume a: "sdata s = Ret x t" "ses_ok s"
  obtain n u where g: "getpkt (maxsiz s) s = (n, u)" by fastforce
  then have "ses_ok u" using a(2) ses_ok_cong [OF line_par_enc [OF enc_frame_getpkt [OF g]]] by simp
  then show ?thesis using a g by (auto simp: sdata_def Let_def ses_ok_spacket intro!: ses_ok_nxtpkt split: if_splits)
qed

lemma line_par_gnfile_loop: "gnfile_loop fs s = Ret x t \<Longrightarrow> line_par t = line_par s"
proof (induction fs arbitrary: s)
  case Nil
  then show ?case by (subst (asm) gnfile_loop.simps) (auto split: if_splits)
next
  case (Cons f fs)
  show ?case
  proof (cases "nfils s > 0")
    case True
    with Cons.prems obtain nam where n: "strncpy (filnam s) 0 f MAXPATHLEN = Some nam"
      by (subst (asm) gnfile_loop.simps) (auto split: option.splits)
    define u where "u = s\<lparr>nfils := nfils s - 1, cmlist := fs, filnam := nam[MAXPATHLEN - 1 := 0]\<rparr>"
    have lu: "line_par u = line_par s" by (simp add: u_def)
    have "(if zchki (cstr (filnam u)) (fsys u) > -1 then Ret 1 u else gnfile_loop fs u) = Ret x t"
      using Cons.prems True n by (subst (asm) gnfile_loop.simps) (simp add: Let_def u_def split: if_splits)
    then show ?thesis using Cons.IH [of u] lu by (auto split: if_splits)
  qed (use Cons.prems in \<open>subst (asm) gnfile_loop.simps, auto\<close>)
qed

lemma ses_ok_gnfile: "gnfile s = Ret x t \<Longrightarrow> ses_ok t = ses_ok s"
  by (auto simp: gnfile_def split: if_splits intro!: ses_ok_cong dest: line_par_gnfile_loop)

lemma ses_ok_zopeni: "zopeni n s = (x, t) \<Longrightarrow> ses_ok t = ses_ok s"
  by (rule ses_ok_cong) (auto simp: zopeni_def Let_def split: if_splits)

lemma ses_ok_encstr: "encstr d m s = (n, t) \<Longrightarrow> ses_ok t = ses_ok s"
  by (intro ses_ok_cong line_par_enc enc_frame_encstr)

lemma ses_ok_sfile: "sfile s = Ret x t \<Longrightarrow> ses_ok s \<Longrightarrow> ses_ok t"
proof -
  assume a: "sfile s = Ret x t" "ses_ok s"
  obtain y u where z: "zopeni (cstr (filnam s)) s = (y, u)" by fastforce
  define nm where "nm = (case cmarg2 u of Some n \<Rightarrow> strncpy (replicate MAXPATHLEN 0) 0 n MAXPATHLEN
      | None \<Rightarrow> zltor (literal u) (cstr (filnam u)) (replicate MAXPATHLEN 0) MAXPATHLEN)"
  from a(1) z obtain pk where pk: "nm = Some pk" by (auto simp: sfile_def nm_def Let_def errpkt_not_Ret split: if_splits option.splits)
  obtain n v where e: "encstr (cstr pk) (spsiz u) (u\<lparr>cmarg2 := None\<rparr>) = (n, v)" by fastforce
  define w where "w = (let s = v\<lparr>first := 1, maxsiz := spsiz v - (bctr v + 3)\<rparr> in if spsiz s > 94 then s\<lparr>maxsiz := maxsiz s - 4\<rparr> else s)"
  have "spacket 70 (seq (nxtpkt w)) (take (nat n) (xdata (nxtpkt w))) (nxtpkt w) = Ret x t"
    using a(1) z pk e unfolding sfile_def nm_def w_def Let_def by (simp add: errpkt_not_Ret split: if_splits)
  moreover have "ses_ok w"
  proof -
    have "line_par w = line_par v" by (simp add: w_def Let_def)
    moreover have "line_par (u\<lparr>cmarg2 := None\<rparr>) = line_par u" by simp
    ultimately show ?thesis
      using a(2) ses_ok_zopeni [OF z] ses_ok_encstr [OF e] ses_ok_cong by metis
  qed
  ultimately show "ses_ok t" using ses_ok_nxtpkt by (simp add: ses_ok_spacket)
qed

lemma line_par_dec:
  fixes s t :: "'a kpar_scheme"
  assumes "dec_frame t = dec_frame s"
  shows "line_par t = line_par s"
proof -
  have "kdec.more t = kdec.more s" "enc_pfx t = enc_pfx s" "rctlq t = rctlq s" using assms by (simp_all add: dec_frame_def)
  then show ?thesis by (cases s, cases t) (simp add: line_par_def)
qed

lemma ses_ok_decode: "decode d s = (x, t) \<Longrightarrow> ses_ok t = ses_ok s"
  by (intro ses_ok_cong line_par_dec dec_frame_decode)

lemma ses_ok_decstr: "decstr d s = (w, t) \<Longrightarrow> ses_ok t = ses_ok s"
  by (intro ses_ok_cong line_par_dec dec_frame_decstr)

lemma ses_ok_kses [simp]:
  "ses_ok (s\<lparr>fsys := f\<rparr>) = ses_ok s" "ses_ok (s\<lparr>cmarg2 := w\<rparr>) = ses_ok s" "ses_ok (s\<lparr>filnam := n\<rparr>) = ses_ok s"
  by (rule ses_ok_cong; simp)+

lemma ses_ok_zopeno: "zopeno n s = (x, t) \<Longrightarrow> ses_ok t = ses_ok s"
  by (rule ses_ok_cong) (auto simp: zopeno_def split: if_splits)

lemma ses_ok_closof: "closof s = Ret x t \<Longrightarrow> ses_ok t = ses_ok s"
  by (rule ses_ok_cong) (auto simp: closof_def zcloso_def Let_def errpkt_not_Ret split: prod.splits if_splits)

lemma ses_ok_gattr: "gattr s = Ret x t \<Longrightarrow> ses_ok t = ses_ok s"
  by (auto simp: gattr_def split: option.splits prod.splits)

lemma ses_ok_scmd: "scmd ty d s = Ret x t \<Longrightarrow> ses_ok t = ses_ok s"
  by (auto simp: scmd_def ses_ok_spacket split: prod.splits dest!: ses_ok_encstr)

lemma ses_ok_rcvfil_name: "rcvfil_name s = Ret n t \<Longrightarrow> ses_ok t = ses_ok s"
proof (cases "cmarg2 s")
  case None
  obtain w u where w: "decstr (rdata s) s = (w, u)" by fastforce
  obtain y nam fs where z: "zrtol (literal u) (cstr w) (backup u) MAXPATHLEN (fsys u) = (y, nam, fs)"
    by (metis prod_cases3)
  assume "rcvfil_name s = Ret n t"
  with None w z have "t = u\<lparr>fsys := fs, filnam := nam @ replicate (length (filnam u) - length nam) 0\<rparr>"
    by (auto simp: rcvfil_name_def Let_def errpkt_not_Ret split: if_splits)
  then show ?thesis using ses_ok_decstr [OF w] by simp
qed (auto simp: rcvfil_name_def Let_def split: if_splits)

lemma ses_ok_rcvfil: "rcvfil s = Ret x t \<Longrightarrow> ses_ok t = ses_ok s"
proof -
  assume "rcvfil s = Ret x t"
  then obtain nm u where u: "rcvfil_name (s\<lparr>cx := False\<rparr>) = Ret nm u"
    and r: "(if zchko nm (fsys u) < 0 then errpkt (cbytes ''Write access denied'') u
       else case zopeno nm u of (x, s) \<Rightarrow>
         if x < 0 then errpkt (cbytes ''Error opening output file'') s else Ret 0 s) = Ret x t"
    unfolding rcvfil_def kbind_Ret_iff by blast
  obtain y v where v: "zopeno nm u = (y, v)" by fastforce
  with r have "v = t" by (simp add: errpkt_not_Ret split: if_splits)
  then show ?thesis using ses_ok_rcvfil_name [OF u] ses_ok_zopeno [OF v] by simp
qed

lemma ses_ok_tinit: "ses_ok s \<Longrightarrow> ses_ok (tinit s)"
  by (simp add: ses_ok_def par_ok_def tinit_def)

lemma ses_ok_rpar: "rpar s = (d, t) \<Longrightarrow> ses_ok s \<Longrightarrow> ses_ok t"
proof -
  assume r: "rpar s = (d, t)" and s: "ses_ok s"
  have "pfx_char 38" by code_simp
  with s have "ses_ok (rpar_bid s)" by (auto simp: rpar_bid_def ses_ok_def par_ok_def)
  moreover have "line_par t = line_par (rpar_bid s)" using r by (auto simp: rpar_def Let_def)
  ultimately show "ses_ok t" using ses_ok_cong by blast
qed

lemma ses_ok_sinit: "sinit c s = Ret x t \<Longrightarrow> ses_ok s \<Longrightarrow> ses_ok t"
  by (auto simp: sinit_def ses_ok_spacket split: prod.splits dest: ses_ok_rpar)

lemma spar_seq: "seq (spar d s) = seq s \<and> bctu (spar d s) = bctu s"
proof -
  have f: "seq (spar_sizes d s) = seq s \<and> bctu (spar_sizes d s) = bctu s"
    "seq (spar_prefixes d s) = seq s \<and> bctu (spar_prefixes d s) = bctu s"
    "seq (spar_check d s) = seq s \<and> bctu (spar_check d s) = bctu s"
    "seq (spar_long d k s) = seq s \<and> bctu (spar_long d k s) = bctu s"
    "seq (spar_whatami d k s) = seq s \<and> bctu (spar_whatami d k s) = bctu s"
    "spar_capas d s = (j, u) \<Longrightarrow> seq u = seq s \<and> bctu u = bctu s" for k j and s u :: "'a kpar_scheme"
    by (simp add: spar_sizes_def Let_def, simp add: spar_prefixes_def Let_def, simp add: spar_check_def Let_def,
        simp add: spar_long_def Let_def, simp add: spar_whatami_def Let_def,
        auto simp: spar_capas_def Let_def split: if_splits)
  obtain k u where k: "spar_capas d (spar_check d (spar_prefixes d (spar_sizes d s))) = (k, u)" by fastforce
  from f(6) [OF k] show ?thesis by (simp add: spar_def Let_def k f)
qed

lemma ses_ok_spar: "ses_ok s \<Longrightarrow> ses_ok (spar d s)"
  using spar_par_ok [of s d] spar_seq [of d s] by (simp add: ses_ok_def)

lemma ses_ok_bctu: "ses_ok s \<Longrightarrow> ses_ok (s\<lparr>bctu := bctr s\<rparr>)"
  by (simp add: ses_ok_def par_ok_def)

lemmas ses_ok_ops = ses_ok_ack ses_ok_ack1 ses_ok_seof ses_ok_seot ses_ok_sattr ses_ok_sdata ses_ok_sfile ses_ok_sinit

lemma first_data_ok: "first_data s = Ret v t \<Longrightarrow> ses_ok s \<Longrightarrow> ses_ok t"
  by (auto simp: first_data_def kbind_Ret_iff errpkt_not_Ret split: if_splits dest: ses_ok_ops)

lemma act_ssini_Y_ok: "act_ssini_Y s = Ret v t \<Longrightarrow> ses_ok s \<Longrightarrow> ses_ok t"
proof -
  assume a: "act_ssini_Y s = Ret v t" and "ses_ok s"
  define u where "u = (spar (rdata_all s) s)\<lparr>bctu := bctr (spar (rdata_all s) s)\<rparr>"
  have u: "ses_ok u" using \<open>ses_ok s\<close> ses_ok_spar ses_ok_bctu unfolding u_def by blast
  from a obtain x w where w: "gnfile u = Ret x w"
    and r: "(if x > 0 then kbind (sfile w) (\<lambda>x s. if x < 0 then errpkt (cbytes ''sfile'') s else Ret (Inl Ssfil) (streamon s))
       else kbind (seot w) (\<lambda>x s. if x < 0 then errpkt (cbytes ''seot'') s else Ret (Inl Sseot) s)) = Ret v t"
    unfolding act_ssini_Y_def Let_def kbind_Ret_iff u_def [symmetric] by blast
  have "ses_ok w" using ses_ok_gnfile [OF w] u by simp
  then show "ses_ok t" using r by (auto simp: kbind_Ret_iff errpkt_not_Ret split: if_splits dest: ses_ok_ops)
qed

lemma send_ok:
  "act_s s = Ret v t \<Longrightarrow> ses_ok s \<Longrightarrow> ses_ok t" "act_ssfil_Y s = Ret v t \<Longrightarrow> ses_ok s \<Longrightarrow> ses_ok t"
  "act_ssatt_Y s = Ret v t \<Longrightarrow> ses_ok s \<Longrightarrow> ses_ok t" "act_sseof_Y s = Ret v t \<Longrightarrow> ses_ok s \<Longrightarrow> ses_ok t"
  by (auto simp: act_s_def act_ssfil_Y_def act_ssatt_Y_def act_sseof_Y_def kbind_Ret_iff errpkt_not_Ret
      split: if_splits dest: ses_ok_ops ses_ok_tinit first_data_ok dest!: ses_ok_gnfile)

lemma act_ssdat_Y_ok: "act_ssdat_Y s = Ret v t \<Longrightarrow> ses_ok s \<Longrightarrow> ses_ok t"
proof -
  assume a: "act_ssdat_Y s = Ret v t" and "ses_ok s"
  define u where "u = (if rdata_head s = 88 then s\<lparr>cx := True\<rparr> else if rdata_head s = 90 then s\<lparr>cz := True\<rparr> else s)"
  have u: "ses_ok u" using \<open>ses_ok s\<close> by (simp add: u_def)
  from a obtain x w where w: "sdata u = Ret x w"
    and r: "(if x = 0 then kbind (seof (if cx w \<or> cz w then [68] else []) w) (\<lambda>x s.
               if x < 0 then errpkt (cbytes ''seof'') s else Ret (Inl Sseof) s)
           else if x < 0 then errpkt (cbytes ''sdata'') w else Ret (Inl Ssdat) w) = Ret v t"
    unfolding act_ssdat_Y_def Let_def kbind_Ret_iff u_def [symmetric] by blast
  have "ses_ok w" using ses_ok_sdata [OF w u] .
  then show "ses_ok t" using r by (auto simp: kbind_Ret_iff errpkt_not_Ret split: if_splits dest: ses_ok_ops)
qed

lemma receive_ok:
  "act_srfil_B s = Ret v t \<Longrightarrow> ses_ok s \<Longrightarrow> ses_ok t" "act_sratt_A s = Ret v t \<Longrightarrow> ses_ok s \<Longrightarrow> ses_ok t"
  "act_data s = Ret v t \<Longrightarrow> ses_ok s \<Longrightarrow> ses_ok t" "act_eof s = Ret v t \<Longrightarrow> ses_ok s \<Longrightarrow> ses_ok t"
  by (auto simp: act_srfil_B_def act_sratt_A_def act_data_def act_eof_def Let_def kbind_Ret_iff errpkt_not_Ret
      split: if_splits prod.splits dest: ses_ok_ops dest!: ses_ok_gattr ses_ok_decode ses_ok_closof)

lemma act_srfil_F_ok: "act_srfil_F s = Ret v t \<Longrightarrow> ses_ok s \<Longrightarrow> ses_ok t"
  by (auto simp: act_srfil_F_def kbind_Ret_iff errpkt_not_Ret
      split: if_splits prod.splits dest!: ses_ok_rcvfil ses_ok_encstr ses_ok_ack1)

lemma act_srini_S_ok: "act_srini_S s = Ret v t \<Longrightarrow> ses_ok s \<Longrightarrow> ses_ok t"
proof -
  assume a: "act_srini_S s = Ret v t" and s: "ses_ok s"
  obtain d u where u: "rpar (spar (rdata_all s) s) = (d, u)" by fastforce
  with a obtain x w where w: "ack1 d u = Ret x w" "t = streamon (w\<lparr>bctu := bctr w\<rparr>)"
    by (auto simp: act_srini_S_def kbind_Ret_iff)
  have "ses_ok w" using ses_ok_ack1 [OF w(1)] ses_ok_rpar [OF u] ses_ok_spar [OF s] by blast
  then show ?thesis using w(2) ses_ok_bctu by simp
qed

lemma get_ok: "act_r s = Ret v t \<Longrightarrow> ses_ok s \<Longrightarrow> ses_ok t" "act_sipkt_Y s = Ret v t \<Longrightarrow> ses_ok s \<Longrightarrow> ses_ok t"
  by (auto simp: act_r_def act_sipkt_Y_def kbind_Ret_iff errpkt_not_Ret split: if_splits
      dest: ses_ok_sinit ses_ok_tinit ses_ok_spar dest!: ses_ok_scmd)

lemma perform_ok: "perform a st s = Ret v t \<Longrightarrow> ses_ok s \<Longrightarrow> ses_ok t"
  by (cases a) (auto simp: errpkt_not_Ret dest: send_ok act_ssini_Y_ok act_ssdat_Y_ok receive_ok act_srfil_F_ok
      act_srini_S_ok get_ok intro: ses_ok_tinit)

text \<open>The runs of the automaton.\<close>

inductive gwart_run :: "wstate \<Rightarrow> 'a kses_scheme \<Rightarrow> wstate \<Rightarrow> 'a kses_scheme \<Rightarrow> bool" where
  here: "gwart_run st s st s"
| turn: "gwart_run st s st' s' \<Longrightarrow> gwart_step st' s' = Ret (Inl st'') s'' \<Longrightarrow> gwart_run st s st'' s''"

lemma gwart_step_ok: "gwart_step st s = Ret v t \<Longrightarrow> ses_ok s \<Longrightarrow> ses_ok t"
proof -
  assume g: "gwart_step st s = Ret v t" and s: "ses_ok s"
  then obtain ty u where u: "input s = Ret ty u" "gwart_act st ty u = Ret v t" by (auto simp: gwart_step_def kbind_Ret_iff)
  have "ses_ok u" using ses_ok_cong [OF line_par_input [OF u(1)]] s by simp
  with u(2) show "ses_ok t" by (auto simp: gwart_act_def split: if_splits option.splits dest: perform_ok)
qed

text \<open>
  C17. Whatever comes in on the line, in every state the automaton reaches the
  current packet number is between 0 and 63, the block check in use is one of the three types, the
  packet size fits the send buffer and the prefixes in use are characters that may serve as ones.
\<close>

theorem gwart_run_invariant:
  assumes "gwart_run st s st' s'" "ses_ok s"
  shows "ses_ok s'"
  using assms by (induction rule: gwart_run.induct) (auto dest: gwart_step_ok)

theorem gwart_run_invariant_witness: "\<exists>s'. gwart_run Wstart ((ses0 [])\<lparr>start := 118\<rparr>) Srini s' \<and> ses_ok s'"
proof -
  define s where "s = (ses0 [])\<lparr>start := 118\<rparr>"
  have "pfx_char 35" by code_simp
  then have ok: "ses_ok s" by (simp add: ses_ok_def par_ok_def s_def ses0_defs word_le_nat_alt)
  have "start s = 118" by (simp add: s_def)
  then have "gwart_step Wstart s = Ret (Inl Srini) (tinit (s\<lparr>start := 0\<rparr>))"
    by (simp add: gwart_step_def input_def gwart_act_def gproto_rules_def word_le_nat_alt word_less_nat_alt)
  then have r: "gwart_run Wstart s Srini (tinit (s\<lparr>start := 0\<rparr>))" by (meson gwart_run.intros)
  from gwart_run_invariant [OF r ok] r show ?thesis unfolding s_def by blast
qed

end
