(* ===== verification/Kermit_Table.thy ===== *)
theory Kermit_Table
  imports Gproto Kermit_Proto
begin

text \<open>
  The protocol automaton and its generator together: gwart run on gproto.w, and the loop of the program it
  writes, which goes through the table, against the automaton of the protocol model.
\<close>

section \<open>The generated loop\<close>

text \<open>
  The states by the names gproto.w declares, with the numbers the generated \<open>#define\<close> lines give them, and the
  actions by the numbers of their rules. The start state has no name.
\<close>

fun state_name :: "wstate \<Rightarrow> string" where
  "state_name Wstart = []"
| "state_name Ssini = ''ssini''" | "state_name Ssfil = ''ssfil''" | "state_name Ssdat = ''ssdat''" | "state_name Ssatt = ''ssatt''"
| "state_name Sseot = ''sseot''" | "state_name Sseof = ''sseof''" | "state_name Sipkt = ''sipkt''" | "state_name Srini = ''srini''"
| "state_name Srfil = ''srfil''" | "state_name Srdat = ''srdat''" | "state_name Sratt = ''sratt''"

definition state_no :: "wstate \<Rightarrow> int" where
  "state_no st = (case st of Wstart \<Rightarrow> 0 | Ssini \<Rightarrow> 1 | Ssfil \<Rightarrow> 2 | Ssdat \<Rightarrow> 3 | Ssatt \<Rightarrow> 4 | Sseot \<Rightarrow> 5 | Sseof \<Rightarrow> 6 |
     Sipkt \<Rightarrow> 7 | Srini \<Rightarrow> 8 | Srfil \<Rightarrow> 9 | Srdat \<Rightarrow> 10 | Sratt \<Rightarrow> 11)"

text \<open>
  The body of the loop gwart writes (\<open>txt2a\<close>, \<open>txt2b\<close>, the actions): the packet type selects the column of the
  table, the state the row; \<open>switch\<close> goes to the action of the rule with that number, and nowhere if there is none.
\<close>

definition switch_act :: "int \<Rightarrow> paction option" where
  "switch_act n = (if 1 \<le> n \<and> n \<le> int (length gproto_rules) then Some (snd (snd (gproto_rules ! nat (n - 1)))) else None)"

definition generated_act :: "int list \<Rightarrow> wstate \<Rightarrow> byte \<Rightarrow> 'a kses_scheme \<Rightarrow> 'a kses_scheme verdict" where
  "generated_act u st t s =
     (let c = uint t - 32;
          c = (if c < 0 \<or> c > 95 then 0 else c)
      in case aget u (c + state_no st * 96) of
           None \<Rightarrow> Wild
         | Some act \<Rightarrow>
             if act \<noteq> -1 then (case switch_act act of None \<Rightarrow> Ret (Inl st) s | Some a \<Rightarrow> perform a st s)
             else Ret (Inl st) s)"

section \<open>Rules read and rules modelled\<close>

definition action_no :: "paction \<Rightarrow> int" where
  "action_no a = (case a of P_s \<Rightarrow> 1 | P_ssini_Y \<Rightarrow> 2 | P_ssfil_Y \<Rightarrow> 3 | P_ssatt_Y \<Rightarrow> 4 | P_ssdat_Y \<Rightarrow> 5 | P_sseof_Y \<Rightarrow> 6 |
     P_sseot_Y \<Rightarrow> 7 | P_v \<Rightarrow> 8 | P_srini_S \<Rightarrow> 9 | P_srfil_B \<Rightarrow> 10 | P_srfil_F \<Rightarrow> 11 | P_sratt_A \<Rightarrow> 12 | P_sratt_D \<Rightarrow> 13 |
     P_sratt_Z \<Rightarrow> 14 | P_srdat_D \<Rightarrow> 15 | P_srdat_Z \<Rightarrow> 16 | P_r \<Rightarrow> 17 | P_sipkt_Y \<Rightarrow> 18 | P_E \<Rightarrow> 19 | P_any \<Rightarrow> 20)"

text \<open>\<open>encodes r t\<close>: the rule \<open>r\<close> as \<open>rdrules\<close> builds it, with \<open>statelist\<close> setting the states one by one.\<close>

definition encodes :: "wstate list option \<times> byte \<times> paction \<Rightarrow> transx \<Rightarrow> bool" where
  "encodes r t = (case r of (sts, c, a) \<Rightarrow>
     trans_ok t \<and> inchr t = c - 32 \<and> actno t = action_no a \<and> anyst t = (sts = None) \<and>
     (\<forall>st. teststate (state_no st) t = Some (st \<in> set (case sts of None \<Rightarrow> [] | Some ss \<Rightarrow> ss))))"

lemma state_no_range: "0 \<le> state_no st \<and> state_no st < 12"
  by (cases st) (simp_all add: state_no_def)

lemma first_rule_match:
  assumes "list_all2 encodes rs ts" "32 < c" "c \<le> 127"
  shows "first_rule ts (state_no st) (uint c - 32) = (case match_rule rs st c of None \<Rightarrow> -1 | Some a \<Rightarrow> action_no a)"
  using assms(1)
proof (induction rs ts rule: list_all2_induct)
  case (Cons r rs t ts)
  obtain sts d a where r: "r = (sts, d, a)" by (cases r) auto
  have c: "word_of_int (uint c - 32) = c - 32" by simp
  have d: "(d - 32 = 46 - 32) = (d = 46)" "(d - 32 = c - 32) = (d = c)" for d by auto
  have "(anyst t \<or> teststate (state_no st) t = Some True) = (case sts of None \<Rightarrow> True | Some ss \<Rightarrow> st \<in> set ss)"
    "inchr t = d - 32" "actno t = action_no a"
    using Cons(1) by (auto simp: encodes_def r split: option.splits)
  with Cons(3) d show ?case by (auto simp: first_rule_def r)
qed (simp add: first_rule_def)

lemma teststate_newtrans: "0 \<le> j \<Longrightarrow> j < 56 \<Longrightarrow> teststate j newtrans = Some False"
  using teststate_bit [of newtrans j] by (simp add: newtrans_def nth_replicate)

lemma state_no_inj: "state_no st = state_no st' \<longleftrightarrow> st = st'"
  by (cases st; cases st') (simp_all add: state_no_def)

text \<open>A rule of the file and the rule of the model it is: the same state and letter, and the number of the action.\<close>

definition same_rule :: "wstate list option \<times> byte \<times> paction \<Rightarrow> nat \<Rightarrow> wrule \<Rightarrow> bool" where
  "same_rule r k w \<longleftrightarrow> (case r of (sts, c, a) \<Rightarrow> of_char (wchr w) = c \<and> action_no a = int k \<and>
     (case sts of None \<Rightarrow> wst w = None
      | Some ss \<Rightarrow> (\<exists>x. ss = [x] \<and> x \<noteq> Wstart \<and> wst w = Some (state_name x))))"

lemma same_rule_encodes:
  assumes "same_rule r k w" "\<forall>x. x \<noteq> Wstart \<longrightarrow> look (cbytes (state_name x)) = state_no x"
  shows "encodes r (rule_trans look k w)"
proof -
  obtain sts c a where r: "r = (sts, c, a)" by (cases r) auto
  have upd: "teststate j (t\<lparr>actno := n, inchr := c'\<rparr>) = teststate j t" "teststate j (t\<lparr>anyst := b\<rparr>) = teststate j t"
    for j t c' n b by (simp_all add: teststate_def)
  have rng: "0 \<le> state_no st" "state_no st < 56" for st using state_no_range [of st] by auto
  have l: "length (states newtrans) = SBYTES" by (simp add: newtrans_def)
  show ?thesis
  proof (cases sts)
    case None
    then show ?thesis using assms(1) teststate_newtrans [OF rng] l
      by (simp add: encodes_def rule_trans_def same_rule_def r upd trans_ok_def)
  next
    case (Some ss)
    then obtain x where x: "ss = [x]" "x \<noteq> Wstart" "wst w = Some (state_name x)" "of_char (wchr w) = c" "action_no a = int k"
      using assms(1) by (auto simp: same_rule_def r)
    obtain t where t: "setwstate (state_no x) newtrans = Some t" "length (states t) = SBYTES" "\<not> anyst t"
      "\<forall>j. 0 \<le> j \<and> j < 56 \<longrightarrow> teststate j t = Some (j = state_no x \<or> teststate j newtrans = Some True)"
      using setwstate_set [OF l rng, of x] by (auto simp: newtrans_def)
    then show ?thesis using rng teststate_newtrans [OF rng] x Some assms(2)
      by (auto simp: encodes_def rule_trans_def r upd trans_ok_def state_no_inj)
  qed
qed

lemma same_rules: "length gproto_wrules = 20 \<and> length gproto_rules = 20 \<and> (\<forall>i < 20. same_rule (gproto_rules ! i) (Suc i) (gproto_wrules ! i))"
  by (simp add: numeral_eq_Suc All_less_Suc gproto_rules_def gproto_wrules_def same_rule_def action_no_def)

lemma names_numbered:
  assumes "numbered 0 gproto_names s" "x \<noteq> Wstart"
  shows "lkup (cbytes (state_name x)) s = state_no x"
proof -
  have n: "lkup (cbytes (gproto_names ! i)) s = int (Suc i)" if "i < 11" for i using assms(1) that by (simp add: numbered_def)
  show ?thesis
    using assms(2) n [of 0] n [of 1] n [of 2] n [of 3] n [of 4] n [of 5] n [of 6] n [of 7] n [of 8] n [of 9] n [of 10]
    by (cases x) (simp_all add: state_no_def)
qed

lemma switch_act_no: "switch_act (action_no a) = Some a"
  by (cases a) (simp_all add: switch_act_def action_no_def gproto_rules_def)

text \<open>
  The table, column by column: the columns of the packet types hold the action of the model, column 0 none.
\<close>

lemma generated_act_ok:
  assumes "\<forall>st c. 32 < c \<and> c \<le> 127 \<longrightarrow>
      u ! (nat (state_no st) * 96 + nat (uint c - 32)) = (case match_rule gproto_rules st c of None \<Rightarrow> -1 | Some a \<Rightarrow> action_no a)"
    "\<forall>st. u ! (nat (state_no st) * 96) \<in> {-1, 0}" "12 * 96 \<le> length u"
  shows "generated_act u st t s = gwart_act st t s"
proof (cases "t \<le> 32 \<or> 127 < t")
  case True
  then have "uint t \<le> 32 \<or> 127 < uint t" by (simp add: word_le_def word_less_def)
  then have c: "(if uint t - 32 < 0 \<or> uint t - 32 > 95 then 0 else uint t - 32) = 0" by auto
  have "aget u (0 + state_no st * 96) = Some (u ! (nat (state_no st) * 96))"
    using state_no_range [of st] assms(3) by (simp add: aget_def nat_mult_distrib)
  moreover have "switch_act 0 = None" by (simp add: switch_act_def)
  ultimately show ?thesis using assms(2) [rule_format, of st] True
    unfolding generated_act_def gwart_act_def Let_def c by auto
next
  case False
  then have t: "32 < t" "t \<le> 127" by auto
  then have i: "32 < uint t" "uint t \<le> 127" by (simp_all add: word_le_def word_less_def)
  then have c: "(if uint t - 32 < 0 \<or> uint t - 32 > 95 then 0 else uint t - 32) = uint t - 32" by auto
  have n: "nat (uint t - 32 + state_no st * 96) = nat (state_no st) * 96 + nat (uint t - 32)"
    using i state_no_range [of st] by (simp add: nat_add_distrib nat_mult_distrib)
  have "aget u (uint t - 32 + state_no st * 96) = Some (u ! (nat (state_no st) * 96 + nat (uint t - 32)))"
    using i state_no_range [of st] assms(3) by (simp add: aget_def n)
  moreover have "action_no a \<noteq> -1" for a by (cases a) (simp_all add: action_no_def)
  ultimately show ?thesis using assms(1) t False
    unfolding generated_act_def gwart_act_def Let_def c by (auto simp: switch_act_no split: option.splits)
qed

text \<open>
  C18. gwart, run on the text of gproto.w, succeeds; it gives the states the numbers the actions
  assign, and the table it writes makes the loop of the generated program do what the automaton of the
  protocol model does: for each of its twelve states and every packet type there is, the loop performs the
  same action, or none, without reading outside the table.
\<close>

theorem gproto_dispatch:
  "\<exists>w. gwart_main (cbytes gproto_w) = Ret () w \<and>
     (\<forall>x. x \<noteq> Wstart \<longrightarrow> lkup (cbytes (state_name x)) w = state_no x) \<and>
     (\<forall>st t (s :: 'a kses_scheme). generated_act (tbl w) st t s = gwart_act st t s)"
proof -
  obtain s where s: "rdinput (clrhash (gw_start (cbytes gproto_w))) =
      Ret (map (\<lambda>i. rule_trans (\<lambda>n. lkup n s) (Suc i) (gproto_wrules ! i)) [0..<length gproto_wrules]) s"
    "nstates s = 11" "numbered 0 gproto_names s" "tbl s = replicate (MAXSTATES * 96) 0"
    using gproto_rdinput by blast
  define ts where "ts = map (\<lambda>i. rule_trans (\<lambda>n. lkup n s) (Suc i) (gproto_wrules ! i)) [0..<length gproto_wrules]"
  have e: "list_all2 encodes gproto_rules ts"
    using same_rules names_numbered [OF s(3)]
    by (auto simp: list_all2_conv_all_nth ts_def intro!: same_rule_encodes)
  have ok: "list_all trans_ok ts" using rdinput_ok [OF s(1)] by (simp add: ts_def)
  obtain u where u: "build_table ts s = Ret () (s\<lparr>tbl := u\<rparr>)"
    "\<forall>st c. st \<le> 11 \<and> 1 \<le> c \<and> c < 96 \<longrightarrow> u ! (st * 96 + c) = first_rule ts (int st) (int c)"
    "\<forall>st < 11. u ! (st * 96) = -1" "u ! (11 * 96) = 0" "length u = MAXSTATES * 96"
    using build_table_ok [OF ok, of s] s(2,4) by auto
  define w where "w = copyrest (writetbl (s\<lparr>tbl := u\<rparr>))"
  have w: "gwart_main (cbytes gproto_w) = Ret () w" "tbl w = u" "lkup n w = lkup n s" for n
    using s(1) u(1) by (simp_all add: gwart_main_def ts_def w_def copyrest_def writetbl_def put_def lkup_def)
  have "u ! (nat (state_no st) * 96 + nat (uint c - 32)) = (case match_rule gproto_rules st c of None \<Rightarrow> -1 | Some a \<Rightarrow> action_no a)"
    if c: "32 < c" "c \<le> 127" for st c
  proof -
    have "32 < uint c" "uint c \<le> 127" using c by (simp_all add: word_less_def word_le_def)
    then have n: "1 \<le> nat (uint c - 32)" "nat (uint c - 32) < 96" "int (nat (uint c - 32)) = uint c - 32" "nat (state_no st) \<le> 11"
      "int (nat (state_no st)) = state_no st"
      using state_no_range [of st] by (simp_all add: nat_le_iff)
    show ?thesis using u(2) [rule_format, of "nat (state_no st)" "nat (uint c - 32)"] n first_rule_match [OF e c, of st] by simp
  qed
  moreover have "u ! (nat (state_no st) * 96) \<in> {-1, 0}" for st
    using u(3,4) state_no_range [of st] by (cases "nat (state_no st) = 11") (auto simp: nat_less_iff)
  ultimately have "generated_act (tbl w) st t s' = gwart_act st t s'" for st t and s' :: "'a kses_scheme"
    using generated_act_ok [of u st t s'] u(5) w(2) by simp
  moreover have "\<forall>x. x \<noteq> Wstart \<longrightarrow> lkup (cbytes (state_name x)) w = state_no x" using names_numbered [OF s(3)] w(3) by simp
  ultimately show ?thesis using w(1) by blast
qed

theorem gproto_dispatch_witness:
  "\<exists>w. gwart_main (cbytes gproto_w) = Ret () w \<and> lkup (cbytes ''ssdat'') w = 3 \<and>
     generated_act (tbl w) Ssdat 69 (ses0 []) = Ret (Inr 1) ((ses0 [])\<lparr>failure := True\<rparr>)"
proof -
  obtain w where w: "gwart_main (cbytes gproto_w) = Ret () w" "\<forall>x. x \<noteq> Wstart \<longrightarrow> lkup (cbytes (state_name x)) w = state_no x"
    "\<forall>st t (s :: kses). generated_act (tbl w) st t s = gwart_act st t s"
    using gproto_dispatch by blast
  have "lkup (cbytes (state_name Ssdat)) w = 3" using w(2) by (simp add: state_no_def del: cbytes_simps state_name.simps)
  moreover have "gwart_act Ssdat 69 (ses0 []) = Ret (Inr 1) ((ses0 [])\<lparr>failure := True\<rparr>)"
    by (simp add: gwart_act_def gproto_rules_def word_le_nat_alt word_less_nat_alt)
  ultimately show ?thesis using w(1,3) by auto
qed

end
