(* ===== verification/Kermit_Cmdline.thy ===== *)
theory Kermit_Cmdline
  imports Kermit_Table
begin

text \<open>
  The command line of gkermit (gcmdline.c) and its main program: options from the variable GKERMIT
  and from the argument vector, and the start of the protocol.
\<close>

section \<open>Definitions\<close>

text \<open>
  The argument vector is the list \<open>cv\<close>; \<open>xargv\<close> is an index into it, \<open>xargc\<close> the counter the code
  keeps beside it. Reading a word outside the list is reading through a null pointer.
\<close>

record kcmd = kses +
  cv :: "byte list list"
  xargv :: int
  xargc :: int
  action :: byte
  quiet :: bool
  nomodes :: bool
  xonxoff :: bool
  noxonxoff :: bool
  debug :: bool
  log_ok :: bool

definition fatal_opt :: "'a kcmd_scheme \<Rightarrow> ('b, 'a kcmd_scheme) outcome" where
  "fatal_opt s = Exit 1 s"

definition first_char :: "byte list \<Rightarrow> byte" where
  "first_char w = (case w of [] \<Rightarrow> 0 | c # _ \<Rightarrow> c)"

text \<open>\<open>with_word f s\<close> reads \<open>*xargv\<close>.\<close>

definition with_word :: "(byte list \<Rightarrow> ('b, 'a kcmd_scheme) outcome) \<Rightarrow> 'a kcmd_scheme \<Rightarrow> ('b, 'a kcmd_scheme) outcome" where
  "with_word f s = (case aget (cv s) (xargv s) of None \<Rightarrow> Wild | Some w \<Rightarrow> f w)"

text \<open>\<open>atoi\<close> through \<open>strtol\<close>, which stops at the limits of a 32-bit \<open>long\<close>.\<close>

definition atoi :: "byte list \<Rightarrow> int" where
  "atoi w =
     (let w = dropWhile isspace w;
          neg = (first_char w = 45);
          w = (if first_char w = 45 \<or> first_char w = 43 then tl w else w);
          v = int (digits_value (takeWhile isdigit w) 0)
      in if neg then max (- v) (- (2 ^ 31)) else min v (2 ^ 31 - 1))"

text \<open>The files of \<open>-s\<close>: \<open>while (--xargc > 0) { *xargv++; if (**xargv == '-') break; nfils++; }\<close>.\<close>

function send_files :: "'a kcmd_scheme \<Rightarrow> (unit, 'a kcmd_scheme) outcome" where
  "send_files s =
     (let s = s\<lparr>xargc := xargc s - 1\<rparr>
      in if xargc s > 0 then
           (let s = s\<lparr>xargv := xargv s + 1\<rparr>
            in case aget (cv s) (xargv s) of
                 None \<Rightarrow> Wild
               | Some w \<Rightarrow> if first_char w = 45 then Ret () s else send_files (s\<lparr>nfils := nfils s + 1\<rparr>))
         else Ret () s)"
  by pat_completeness auto
termination
  by (relation "measure (\<lambda>s. nat (xargc s))") auto

declare send_files.simps [simp del]

text \<open>
  One option letter \<open>x\<close> with the letters \<open>r\<close> bundled behind it; the result is what is left of them.
  The options that start a transfer:
\<close>

definition opt_action :: "byte \<Rightarrow> byte list \<Rightarrow> 'a kcmd_scheme \<Rightarrow> (byte list, 'a kcmd_scheme) outcome" where
  "opt_action x r s =
     (if action s \<noteq> 0 then fatal_opt s
      else if x = 114 then Ret r (s\<lparr>action := 118\<rparr>)
      else if r \<noteq> [] then fatal_opt s
      else if x = 115 then
        (let s = s\<lparr>nfils := 0, cmlist := drop (nat (xargv s + 1)) (cv s)\<rparr>
         in case aget (cv s) (xargv s + 1) of
              None \<Rightarrow> fatal_opt s
            | Some f \<Rightarrow>
                if zchki f (fsys s) < 0 then fatal_opt s
                else kbind (send_files s) (\<lambda>_ s.
                  (let s = s\<lparr>xargc := xargc s + 1, xargv := xargv s - 1\<rparr>
                   in if nfils s < 1 then fatal_opt s else Ret [] (s\<lparr>action := 115\<rparr>))))
      else
        (let s = s\<lparr>xargv := xargv s + 1, xargc := xargc s - 1\<rparr>
         in if xargc s = 0 then fatal_opt s
            else with_word (\<lambda>w. if first_char w = 45 then fatal_opt s
                                else Ret [] (s\<lparr>cmarg := w, action := 114\<rparr>)) s))"

text \<open>The options with a value: parity, as-name, packet length and timeout.\<close>

definition opt_value :: "byte \<Rightarrow> byte list \<Rightarrow> 'a kcmd_scheme \<Rightarrow> (byte list, 'a kcmd_scheme) outcome" where
  "opt_value x r s =
     (if r \<noteq> [] then fatal_opt s
      else
        (let s = s\<lparr>xargv := xargv s + 1, xargc := xargc s - 1\<rparr>
         in if (if x = 97 then xargc s = 0 else xargc s < 1) then fatal_opt s
            else with_word (\<lambda>w.
              if first_char w = 45 then fatal_opt s
              else if x = 112 then
                (if first_char w \<in> {101, 111, 109, 115} then Ret [] (s\<lparr>parity := first_char w\<rparr>)
                 else if first_char w = 110 then Ret [] (s\<lparr>parity := 0\<rparr>)
                 else fatal_opt s)
              else if x = 97 then Ret [] (s\<lparr>cmarg2 := Some w\<rparr>)
              else
                (let z = atoi w
                 in if x = 101 then
                      (if z \<ge> 40 \<and> z \<le> 9000 then Ret [] (s\<lparr>urpsiz := z, rpsiz := (if z > 94 then 94 else z)\<rparr>)
                       else fatal_opt s)
                    else Ret [] (s\<lparr>timint := (if z < 0 then 0 else if z > 90 then 90 else z)\<rparr>))) s))"

definition opt_debug :: "'a kcmd_scheme \<Rightarrow> (unit, 'a kcmd_scheme) outcome" where
  "opt_debug s =
     (let opened = (\<lambda>s. Ret () (if log_ok s then s\<lparr>debug := True\<rparr> else s))
      in if xargc s < 2 then opened s
         else case aget (cv s) (xargv s + 1) of
                None \<Rightarrow> Wild
              | Some w \<Rightarrow> if first_char w = 45 then opened s
                          else opened (s\<lparr>xargv := xargv s + 1, xargc := xargc s - 1\<rparr>))"

definition doarg_letter :: "byte \<Rightarrow> byte list \<Rightarrow> 'a kcmd_scheme \<Rightarrow> (byte list, 'a kcmd_scheme) outcome" where
  "doarg_letter x r s =
     (if x \<in> {114, 115, 103} then opt_action x r s
      else if x = 104 \<or> x = 63 then Exit 0 s
      else if x = 105 then Ret r (s\<lparr>manual := True, textmode := False\<rparr>)
      else if x = 84 then Ret r (s\<lparr>manual := True, textmode := True\<rparr>)
      else if x \<in> {112, 97, 101, 98} then opt_value x r s
      else if x = 119 then Ret r (s\<lparr>backup := False\<rparr>)
      else if x = 100 then kbind (opt_debug s) (\<lambda>_ s. Ret r s)
      else if x = 80 then Ret r (s\<lparr>literal := True\<rparr>)
      else if x = 113 then Ret r (s\<lparr>quiet := True\<rparr>)
      else if x = 75 then Ret r (s\<lparr>keep := True\<rparr>)
      else if x = 83 then Ret r (s\<lparr>streamok := -1\<rparr>)
      else if x = 88 then Ret r (s\<lparr>quiet := True, nomodes := True\<rparr>)
      else if x = 120 then Ret r (s\<lparr>xonxoff := True, noxonxoff := False\<rparr>)
      else if x = 45 then
        (case r of
           y # r' \<Rightarrow> if y = 120 then Ret r' (s\<lparr>xonxoff := False, noxonxoff := True\<rparr>) else fatal_opt s
         | [] \<Rightarrow> fatal_opt s)
      else fatal_opt s)"

lemma send_files_argc: "send_files s = Ret u t \<Longrightarrow> xargc t < xargc s"
proof (induction s rule: send_files.induct)
  case (1 s)
  then show ?case by (subst (asm) (2) send_files.simps) (fastforce simp: Let_def split: if_splits option.splits)
qed

lemma doarg_letter_left: "doarg_letter x r s = Ret r' t \<Longrightarrow> length r' \<le> length r \<and> xargc t \<le> xargc s"
  by (auto simp: doarg_letter_def opt_action_def opt_value_def opt_debug_def with_word_def fatal_opt_def Let_def kbind_Ret_iff
      split: if_splits option.splits list.splits dest!: send_files_argc)

function doarg :: "byte list \<Rightarrow> 'a kcmd_scheme \<Rightarrow> (unit, 'a kcmd_scheme) outcome" where
  "doarg [] s = Ret () s"
| "doarg (x # r) s = kbind (doarg_letter x r s) (\<lambda>r s. doarg r s)"
  by pat_completeness auto
termination
  by (relation "measure (\<lambda>(r, s). length r)") (auto dest!: doarg_letter_left)

lemma doarg_argc: "doarg r s = Ret u t \<Longrightarrow> xargc t \<le> xargc s"
proof (induction r s rule: doarg.induct)
  case (2 x r s)
  then obtain r' s' where "doarg_letter x r s = Ret r' s'" "doarg r' s' = Ret u t" by (auto simp: kbind_Ret_iff)
  with 2(1) doarg_letter_left show ?case by fastforce
qed simp

text \<open>
  The variable GKERMIT, cut into at most 32 words; the last of 32 keeps the rest of the text. The loop
  over them counts \<open>xargc\<close> down before it looks at a word, the loop over the command line as it steps
  to the next one.
\<close>

fun env_words :: "nat \<Rightarrow> byte list \<Rightarrow> byte list list" where
  "env_words 0 w = []"
| "env_words (Suc n) w =
     (let w = dropWhile (\<lambda>c. c \<le> 32) w
      in if w = [] then []
         else if n = 0 then [w]
         else takeWhile (\<lambda>c. 32 < c) w # env_words n (drop 1 (dropWhile (\<lambda>c. 32 < c) w)))"

function env_loop :: "'a kcmd_scheme \<Rightarrow> (unit, 'a kcmd_scheme) outcome" where
  "env_loop s =
     (let s1 = s\<lparr>xargc := xargc s - 1\<rparr>
      in if xargc s > 0 then
           (case aget (cv s) (xargv s) of
              None \<Rightarrow> Wild
            | Some w \<Rightarrow>
                if first_char w = 45 then kbind (doarg (tl w) s1) (\<lambda>_ s. env_loop (s\<lparr>xargv := xargv s + 1\<rparr>))
                else Exit 0 s1)
         else Ret () s1)"
  by pat_completeness auto
termination
  by (relation "measure (\<lambda>s. nat (xargc s))") (auto dest!: doarg_argc)

declare env_loop.simps [simp del]

function cmd_loop :: "'a kcmd_scheme \<Rightarrow> (unit, 'a kcmd_scheme) outcome" where
  "cmd_loop s =
     (let s1 = s\<lparr>xargc := xargc s - 1\<rparr>
      in if xargc s1 > 0 then
           (let s2 = s1\<lparr>xargv := xargv s1 + 1\<rparr>
            in case aget (cv s2) (xargv s2) of
                 None \<Rightarrow> Wild
               | Some w \<Rightarrow>
                   if first_char w = 45 then kbind (doarg (tl w) s2) (\<lambda>_ s. cmd_loop s)
                   else Exit 1 s2)
         else Ret () s1)"
  by pat_completeness auto
termination
  by (relation "measure (\<lambda>s. nat (xargc s))") (auto dest!: doarg_argc)

declare cmd_loop.simps [simp del]

definition cmdlin :: "byte list option \<Rightarrow> 'a kcmd_scheme \<Rightarrow> (unit, 'a kcmd_scheme) outcome" where
  "cmdlin env s =
     (let s = s\<lparr>cmarg := [], cmlist := [], action := 0\<rparr>
      in kbind
           (case env of
              None \<Rightarrow> Ret () s
            | Some p \<Rightarrow>
                (let g = env_words 32 (take 255 (cstr p))
                 in kbind (env_loop (s\<lparr>cv := g, xargv := 0, xargc := int (length g)\<rparr>)) (\<lambda>_ t.
                      Ret () (t\<lparr>cv := cv s, xargv := xargv s, xargc := xargc s\<rparr>))))
           (\<lambda>_ s. cmd_loop s))"

text \<open>
  The main program, with the answers of \<open>ttopen\<close> and \<open>ttpkt\<close>. The protocol runs in \<open>gwart\<close>, and the
  exit status is the failure flag.
\<close>

definition kermit_main :: "byte list option \<Rightarrow> bool \<Rightarrow> bool \<Rightarrow> 'a kcmd_scheme \<Rightarrow> (unit, 'a kcmd_scheme) outcome" where
  "kermit_main env tty_opens tty_packet s =
     (let s = s\<lparr>start := 0, seq := 0, parity := 0, xargv := 0, xargc := int (length (cv s))\<rparr>
      in if xargc s < 2 then Exit 1 s
         else
           (let s = (if urpsiz s > 9000 then s\<lparr>urpsiz := 9000\<rparr> else s);
                s = (if maxrp s > 9020 then s\<lparr>maxrp := 9020\<rparr> else s)
            in kbind (cmdlin env s) (\<lambda>_ s.
                 (let s = s\<lparr>start := action s\<rparr>
                  in if start s = 0 \<and> \<not> debug s then Exit 1 s
                     else if \<not> tty_opens then Exit 1 s
                     else if \<not> tty_packet then Exit 1 s
                     else if start s \<noteq> 0 then
                       (let s = (if start s = 115 \<or> start s = 114 then ttflui s else s)
                        in case gwart Wstart s of
                             None \<Rightarrow> Hang
                           | Some (Ret x s) \<Rightarrow> Exit (failed s) s
                           | Some (Exit x s) \<Rightarrow> Exit x s
                           | Some Wild \<Rightarrow> Wild
                           | Some Hang \<Rightarrow> Hang)
                     else Exit (failed s) s))))"

section \<open>The settings an accepted command line leaves\<close>

definition cmd_ok :: "'a kcmd_scheme \<Rightarrow> bool" where
  "cmd_ok s \<longleftrightarrow> ses_ok s \<and> rpsiz s \<in> {40..94} \<and> urpsiz s \<in> {40..9000} \<and> 0 \<le> timint s \<and> timint s \<le> 90 \<and>
     parity s \<in> {0, 101, 111, 109, 115} \<and> action s \<in> {0, 118, 115, 114} \<and> (action s = 115 \<longrightarrow> 1 \<le> nfils s)"

text \<open>
  \<open>leaves w P m\<close>: what \<open>m\<close> returns satisfies \<open>P\<close>, and where \<open>w\<close> is false no address outside the argument
  vector is read.
\<close>

definition leaves :: "bool \<Rightarrow> ('s \<Rightarrow> bool) \<Rightarrow> ('b, 's) outcome \<Rightarrow> bool" where
  "leaves w P m = (case m of Ret x t \<Rightarrow> P t | Exit x t \<Rightarrow> True | Wild \<Rightarrow> w | Hang \<Rightarrow> w)"

lemma leaves_simps [simp]: "leaves w P (Ret x t) = P t" "leaves w P (Exit n t)" "leaves w P Wild = w"
  by (simp_all add: leaves_def)

lemma leaves_fatal [simp]: "leaves w P (fatal_opt s)"
  by (simp add: fatal_opt_def)

lemma leaves_kbind: "leaves w P m \<Longrightarrow> (\<And>x t. m = Ret x t \<Longrightarrow> P t \<Longrightarrow> leaves w Q (f x t)) \<Longrightarrow> leaves w Q (kbind m f)"
  by (cases m) (auto simp: leaves_def)

lemma leaves_if: "(c \<Longrightarrow> leaves w P a) \<Longrightarrow> (\<not> c \<Longrightarrow> leaves w P b) \<Longrightarrow> leaves w P (if c then a else b)"
  by simp

lemma leaves_aget: "(\<not> (0 \<le> i \<and> i < int (length xs)) \<Longrightarrow> leaves w P a) \<Longrightarrow>
    (\<And>x. 0 \<le> i \<Longrightarrow> i < int (length xs) \<Longrightarrow> leaves w P (f x)) \<Longrightarrow> leaves w P (case aget xs i of None \<Rightarrow> a | Some x \<Rightarrow> f x)"
  by (simp add: aget_def)

lemmas leaves_intros = leaves_if leaves_aget

lemma leaves_mono: "leaves w P m \<Longrightarrow> (\<And>t. P t \<Longrightarrow> Q t) \<Longrightarrow> leaves w Q m"
  by (cases m) (auto simp: leaves_def)

lemma ses_ok_cmd [simp]:
  fixes s :: "'a kcmd_scheme"
  shows "ses_ok (s\<lparr>xargv := i\<rparr>) = ses_ok s" "ses_ok (s\<lparr>xargc := i\<rparr>) = ses_ok s" "ses_ok (s\<lparr>cv := l\<rparr>) = ses_ok s"
    "ses_ok (s\<lparr>action := c\<rparr>) = ses_ok s" "ses_ok (s\<lparr>nfils := i\<rparr>) = ses_ok s" "ses_ok (s\<lparr>cmlist := l\<rparr>) = ses_ok s"
    "ses_ok (s\<lparr>cmarg := w\<rparr>) = ses_ok s" "ses_ok (s\<lparr>cmarg2 := wo\<rparr>) = ses_ok s" "ses_ok (s\<lparr>parity := c\<rparr>) = ses_ok s"
    "ses_ok (s\<lparr>urpsiz := i\<rparr>) = ses_ok s" "ses_ok (s\<lparr>rpsiz := i\<rparr>) = ses_ok s" "ses_ok (s\<lparr>timint := i\<rparr>) = ses_ok s"
    "ses_ok (s\<lparr>manual := b\<rparr>) = ses_ok s" "ses_ok (s\<lparr>backup := b\<rparr>) = ses_ok s" "ses_ok (s\<lparr>literal := b\<rparr>) = ses_ok s"
    "ses_ok (s\<lparr>quiet := b\<rparr>) = ses_ok s" "ses_ok (s\<lparr>keep := b\<rparr>) = ses_ok s" "ses_ok (s\<lparr>streamok := i\<rparr>) = ses_ok s"
    "ses_ok (s\<lparr>nomodes := b\<rparr>) = ses_ok s" "ses_ok (s\<lparr>xonxoff := b\<rparr>) = ses_ok s" "ses_ok (s\<lparr>noxonxoff := b\<rparr>) = ses_ok s"
    "ses_ok (s\<lparr>debug := b\<rparr>) = ses_ok s"
  by (simp_all add: ses_ok_def par_ok_def)

text \<open>The commands' two invariants in one: the settings, and the room left in the argument vector.\<close>

definition arg_room :: "'a kcmd_scheme \<Rightarrow> bool" where
  "arg_room s \<longleftrightarrow> 0 \<le> xargv s \<and> 1 \<le> xargc s \<and> xargv s + xargc s \<le> int (length (cv s))"

lemma aget_within: "0 \<le> i \<Longrightarrow> i < int (length xs) \<Longrightarrow> aget xs i = Some (xs ! nat i)"
  by (simp add: aget_def)

definition but_files :: "'a kcmd_scheme \<Rightarrow> 'a kcmd_scheme" where
  "but_files s = s\<lparr>xargv := 0, xargc := 0, nfils := 0\<rparr>"

definition files_taken :: "bool \<Rightarrow> 'a kcmd_scheme \<Rightarrow> 'a kcmd_scheme \<Rightarrow> bool" where
  "files_taken w s t \<longleftrightarrow> but_files t = but_files s \<and> nfils s \<le> nfils t \<and>
     (\<not> w \<longrightarrow> 0 \<le> xargc t \<and> xargv t + xargc t \<le> int (length (cv s)) \<and> xargv s + (nfils t - nfils s) \<le> xargv t)"

lemma send_files_leaves: "\<not> w \<longrightarrow> arg_room s \<Longrightarrow> leaves w (files_taken w s) (send_files s)"
proof (induction s rule: send_files.induct)
  case (1 s)
  define s1 where "s1 = s\<lparr>xargc := xargc s - 1\<rparr>"
  define s2 where "s2 = s1\<lparr>xargv := xargv s1 + 1\<rparr>"
  define s3 where "s3 = s2\<lparr>nfils := nfils s2 + 1\<rparr>"
  have e: "send_files s = (if xargc s1 > 0 then case aget (cv s2) (xargv s2) of None \<Rightarrow> Wild
      | Some v \<Rightarrow> if first_char v = 45 then Ret () s2 else send_files s3 else Ret () s1)"
    unfolding s3_def s2_def s1_def by (subst send_files.simps) (simp only: Let_def)
  have stop: "leaves w (files_taken w s) (Ret () s2)" if "xargc s1 > 0"
    using "1.prems" that by (auto simp: files_taken_def but_files_def s2_def s1_def arg_room_def)
  show ?case
  proof (cases "xargc s1 > 0")
    case True
    show ?thesis
    proof (cases "aget (cv s2) (xargv s2)")
      case None
      with "1.prems" True show ?thesis by (auto simp: e s2_def s1_def arg_room_def aget_within)
    next
      case (Some v)
      have "leaves w (files_taken w s) (send_files s3)" if "first_char v \<noteq> 45"
      proof -
        have "\<not> w \<longrightarrow> arg_room s3" using "1.prems" True by (auto simp: s3_def s2_def s1_def arg_room_def)
        from "1.IH" [OF s1_def True s2_def Some that this [unfolded s3_def]] have "leaves w (files_taken w s3) (send_files s3)"
          by (simp add: s3_def)
        then show ?thesis by (rule leaves_mono) (auto simp: files_taken_def but_files_def s3_def s2_def s1_def)
      qed
      with stop True Some show ?thesis by (simp add: e)
    qed
  next
    case False
    with "1.prems" show ?thesis by (auto simp: e files_taken_def but_files_def s1_def arg_room_def)
  qed
qed

lemma but_files_fields:
  assumes "but_files t = but_files s"
  shows "ses_ok t = ses_ok s" "rpsiz t = rpsiz s" "urpsiz t = urpsiz s" "timint t = timint s" "parity t = parity s"
    "action t = action s" "cv t = cv s"
proof -
  have "ses_ok t = ses_ok (but_files t)" "ses_ok s = ses_ok (but_files s)" by (simp_all add: but_files_def)
  then show "ses_ok t = ses_ok s" by (simp add: assms)
  show "rpsiz t = rpsiz s" using arg_cong [OF assms, of rpsiz] by (simp add: but_files_def)
  show "urpsiz t = urpsiz s" using arg_cong [OF assms, of urpsiz] by (simp add: but_files_def)
  show "timint t = timint s" using arg_cong [OF assms, of timint] by (simp add: but_files_def)
  show "parity t = parity s" using arg_cong [OF assms, of parity] by (simp add: but_files_def)
  show "action t = action s" using arg_cong [OF assms, of action] by (simp add: but_files_def)
  show "cv t = cv s" using arg_cong [OF assms, of cv] by (simp add: but_files_def)
qed

text \<open>What every option keeps: the settings, and where the room is asked for, the room.\<close>

definition cmd_inv :: "bool \<Rightarrow> bool \<Rightarrow> 'a kcmd_scheme \<Rightarrow> bool" where
  "cmd_inv k w s \<longleftrightarrow> (k \<longrightarrow> cmd_ok s) \<and> (\<not> w \<longrightarrow> arg_room s)"

lemma send_option_leaves:
  assumes "cmd_inv k w s" "action s = 0"
  shows "leaves w (cmd_inv k w) (kbind (send_files (s\<lparr>nfils := 0, cmlist := l\<rparr>)) (\<lambda>_ s.
    (let s = s\<lparr>xargc := xargc s + 1, xargv := xargv s - 1\<rparr>
     in if nfils s < 1 then fatal_opt s else Ret [] (s\<lparr>action := 115\<rparr>))))"
proof (rule leaves_kbind, rule send_files_leaves)
  let ?s = "s\<lparr>nfils := 0, cmlist := l\<rparr>"
  show "\<not> w \<longrightarrow> arg_room ?s" using assms by (auto simp: cmd_inv_def arg_room_def)
  fix t assume t: "files_taken w ?s t"
  then have "but_files t = but_files ?s" by (simp add: files_taken_def)
  from but_files_fields [OF this] t assms
  show "leaves w (cmd_inv k w) (let s = t\<lparr>xargc := xargc t + 1, xargv := xargv t - 1\<rparr>
     in if nfils s < 1 then fatal_opt s else Ret [] (s\<lparr>action := 115\<rparr>))"
    by (auto simp: Let_def files_taken_def cmd_inv_def cmd_ok_def arg_room_def)
qed

lemma opt_action_leaves: "cmd_inv k w s \<Longrightarrow> leaves w (cmd_inv k w) (opt_action x r s)"
  unfolding opt_action_def Let_def with_word_def
  by (intro leaves_intros send_option_leaves [unfolded Let_def])
    (auto simp: cmd_inv_def cmd_ok_def arg_room_def)

lemma opt_value_leaves: "cmd_inv k w s \<Longrightarrow> leaves w (cmd_inv k w) (opt_value x r s)"
  unfolding opt_value_def Let_def with_word_def
  by (intro leaves_intros) (auto simp: cmd_inv_def cmd_ok_def arg_room_def simp del: insert_iff split: if_splits)

lemma opt_debug_leaves: "cmd_inv k w s \<Longrightarrow> leaves w (cmd_inv k w) (opt_debug s)"
  unfolding opt_debug_def Let_def
  by (intro leaves_intros) (auto simp: cmd_inv_def cmd_ok_def arg_room_def)

lemma cmd_inv_switch [simp]:
  "cmd_inv k w (s\<lparr>manual := b\<rparr>) = cmd_inv k w s" "cmd_inv k w (s\<lparr>textmode := b\<rparr>) = cmd_inv k w s"
  "cmd_inv k w (s\<lparr>backup := b\<rparr>) = cmd_inv k w s" "cmd_inv k w (s\<lparr>literal := b\<rparr>) = cmd_inv k w s"
  "cmd_inv k w (s\<lparr>quiet := b\<rparr>) = cmd_inv k w s" "cmd_inv k w (s\<lparr>keep := b\<rparr>) = cmd_inv k w s"
  "cmd_inv k w (s\<lparr>streamok := i\<rparr>) = cmd_inv k w s" "cmd_inv k w (s\<lparr>nomodes := b\<rparr>) = cmd_inv k w s"
  "cmd_inv k w (s\<lparr>xonxoff := b\<rparr>) = cmd_inv k w s" "cmd_inv k w (s\<lparr>noxonxoff := b\<rparr>) = cmd_inv k w s"
  by (simp_all add: cmd_inv_def cmd_ok_def arg_room_def)

lemma doarg_letter_leaves:
  assumes "cmd_inv k w s"
  shows "leaves w (cmd_inv k w) (doarg_letter x r s)"
proof -
  have "leaves w (cmd_inv k w) (kbind (opt_debug s) (\<lambda>_ s. Ret r s))"
    by (rule leaves_kbind, rule opt_debug_leaves [OF assms]) simp
  then show ?thesis
    unfolding doarg_letter_def using assms opt_action_leaves opt_value_leaves
    by (intro leaves_if) (simp_all split: list.split)
qed

lemma doarg_leaves: "cmd_inv k w s \<Longrightarrow> leaves w (cmd_inv k w) (doarg r s)"
proof (induction r s rule: doarg.induct)
  case (2 x r s)
  show ?case unfolding doarg.simps by (rule leaves_kbind, rule doarg_letter_leaves, rule 2(2)) (rule 2(1))
qed simp

lemma cmd_ok_arg [simp]:
  "cmd_ok (s\<lparr>xargv := i\<rparr>) = cmd_ok s" "cmd_ok (s\<lparr>xargc := i\<rparr>) = cmd_ok s" "cmd_ok (s\<lparr>cv := l\<rparr>) = cmd_ok s"
  by (simp_all add: cmd_ok_def)

lemma env_loop_leaves: "cmd_ok s \<Longrightarrow> leaves True cmd_ok (env_loop s)"
proof (induction s rule: env_loop.induct)
  case (1 s)
  define s1 where "s1 = s\<lparr>xargc := xargc s - 1\<rparr>"
  have "leaves True cmd_ok (kbind (doarg (tl v) s1) (\<lambda>_ s. env_loop (s\<lparr>xargv := xargv s + 1\<rparr>)))"
    if "xargc s > 0" "aget (cv s) (xargv s) = Some v" "first_char v = 45" for v
  proof (rule leaves_kbind)
    show "leaves True (cmd_inv True True) (doarg (tl v) s1)"
      by (rule doarg_leaves) (simp add: cmd_inv_def s1_def 1)
  qed (auto simp: cmd_inv_def intro: "1.IH" [OF s1_def that(1,2,3)])
  then show ?case using "1.prems" by (subst env_loop.simps) (auto simp: Let_def s1_def split: option.split)
qed

lemma cmd_loop_leaves: "k \<longrightarrow> cmd_ok s \<Longrightarrow> \<not> w \<longrightarrow> 0 \<le> xargv s \<and> xargv s + xargc s \<le> int (length (cv s)) \<Longrightarrow>
    leaves w (\<lambda>t. k \<longrightarrow> cmd_ok t) (cmd_loop s)"
proof (induction s rule: cmd_loop.induct)
  case (1 s)
  define s1 where "s1 = s\<lparr>xargc := xargc s - 1\<rparr>"
  define s2 where "s2 = s1\<lparr>xargv := xargv s1 + 1\<rparr>"
  have e: "cmd_loop s = (if xargc s1 > 0 then case aget (cv s2) (xargv s2) of None \<Rightarrow> Wild
      | Some v \<Rightarrow> if first_char v = 45 then kbind (doarg (tl v) s2) (\<lambda>_ s. cmd_loop s) else Exit 1 s2 else Ret () s1)"
    unfolding s2_def s1_def by (subst cmd_loop.simps) (simp only: Let_def)
  have i: "cmd_inv k w s2" if "xargc s1 > 0"
    using 1(2,3) that by (auto simp: cmd_inv_def s2_def s1_def arg_room_def)
  have "leaves w (\<lambda>t. k \<longrightarrow> cmd_ok t) (kbind (doarg (tl v) s2) (\<lambda>_ s. cmd_loop s))"
    if "xargc s1 > 0" "aget (cv s2) (xargv s2) = Some v" "first_char v = 45" for v
    by (rule leaves_kbind, rule doarg_leaves, rule i [OF that(1)], rule "1.IH" [OF s1_def that(1) s2_def that(2,3)])
      (auto simp: cmd_inv_def arg_room_def)
  then show ?case using 1(2,3) by (auto simp: e s1_def s2_def aget_def intro!: leaves_if)
qed

section \<open>Properties\<close>

lemma cmdlin_leaves: "cmd_ok s \<Longrightarrow> leaves True cmd_ok (cmdlin env s)"
proof -
  assume "cmd_ok s"
  then have c: "cmd_ok (s\<lparr>cmarg := [], cmlist := [], action := 0\<rparr>)" (is "cmd_ok ?s") by (simp add: cmd_ok_def)
  have l: "leaves True cmd_ok (cmd_loop t)" if "cmd_ok t" for t :: "'a kcmd_scheme"
    using cmd_loop_leaves [of True t True] that by simp
  show ?thesis
  proof (cases env)
    case None
    then show ?thesis using l [OF c] by (simp add: cmdlin_def)
  next
    case (Some p)
    show ?thesis unfolding cmdlin_def Let_def Some option.case kbind_assoc
      by (rule leaves_kbind, rule env_loop_leaves) (use c l in simp_all)
  qed
qed

text \<open>
  C21: a command line that is accepted leaves settings the protocol can work with: a
  packet length from 40 to 9000 to announce and from 40 to 94 to fall back to, a timeout from 0 to
  90 seconds, a parity the line code knows, one of the three actions or none, and at least one
  file where the action is to send.
\<close>

theorem cmdline_parameters:
  assumes "cmd_ok s" "cmdlin env s = Ret u t"
  shows "cmd_ok t"
  using cmdlin_leaves [OF assms(1), of env] assms(2) by simp

definition cmd0 :: "byte list list \<Rightarrow> kcmd" where
  "cmd0 w = kses.extend (ses0 []) \<lparr>cv = w, xargv = 0, xargc = int (length w), action = 0, quiet = False, nomodes = False,
     xonxoff = False, noxonxoff = False, debug = False, log_ok = True\<rparr>"

theorem cmdline_parameters_witness:
  "\<exists>t. cmdlin None (cmd0 [[103], [45, 114, 105], [45, 101], [53, 48, 48]]) = Ret () t \<and> cmd_ok t \<and> urpsiz t = 500 \<and> rpsiz t = 94"
proof -
  let ?s = "cmd0 [[103], [45, 114, 105], [45, 101], [53, 48, 48]]"
  have ok: "cmd_ok ?s" by (simp add: cmd_ok_def ses_ok_def par_ok_def pfx_char_def cmd0_def kses.defs ses0_defs word_le_nat_alt)
  have a: "atoi [53, 48, 48] = 500" by code_simp
  obtain t where "cmdlin None ?s = Ret () t" "urpsiz t = 500" "rpsiz t = 94"
    by (simp add: cmdlin_def cmd_loop.simps cmd0_def kses.defs aget_def first_char_def doarg_letter_def opt_action_def
        opt_value_def with_word_def Let_def a ses0_defs)
  with cmdline_parameters [OF ok] show ?thesis by blast
qed

text \<open>
  C22: with no GKERMIT variable, no command line at all makes the option parser read past
  the end of the argument vector or loop; it returns or exits.
\<close>

theorem cmdline_safe:
  "(\<exists>t. cmdlin None (s\<lparr>xargv := 0, xargc := int (length (cv s))\<rparr>) = Ret () t) \<or>
   (\<exists>n t. cmdlin None (s\<lparr>xargv := 0, xargc := int (length (cv s))\<rparr>) = Exit n t)"
proof -
  have "leaves False (\<lambda>t. True) (cmdlin None (s\<lparr>xargv := 0, xargc := int (length (cv s))\<rparr>))"
    using cmd_loop_leaves [of False "s\<lparr>xargv := 0, xargc := int (length (cv s)), cmarg := [], cmlist := [], action := 0\<rparr>" False]
    by (simp add: cmdlin_def)
  then show ?thesis by (cases "cmdlin None (s\<lparr>xargv := 0, xargc := int (length (cv s))\<rparr>)") (auto simp: leaves_def)
qed

text \<open>The letters of the options that take no value and start nothing: \<open>i T w P q K S X x\<close>.\<close>

definition flag :: "byte \<Rightarrow> bool" where
  "flag x \<longleftrightarrow> x \<in> {105, 84, 119, 80, 113, 75, 83, 88, 120}"

definition at_word :: "byte list list \<Rightarrow> nat \<Rightarrow> 'a kcmd_scheme \<Rightarrow> bool" where
  "at_word g k s \<longleftrightarrow> cv s = g \<and> xargv s = int k \<and> xargc s = int (length g) - int k \<and> action s = 0"

lemma doarg_flags:
  assumes "list_all flag fs"
  shows "\<exists>t. doarg (fs @ r) s = doarg r t \<and> cv t = cv s \<and> xargv t = xargv s \<and> xargc t = xargc s \<and> action t = action s"
  using assms
proof (induction fs arbitrary: s)
  case (Cons x fs)
  have "\<exists>t. doarg_letter x (fs @ r) s = Ret (fs @ r) t \<and> cv t = cv s \<and> xargv t = xargv s \<and> xargc t = xargc s \<and> action t = action s"
    using Cons.prems by (auto simp: doarg_letter_def flag_def)
  then show ?case using Cons.IH Cons.prems by fastforce
qed auto

lemma env_loop_word:
  assumes "at_word g k s" "k < length g" "g ! k = 45 # w"
  shows "env_loop s = kbind (doarg w (s\<lparr>xargc := xargc s - 1\<rparr>)) (\<lambda>_ s. env_loop (s\<lparr>xargv := xargv s + 1\<rparr>))"
  using assms by (subst env_loop.simps) (simp add: at_word_def aget_def first_char_def Let_def)

lemma env_loop_flags:
  assumes "at_word g k s" "drop k g = ws @ rest" "\<forall>w \<in> set ws. \<exists>fs. w = 45 # fs \<and> list_all flag fs"
  shows "\<exists>t. env_loop s = env_loop t \<and> at_word g (k + length ws) t"
  using assms
proof (induction ws arbitrary: k s)
  case (Cons w ws)
  obtain fs where fs: "w = 45 # fs" "list_all flag fs" using Cons.prems(3) by auto
  have k: "k < length g"
  proof (rule ccontr)
    assume "\<not> k < length g"
    then show False using Cons.prems(2) by simp
  qed
  then have "drop k g = g ! k # drop (Suc k) g" by (simp add: Cons_nth_drop_Suc)
  then have k: "k < length g" "g ! k = 45 # fs" "drop (Suc k) g = ws @ rest" using k Cons.prems(2) fs(1) by simp_all
  obtain t where t: "doarg fs (s\<lparr>xargc := xargc s - 1\<rparr>) = Ret () t" "cv t = cv s" "xargv t = xargv s" "xargc t = xargc s - 1" "action t = action s"
    using doarg_flags [OF fs(2), of "[]" "s\<lparr>xargc := xargc s - 1\<rparr>"] by auto
  have "env_loop s = env_loop (t\<lparr>xargv := xargv t + 1\<rparr>)"
    using env_loop_word [OF Cons.prems(1) k(1,2)] t(1) by simp
  moreover have "at_word g (Suc k) (t\<lparr>xargv := xargv t + 1\<rparr>)"
    using t Cons.prems(1) k(1) by (simp add: at_word_def)
  ultimately show ?case using Cons.IH [of "Suc k" "t\<lparr>xargv := xargv t + 1\<rparr>"] k(3) Cons.prems(3) by simp
qed auto

lemmas option_defs = aget_def first_char_def doarg_letter_def opt_action_def opt_value_def with_word_def fatal_opt_def

text \<open>
  C37: an option with a value at the end of the variable GKERMIT, behind any options without one, is
  never accepted: the loop over the variable has already counted the next word as consumed. With its value
  behind it, every run exits with status 1; without one, a final \<open>-a\<close> or \<open>-g\<close> reads through the null
  pointer behind the words. The setting \<open>GKERMIT="-K -S -q -p s"\<close> that the manual gives as its example is
  of this form.
\<close>

theorem env_option_rejected:
  assumes "env_words 32 (take 255 (cstr p)) = ws @ (45 # fs @ [x]) # vs" "length vs \<le> 1"
    and "\<forall>w \<in> set ws. \<exists>fs. w = 45 # fs \<and> list_all flag fs" "list_all flag fs" "x \<in> {112, 97, 101, 98, 103}"
  shows "if vs = [] \<and> x \<in> {97, 103} then cmdlin (Some p) s = Wild else \<exists>t. cmdlin (Some p) s = Exit 1 t"
proof -
  define g where "g = env_words 32 (take 255 (cstr p))"
  define s0 where "s0 = s\<lparr>cmarg := [], cmlist := [], action := 0, cv := g, xargv := 0, xargc := int (length g)\<rparr>"
  let ?k = "length ws"
  have g: "?k < length g" "g ! ?k = 45 # fs @ [x]" "length g = Suc (?k + length vs)" using assms(1) by (simp_all add: g_def)
  have "at_word g 0 s0" by (simp add: at_word_def s0_def)
  from env_loop_flags [OF this, of ws "(45 # fs @ [x]) # vs"] assms(1,3) obtain t where
    t: "env_loop s0 = env_loop t" "at_word g ?k t" by (auto simp: g_def)
  obtain u where u: "doarg (fs @ [x]) (t\<lparr>xargc := xargc t - 1\<rparr>) = doarg [x] u" "cv u = g" "xargv u = int ?k"
    "xargc u = int (length vs)" "action u = 0"
    using doarg_flags [OF assms(4), of "[x]" "t\<lparr>xargc := xargc t - 1\<rparr>"] t(2) g(3) by (auto simp: at_word_def)
  have "if vs = [] \<and> x \<in> {97, 103} then doarg [x] u = Wild else \<exists>t. doarg [x] u = Exit 1 t"
    using u(2-5) g(3) assms(2,5) by (cases vs) (auto simp: option_defs Let_def)
  then have "if vs = [] \<and> x \<in> {97, 103} then env_loop s0 = Wild else \<exists>t. env_loop s0 = Exit 1 t"
    using env_loop_word [OF t(2) g(1,2)] t(1) u(1) by (auto split: if_splits)
  then show ?thesis by (auto simp: cmdlin_def Let_def s0_def g_def [symmetric] split: if_splits)
qed

theorem env_option_rejected_witness: "\<exists>t. cmdlin (Some (cbytes ''-K -S -q -p s'')) (cmd0 []) = Exit 1 t"
proof -
  have w: "env_words 32 (take 255 (cstr (cbytes ''-K -S -q -p s''))) = [[45, 75], [45, 83], [45, 113]] @ (45 # [] @ [112]) # [[115]]"
    by code_simp
  show ?thesis using env_option_rejected [OF w, of "cmd0 []"] by (simp add: flag_def)
qed

end
