(* ===== verification/Timers.thy ===== *)
theory Timers
  imports Prelude "HOL-Library.Product_Lexorder"
begin

text \<open>
  The timers of selector.c in ser2net: a binary heap of linked nodes, filled row by row, ordered by the time
  at which a timer goes off.

  The nodes live in a store from addresses to timers; a null pointer is \<open>None\<close>. The functions have the
  result \<open>None\<close> when they go through a null pointer or do not return. The positions of a heap are numbered
  row by row from 1, so that the children of \<open>k\<close> are \<open>2 * k\<close> and \<open>2 * k + 1\<close>; the heap represents the list of its
  nodes in this order.
\<close>

section \<open>Definitions\<close>

type_synonym timeval = "int \<times> int"

text \<open>\<open>tm_handler\<close> stands for the function to call and its data.\<close>

record 'h timer =
  tm_handler :: 'h
  tm_timeout :: timeval
  in_heap :: bool
  t_left :: "nat option"
  t_right :: "nat option"
  t_up :: "nat option"

record 'h timers =
  tnode :: "nat \<Rightarrow> 'h timer"
  timer_top :: "nat option"
  timer_last :: "nat option"

definition cmp_timeval :: "timeval \<Rightarrow> timeval \<Rightarrow> int" where
  "cmp_timeval tv1 tv2 =
     (if fst tv1 < fst tv2 then -1
      else if fst tv1 > fst tv2 then 1
      else if snd tv1 < snd tv2 then -1
      else if snd tv1 > snd tv2 then 1
      else 0)"

text \<open>\<open>while (dest->tv_usec < 0)\<close>\<close>

function borrow :: "timeval \<Rightarrow> timeval" where
  "borrow tv = (if snd tv < 0 then borrow (fst tv - 1, snd tv + 1000000) else tv)"
  by pat_completeness auto
termination
  by (relation "measure (\<lambda>tv. nat (- snd tv))") auto

declare borrow.simps [simp del]

definition diff_timeval :: "timeval \<Rightarrow> timeval \<Rightarrow> timeval" where
  "diff_timeval left right =
     (if fst left < fst right \<or> fst left = fst right \<and> snd left < snd right then (0, 0)
      else borrow (fst left - fst right, snd left - snd right))"

text \<open>Assignments to the fields of a node; \<open>set_up_if\<close> is \<open>if (q) q->up = v\<close>.\<close>

definition t_upd :: "nat \<Rightarrow> ('h timer \<Rightarrow> 'h timer) \<Rightarrow> 'h timers \<Rightarrow> 'h timers" where
  "t_upd p f s = s\<lparr>tnode := (tnode s)(p := f (tnode s p))\<rparr>"

definition set_left :: "nat \<Rightarrow> nat option \<Rightarrow> 'h timers \<Rightarrow> 'h timers" where
  "set_left p v = t_upd p (\<lambda>n. n\<lparr>t_left := v\<rparr>)"

definition set_right :: "nat \<Rightarrow> nat option \<Rightarrow> 'h timers \<Rightarrow> 'h timers" where
  "set_right p v = t_upd p (\<lambda>n. n\<lparr>t_right := v\<rparr>)"

definition set_up :: "nat \<Rightarrow> nat option \<Rightarrow> 'h timers \<Rightarrow> 'h timers" where
  "set_up p v = t_upd p (\<lambda>n. n\<lparr>t_up := v\<rparr>)"

definition set_up_if :: "nat option \<Rightarrow> nat option \<Rightarrow> 'h timers \<Rightarrow> 'h timers" where
  "set_up_if q v s = (case q of None \<Rightarrow> s | Some p \<Rightarrow> set_up p v s)"

abbreviation lf :: "'h timers \<Rightarrow> nat \<Rightarrow> nat option" where "lf s p \<equiv> t_left (tnode s p)"
abbreviation rt :: "'h timers \<Rightarrow> nat \<Rightarrow> nat option" where "rt s p \<equiv> t_right (tnode s p)"
abbreviation ab :: "'h timers \<Rightarrow> nat \<Rightarrow> nat option" where "ab s p \<equiv> t_up (tnode s p)"
abbreviation tv :: "'h timers \<Rightarrow> nat \<Rightarrow> timeval" where "tv s p \<equiv> tm_timeout (tnode s p)"

text \<open>\<open>if (p->up->left == p) p->up->left = q; else p->up->right = q\<close>, and \<open>*top = q\<close> at the root.\<close>

definition relink :: "nat \<Rightarrow> nat \<Rightarrow> 'h timers \<Rightarrow> 'h timers" where
  "relink p q s =
     (case ab s p of
        Some g \<Rightarrow> if lf s g = Some p then set_left g (Some q) s else set_right g (Some q) s
      | None \<Rightarrow> s\<lparr>timer_top := Some q\<rparr>)"

text \<open>\<open>while (curr->up && (curr->up->right == curr))\<close> and its mirror image; the node reached and \<open>upcount\<close>.\<close>

partial_function (option) climb_right :: "'h timers \<Rightarrow> nat \<Rightarrow> nat \<Rightarrow> (nat \<times> nat) option" where
  "climb_right s cur upcount =
     (case ab s cur of
        None \<Rightarrow> Some (cur, upcount)
      | Some u \<Rightarrow> if rt s u = Some cur then climb_right s u (Suc upcount) else Some (cur, upcount))"

partial_function (option) climb_left :: "'h timers \<Rightarrow> nat \<Rightarrow> nat \<Rightarrow> (nat \<times> nat) option" where
  "climb_left s cur upcount =
     (case ab s cur of
        None \<Rightarrow> Some (cur, upcount)
      | Some u \<Rightarrow> if lf s u = Some cur then climb_left s u (Suc upcount) else Some (cur, upcount))"

text \<open>\<open>while (upcount) { curr = curr->left; upcount--; }\<close>\<close>

fun down_left :: "'h timers \<Rightarrow> nat \<Rightarrow> nat \<Rightarrow> nat option" where
  "down_left s cur 0 = Some cur"
| "down_left s cur (Suc n) = (case lf s cur of None \<Rightarrow> None | Some c \<Rightarrow> down_left s c n)"

fun down_right :: "'h timers \<Rightarrow> nat \<Rightarrow> nat \<Rightarrow> nat option" where
  "down_right s cur 0 = Some cur"
| "down_right s cur (Suc n) = (case rt s cur of None \<Rightarrow> None | Some c \<Rightarrow> down_right s c n)"

text \<open>\<open>upcount--\<close> on an \<open>unsigned int\<close>\<close>

definition udec :: "nat \<Rightarrow> nat" where
  "udec n = (if n = 0 then 2 ^ 32 - 1 else n - 1)"

text \<open>The node that gets the next child, and whether this is its right one.\<close>

definition find_next_up :: "nat \<Rightarrow> 'h timers \<Rightarrow> (nat \<times> bool) option" where
  "find_next_up cur s =
     (case climb_right s cur 0 of
        None \<Rightarrow> None
      | Some (cur, upcount) \<Rightarrow>
          map_option (\<lambda>c. (c, False))
            (case ab s cur of
               None \<Rightarrow> down_left s cur upcount
             | Some u \<Rightarrow> (case rt s u of None \<Rightarrow> None | Some c \<Rightarrow> down_left s c (udec upcount))))"

definition find_next_pos :: "nat \<Rightarrow> 'h timers \<Rightarrow> (nat \<times> bool) option" where
  "find_next_pos cur s =
     (case ab s cur of
        None \<Rightarrow> find_next_up cur s
      | Some u \<Rightarrow> if lf s u = Some cur then Some (u, True) else find_next_up cur s)"

text \<open>The inner result is \<open>*prev\<close>, which may be null.\<close>

definition find_prev_up :: "nat \<Rightarrow> 'h timers \<Rightarrow> nat option option" where
  "find_prev_up cur s =
     (case climb_left s cur 0 of
        None \<Rightarrow> None
      | Some (cur, upcount) \<Rightarrow>
          map_option Some
            (case ab s cur of
               None \<Rightarrow> down_right s cur (udec upcount)
             | Some u \<Rightarrow> (case lf s u of None \<Rightarrow> None | Some c \<Rightarrow> down_right s c upcount)))"

definition find_prev_elem :: "nat \<Rightarrow> 'h timers \<Rightarrow> nat option option" where
  "find_prev_elem cur s =
     (case ab s cur of
        None \<Rightarrow> find_prev_up cur s
      | Some u \<Rightarrow> if rt s u = Some cur then Some (lf s u) else find_prev_up cur s)"

text \<open>One turn of the loop of \<open>send_up\<close>: \<open>elem\<close> and its parent change places.\<close>

definition swap_up :: "nat \<Rightarrow> nat \<Rightarrow> 'h timers \<Rightarrow> 'h timers" where
  "swap_up elem parent s =
     (let tmp1 = lf s elem;
          tmp2 = rt s elem;
          s = (if lf s parent = Some elem then
                 (let s = set_right elem (rt s parent) (set_left elem (Some parent) s) in set_up_if (rt s elem) (Some elem) s)
               else
                 (let s = set_left elem (lf s parent) (set_right elem (Some parent) s) in set_up_if (lf s elem) (Some elem) s));
          s = set_up elem (ab s parent) s;
          s = relink parent elem s;
          s = set_left parent tmp1 (set_up parent (Some elem) s);
          s = set_up_if (lf s parent) (Some parent) s;
          s = set_right parent tmp2 s;
          s = set_up_if (rt s parent) (Some parent) s
      in if timer_last s = Some elem then s\<lparr>timer_last := Some parent\<rparr> else s)"

partial_function (option) send_up :: "nat \<Rightarrow> 'h timers \<Rightarrow> 'h timers option" where
  "send_up elem s =
     (case ab s elem of
        None \<Rightarrow> Some s
      | Some parent \<Rightarrow>
          if cmp_timeval (tv s elem) (tv s parent) < 0 then send_up elem (swap_up elem parent s) else Some s)"

text \<open>One turn of the loop of \<open>send_down\<close>: \<open>elem\<close> changes places with its right or with its left child.\<close>

definition swap_right :: "nat \<Rightarrow> nat \<Rightarrow> 'h timers \<Rightarrow> 'h timers" where
  "swap_right elem right s =
     (let tmp1 = lf s right;
          tmp2 = rt s right;
          s = relink elem right s;
          s = set_up elem (Some right) (set_up right (ab s elem) s);
          s = set_right right (Some elem) (set_left right (lf s elem) s);
          s = set_right elem tmp2 (set_left elem tmp1 s);
          s = set_up_if (lf s right) (Some right) s;
          s = set_up_if (lf s elem) (Some elem) s;
          s = set_up_if (rt s elem) (Some elem) s
      in if timer_last s = Some right then s\<lparr>timer_last := Some elem\<rparr> else s)"

definition swap_left :: "nat \<Rightarrow> nat \<Rightarrow> 'h timers \<Rightarrow> 'h timers" where
  "swap_left elem left s =
     (let tmp1 = lf s left;
          tmp2 = rt s left;
          s = relink elem left s;
          s = set_up elem (Some left) (set_up left (ab s elem) s);
          s = set_right left (rt s elem) (set_left left (Some elem) s);
          s = set_right elem tmp2 (set_left elem tmp1 s);
          s = set_up_if (rt s left) (Some left) s;
          s = set_up_if (lf s elem) (Some elem) s;
          s = set_up_if (rt s elem) (Some elem) s
      in if timer_last s = Some left then s\<lparr>timer_last := Some elem\<rparr> else s)"

partial_function (option) send_down :: "nat \<Rightarrow> 'h timers \<Rightarrow> 'h timers option" where
  "send_down elem s =
     (case lf s elem of
        None \<Rightarrow> Some s
      | Some left \<Rightarrow>
          (case (case rt s elem of Some right \<Rightarrow> if cmp_timeval (tv s left) (tv s right) > 0 then Some right else None | None \<Rightarrow> None) of
             Some right \<Rightarrow>
               if cmp_timeval (tv s elem) (tv s right) > 0 then send_down elem (swap_right elem right s) else Some s
           | None \<Rightarrow>
               if cmp_timeval (tv s elem) (tv s left) > 0 then send_down elem (swap_left elem left s) else Some s))"

definition add_to_heap :: "nat \<Rightarrow> 'h timers \<Rightarrow> 'h timers option" where
  "add_to_heap elem s =
     (let s = set_up elem None (set_right elem None (set_left elem None s))
      in case timer_top s of
           None \<Rightarrow> Some (s\<lparr>timer_top := Some elem, timer_last := Some elem\<rparr>)
         | Some _ \<Rightarrow>
             (case timer_last s of
                None \<Rightarrow> None
              | Some l \<Rightarrow>
                  (case find_next_pos l s of
                     None \<Rightarrow> None
                   | Some (parent, is_right) \<Rightarrow>
                       (let s = (if is_right then set_right parent (Some elem) s else set_left parent (Some elem) s);
                            s = (set_up elem (Some parent) s)\<lparr>timer_last := Some elem\<rparr>
                        in if cmp_timeval (tv s elem) (tv s parent) < 0 then send_up elem s else Some s))))"

text \<open>\<open>remove_from_heap\<close>: the last node, taken off its parent, takes the place of the one to remove.\<close>

definition unlink_last :: "nat \<Rightarrow> nat \<Rightarrow> 'h timers \<Rightarrow> 'h timers" where
  "unlink_last to_insert u s = (if lf s u = Some to_insert then set_left u None s else set_right u None s)"

definition take_place :: "nat \<Rightarrow> nat \<Rightarrow> 'h timers \<Rightarrow> 'h timers" where
  "take_place elem to_insert s =
     (let s = relink elem to_insert s;
          s = set_up to_insert (ab s elem) s;
          s = set_up_if (lf s elem) (Some to_insert) s;
          s = set_up_if (rt s elem) (Some to_insert) s;
          s = set_right to_insert (rt s elem) (set_left to_insert (lf s elem) s)
      in if timer_last s = Some elem then s\<lparr>timer_last := Some to_insert\<rparr> else s)"

definition settle :: "nat \<Rightarrow> 'h timers \<Rightarrow> 'h timers option" where
  "settle elem s =
     (case ab s elem of
        Some u \<Rightarrow> if cmp_timeval (tv s elem) (tv s u) < 0 then send_up elem s else send_down elem s
      | None \<Rightarrow> send_down elem s)"

definition remove_from_heap :: "nat \<Rightarrow> 'h timers \<Rightarrow> 'h timers option" where
  "remove_from_heap elem s =
     (case timer_last s of
        None \<Rightarrow> None
      | Some to_insert \<Rightarrow>
          (case ab s to_insert of
             None \<Rightarrow> Some (s\<lparr>timer_top := None, timer_last := None\<rparr>)
           | Some u \<Rightarrow>
               (case find_prev_elem to_insert s of
                  None \<Rightarrow> None
                | Some prev \<Rightarrow>
                    (let s = unlink_last to_insert u (s\<lparr>timer_last := prev\<rparr>)
                     in if elem = to_insert then Some s else settle to_insert (take_place elem to_insert s)))))"

text \<open>
  The operations of the interface. \<open>sel_alloc_timer\<close> gets the answer of \<open>malloc\<close>; stopping a timer that
  does not run is told apart by the answer \<open>ETIMEDOUT\<close>.
\<close>

abbreviation ENOMEM :: int where "ENOMEM \<equiv> 12"
abbreviation ETIMEDOUT :: int where "ETIMEDOUT \<equiv> 110"

definition set_in_heap :: "nat \<Rightarrow> bool \<Rightarrow> 'h timers \<Rightarrow> 'h timers" where
  "set_in_heap t b = t_upd t (\<lambda>n. n\<lparr>in_heap := b\<rparr>)"

definition sel_alloc_timer :: "'h \<Rightarrow> nat option \<Rightarrow> 'h timers \<Rightarrow> int \<times> 'h timers" where
  "sel_alloc_timer h a s =
     (case a of None \<Rightarrow> (ENOMEM, s) | Some t \<Rightarrow> (0, t_upd t (\<lambda>n. n\<lparr>tm_handler := h, in_heap := False\<rparr>) s))"

definition sel_start_timer :: "nat \<Rightarrow> timeval \<Rightarrow> 'h timers \<Rightarrow> 'h timers option" where
  "sel_start_timer t timeout s =
     (case (if in_heap (tnode s t) then remove_from_heap t s else Some s) of
        None \<Rightarrow> None
      | Some s \<Rightarrow> map_option (set_in_heap t True) (add_to_heap t (t_upd t (\<lambda>n. n\<lparr>tm_timeout := timeout\<rparr>) s)))"

definition sel_stop_timer :: "nat \<Rightarrow> 'h timers \<Rightarrow> (int \<times> 'h timers) option" where
  "sel_stop_timer t s =
     (if \<not> in_heap (tnode s t) then Some (ETIMEDOUT, s)
      else map_option (\<lambda>s. (0, set_in_heap t False s)) (remove_from_heap t s))"

definition sel_free_timer :: "nat \<Rightarrow> 'h timers \<Rightarrow> 'h timers option" where
  "sel_free_timer t s = (if in_heap (tnode s t) then map_option snd (sel_stop_timer t s) else Some s)"

text \<open>
  The part of \<open>sel_select_loop\<close> before \<open>select\<close>: the timers that are due, and how long to wait for the next one.
  \<open>run\<close> is what the handler of a timer does at a time, and the clock is the list of the answers of
  \<open>gettimeofday\<close>; \<open>None\<close> also when the list ends before the loop. The result has the timers that went off, the
  waiting time, if there is one, and the new state.
\<close>

fun due_timers :: "('h \<Rightarrow> nat \<Rightarrow> timeval \<Rightarrow> 'h timers \<Rightarrow> 'h timers option) \<Rightarrow> timeval list \<Rightarrow> 'h timers \<Rightarrow>
    ((timeval \<times> nat) list \<times> timeval option \<times> 'h timers) option" where
  "due_timers run [] s = (case timer_top s of None \<Rightarrow> Some ([], None, s) | Some _ \<Rightarrow> None)"
| "due_timers run (now # clock) s =
     (case timer_top s of
        None \<Rightarrow> Some ([], None, s)
      | Some t \<Rightarrow>
          if cmp_timeval now (tv s t) \<ge> 0 then
            (case remove_from_heap t s of
               None \<Rightarrow> None
             | Some s \<Rightarrow>
                 (case run (tm_handler (tnode s t)) t now (set_in_heap t False s) of
                    None \<Rightarrow> None
                  | Some s \<Rightarrow> map_option (\<lambda>(ts, w, s). ((now, t) # ts, w, s)) (due_timers run clock s)))
          else Some ([], Some (diff_timeval (tv s t) now), s))"

section \<open>The heap as a list\<close>

definition pos :: "nat list \<Rightarrow> nat \<Rightarrow> nat option" where
  "pos xs k = (if 1 \<le> k \<and> k \<le> length xs then Some (xs ! (k - 1)) else None)"

definition rep :: "nat list \<Rightarrow> 'h timers \<Rightarrow> bool" where
  "rep xs s \<longleftrightarrow> distinct xs \<and> timer_top s = pos xs 1 \<and> timer_last s = pos xs (length xs) \<and>
     (\<forall>k x. pos xs k = Some x \<longrightarrow> lf s x = pos xs (2 * k) \<and> rt s x = pos xs (2 * k + 1) \<and> ab s x = pos xs (k div 2))"

lemma pos_0 [simp]: "pos xs 0 = None" "pos [] k = None"
  by (simp_all add: pos_def)

lemma pos_inj: "distinct xs \<Longrightarrow> pos xs i = Some x \<Longrightarrow> pos xs j = Some x \<longleftrightarrow> i = j"
  by (auto simp: pos_def nth_eq_iff_index_eq split: if_splits)

lemma pos_range: "pos xs k = Some x \<Longrightarrow> 1 \<le> k \<and> k \<le> length xs \<and> x \<in> set xs"
  by (auto simp: pos_def split: if_splits)

lemma pos_set: "x \<in> set xs \<longleftrightarrow> (\<exists>k. pos xs k = Some x)"
proof
  assume "x \<in> set xs"
  then obtain i where "i < length xs" "xs ! i = x" by (auto simp: in_set_conv_nth)
  then have "pos xs (Suc i) = Some x" by (simp add: pos_def)
  then show "\<exists>k. pos xs k = Some x" ..
qed (auto dest: pos_range)

lemma pos_Some: "1 \<le> k \<Longrightarrow> k \<le> length xs \<Longrightarrow> \<exists>x. pos xs k = Some x"
  by (simp add: pos_def)

lemma pos_upd: "1 \<le> j \<Longrightarrow> j \<le> length xs \<Longrightarrow> pos (xs[j - 1 := e]) k = (if k = j then Some e else pos xs k)"
  by (auto simp: pos_def nth_list_update)

lemma pos_append: "pos (xs @ [e]) k = (if k = Suc (length xs) then Some e else pos xs k)"
  by (auto simp: pos_def nth_append)

lemma pos_butlast: "pos (butlast xs) k = (if k = length xs then None else pos xs k)"
  by (auto simp: pos_def nth_butlast)

lemmas timer_upd_defs = set_left_def set_right_def set_up_def set_in_heap_def t_upd_def

lemma set_fields [simp]:
  "lf (set_left p v s) x = (if x = p then v else lf s x)" "lf (set_right p v s) x = lf s x" "lf (set_up p v s) x = lf s x"
  "rt (set_left p v s) x = rt s x" "rt (set_right p v s) x = (if x = p then v else rt s x)" "rt (set_up p v s) x = rt s x"
  "ab (set_left p v s) x = ab s x" "ab (set_right p v s) x = ab s x" "ab (set_up p v s) x = (if x = p then v else ab s x)"
  by (simp_all add: timer_upd_defs)

lemma set_ends [simp]:
  "timer_top (set_left p v s) = timer_top s" "timer_top (set_right p v s) = timer_top s" "timer_top (set_up p v s) = timer_top s"
  "timer_last (set_left p v s) = timer_last s" "timer_last (set_right p v s) = timer_last s" "timer_last (set_up p v s) = timer_last s"
  by (simp_all add: timer_upd_defs)

text \<open>What does not concern the links: time, handler and state of a timer.\<close>

definition payload :: "'h timers \<Rightarrow> nat \<Rightarrow> 'h \<times> timeval \<times> bool" where
  "payload s x = (tm_handler (tnode s x), tv s x, in_heap (tnode s x))"

lemma payload_set [simp]:
  "payload (set_left p v s) = payload s" "payload (set_right p v s) = payload s" "payload (set_up p v s) = payload s"
  "payload (s\<lparr>timer_top := a\<rparr>) = payload s" "payload (s\<lparr>timer_last := a\<rparr>) = payload s"
  by (auto simp: payload_def timer_upd_defs)

lemma payload_tv: "payload s = payload s' \<Longrightarrow> tv s x = tv s' x"
  by (metis payload_def fst_conv snd_conv)

lemma set_up_if_fields [simp]:
  "lf (set_up_if q v s) x = lf s x" "rt (set_up_if q v s) x = rt s x"
  "ab (set_up_if q v s) x = (if q = Some x then v else ab s x)"
  "timer_top (set_up_if q v s) = timer_top s" "timer_last (set_up_if q v s) = timer_last s" "payload (set_up_if q v s) = payload s"
  by (auto simp: set_up_if_def split: option.split)

lemma relink_fields:
  "lf (relink p q s) x = (if ab s p = Some x \<and> lf s x = Some p then Some q else lf s x)"
  "rt (relink p q s) x = (if ab s p = Some x \<and> lf s x \<noteq> Some p then Some q else rt s x)"
  "ab (relink p q s) x = ab s x" "timer_last (relink p q s) = timer_last s"
  "timer_top (relink p q s) = (if ab s p = None then Some q else timer_top s)" "payload (relink p q s) = payload s"
  by (auto simp: relink_def split: option.split)

text \<open>The links of a heap fit together.\<close>

lemma rep_links:
  assumes "rep xs s" "x \<in> set xs"
  shows "lf s x = Some y \<Longrightarrow> y \<in> set xs \<and> ab s y = Some x \<and> y \<noteq> x \<and> rt s x \<noteq> Some y \<and> ab s x \<noteq> Some y"
    and "rt s x = Some y \<Longrightarrow> y \<in> set xs \<and> ab s y = Some x \<and> y \<noteq> x \<and> lf s x \<noteq> Some y \<and> ab s x \<noteq> Some y"
    and "ab s x = Some y \<Longrightarrow> y \<in> set xs \<and> (lf s y = Some x \<or> rt s y = Some x) \<and> y \<noteq> x \<and> lf s x \<noteq> Some y \<and> rt s x \<noteq> Some y"
proof -
  obtain k where k: "pos xs k = Some x" using assms(2) pos_set by blast
  have f: "lf s x = pos xs (2 * k)" "rt s x = pos xs (2 * k + 1)" "ab s x = pos xs (k div 2)" and d: "distinct xs" and k1: "1 \<le> k"
    using assms(1) k pos_range [OF k] by (auto simp: rep_def)
  have r: "lf s y = pos xs (2 * i)" "rt s y = pos xs (2 * i + 1)" "ab s y = pos xs (i div 2)" if "pos xs i = Some y" for i
    using assms(1) that by (auto simp: rep_def)
  have inj: "i = j" if "pos xs i = Some z" "pos xs j = Some z" for i j z
    using that pos_inj [OF d] by blast
  show "y \<in> set xs \<and> ab s y = Some x \<and> y \<noteq> x \<and> rt s x \<noteq> Some y \<and> ab s x \<noteq> Some y" if "lf s x = Some y"
  proof -
    have p: "pos xs (2 * k) = Some y" using that f(1) by simp
    then have "ab s y = Some x" using r(3) [OF p] k by simp
    moreover have "y \<noteq> x" using inj [OF p, of k] k k1 by auto
    moreover have "rt s x \<noteq> Some y" using inj [OF p, of "2 * k + 1"] f(2) by auto
    moreover have "ab s x \<noteq> Some y" using inj [OF p, of "k div 2"] f(3) k1 by auto
    ultimately show ?thesis using pos_range [OF p] by blast
  qed
  show "y \<in> set xs \<and> ab s y = Some x \<and> y \<noteq> x \<and> lf s x \<noteq> Some y \<and> ab s x \<noteq> Some y" if "rt s x = Some y"
  proof -
    have p: "pos xs (2 * k + 1) = Some y" using that f(2) by simp
    then have "ab s y = Some x" using r(3) [OF p] k by simp
    moreover have "y \<noteq> x" using inj [OF p, of k] k by auto
    moreover have "lf s x \<noteq> Some y" using inj [OF p, of "2 * k"] f(1) by auto
    moreover have "ab s x \<noteq> Some y" using inj [OF p, of "k div 2"] f(3) by auto
    ultimately show ?thesis using pos_range [OF p] by blast
  qed
  show "y \<in> set xs \<and> (lf s y = Some x \<or> rt s y = Some x) \<and> y \<noteq> x \<and> lf s x \<noteq> Some y \<and> rt s x \<noteq> Some y" if "ab s x = Some y"
  proof -
    have p: "pos xs (k div 2) = Some y" using that f(3) by simp
    have "2 * (k div 2) = k \<or> 2 * (k div 2) + 1 = k" by presburger
    then have "lf s y = Some x \<or> rt s y = Some x" using r(1,2) [OF p] k by metis
    moreover have "y \<noteq> x" using inj [OF p, of k] k k1 by auto
    moreover have "lf s x \<noteq> Some y" using inj [OF p, of "2 * k"] f(1) k1 by auto
    moreover have "rt s x \<noteq> Some y" using inj [OF p, of "2 * k + 1"] f(2) by auto
    ultimately show ?thesis using pos_range [OF p] by blast
  qed
qed

section \<open>A node and its parent change places\<close>

definition swapped :: "nat set \<Rightarrow> nat \<Rightarrow> nat \<Rightarrow> 'h timers \<Rightarrow> 'h timers \<Rightarrow> bool" where
  "swapped S e p s s' \<longleftrightarrow>
     (\<forall>x\<in>S.
        lf s' x = (if x = e then (if lf s p = Some e then Some p else lf s p) else if x = p then lf s e
                   else if lf s x = Some p then Some e else lf s x) \<and>
        rt s' x = (if x = e then (if rt s p = Some e then Some p else rt s p) else if x = p then rt s e
                   else if rt s x = Some p then Some e else rt s x) \<and>
        ab s' x = (if x = e then ab s p else if x = p then Some e else if lf s p = Some x \<or> rt s p = Some x then Some e
                   else if lf s e = Some x \<or> rt s e = Some x then Some p else ab s x)) \<and>
     timer_top s' = (if ab s p = None then Some e else timer_top s) \<and>
     timer_last s' = (if timer_last s = Some e then Some p else timer_last s)"

lemma half_cases: "(i :: nat) div 2 = j \<longleftrightarrow> i = 2 * j \<or> i = 2 * j + 1"
  by presburger

lemma rep_swap:
  assumes r: "rep xs s" and p: "pos xs j = Some p" and e: "pos xs k = Some e" and j: "k div 2 = j" and w: "swapped (set xs) e p s s'"
  shows "rep (xs[j - 1 := e, k - 1 := p]) s'"
proof -
  define ys where "ys = xs[j - 1 := e, k - 1 := p]"
  have d: "distinct xs" using r by (simp add: rep_def)
  have jk: "1 \<le> j" "j \<le> length xs" "1 \<le> k" "k \<le> length xs" "j \<noteq> k" using pos_range [OF p] pos_range [OF e] j by auto
  have P: "pos ys m = (if m = k then Some p else if m = j then Some e else pos xs m)" for m
    using jk pos_upd [of k "xs[j - 1 := e]" p m] pos_upd [of j xs e m] by (simp add: ys_def)
  have E: "pos xs m = Some e \<longleftrightarrow> m = k" "pos xs m = Some p \<longleftrightarrow> m = j" for m
    using pos_inj [OF d e, of m] pos_inj [OF d p, of m] by auto
  have f: "lf s x = pos xs (2 * i)" "rt s x = pos xs (2 * i + 1)" "ab s x = pos xs (i div 2)" if "pos xs i = Some x" for i x
    using r that by (auto simp: rep_def)
  note fp = f [OF p] and fe = f [OF e]
  have k2: "k = 2 * j \<or> k = 2 * j + 1" using j half_cases by blast
  have S: "e \<in> set xs" "p \<in> set xs" "e \<noteq> p" using pos_range [OF p] pos_range [OF e] E jk e by auto
  have we: "lf s' e = (if lf s p = Some e then Some p else lf s p)" "rt s' e = (if rt s p = Some e then Some p else rt s p)" "ab s' e = ab s p"
    and wp: "lf s' p = lf s e" "rt s' p = rt s e" "ab s' p = Some e"
    using w S by (simp_all add: swapped_def)
  have links: "lf s' x = pos ys (2 * i) \<and> rt s' x = pos ys (2 * i + 1) \<and> ab s' x = pos ys (i div 2)" if x: "pos ys i = Some x" for i x
  proof -
    consider (j) "i = j" "x = e" | (k) "i = k" "x = p" | (other) "i \<noteq> j" "i \<noteq> k" "pos xs i = Some x"
      using x P by (metis option.inject)
    then show ?thesis
    proof cases
      case j
      have "lf s' x = pos ys (2 * i)" using we(1) fp(1) E jk k2 j by (auto simp: P)
      moreover have "rt s' x = pos ys (2 * i + 1)" using we(2) fp(2) E jk k2 j by (auto simp: P)
      moreover have "ab s' x = pos ys (i div 2)" using we(3) fp(3) jk k2 j by (auto simp: P)
      ultimately show ?thesis by blast
    next
      case k
      have "lf s' x = pos ys (2 * i)" using wp(1) fe(1) jk k2 k by (auto simp: P)
      moreover have "rt s' x = pos ys (2 * i + 1)" using wp(2) fe(2) jk k2 k by (auto simp: P)
      moreover have "ab s' x = pos ys (i div 2)" using wp(3) jk k2 k by (auto simp: P)
      ultimately show ?thesis by blast
    next
      case other
      note fx = f [OF other(3)]
      have xs: "x \<in> set xs" "x \<noteq> e" "x \<noteq> p" using other pos_range [OF other(3)] E by auto
      have X: "pos xs m = Some x \<longleftrightarrow> m = i" for m using pos_inj [OF d other(3), of m] by auto
      have "lf s' x = (if lf s x = Some p then Some e else lf s x)" "rt s' x = (if rt s x = Some p then Some e else rt s x)"
        "ab s' x = (if lf s p = Some x \<or> rt s p = Some x then Some e else if lf s e = Some x \<or> rt s e = Some x then Some p else ab s x)"
        using w xs by (simp_all add: swapped_def)
      then have "lf s' x = (if 2 * i = j then Some e else pos xs (2 * i))" "rt s' x = (if 2 * i + 1 = j then Some e else pos xs (2 * i + 1))"
        "ab s' x = (if i div 2 = j then Some e else if i div 2 = k then Some p else pos xs (i div 2))"
        using fx fp fe E X half_cases [of i j] half_cases [of i k] by auto
      moreover have "2 * i \<noteq> k" "2 * i + 1 \<noteq> k" using k2 other(1) by auto
      ultimately show ?thesis using jk by (auto simp: P)
    qed
  qed
  have "distinct ys"
  proof -
    have "ys = list_update (xs[j - 1 := xs ! (k - 1)]) (k - 1) (xs ! (j - 1))" using p e by (auto simp: ys_def pos_def split: if_splits)
    then show ?thesis using d jk distinct_swap [of "j - 1" xs "k - 1"] by (simp add: list_update_swap)
  qed
  moreover have "timer_top s' = pos ys 1"
  proof (cases "j = 1")
    case True
    then show ?thesis using w fp(3) k2 by (auto simp: swapped_def P)
  next
    case False
    then have "1 \<le> j div 2" "j div 2 \<le> length xs" using jk by auto
    then have "ab s p \<noteq> None" using pos_Some [of "j div 2" xs] fp(3) by auto
    then have "timer_top s' = timer_top s" using w by (auto simp: swapped_def)
    moreover have "timer_top s = pos xs 1" using r by (simp add: rep_def)
    moreover have "1 \<noteq> k" using j jk(1) by presburger
    ultimately show ?thesis using False P [of 1] by simp
  qed
  moreover have "timer_last s' = pos ys (length ys)"
  proof -
    have l: "length ys = length xs" by (simp add: ys_def)
    have t: "timer_last s = pos xs (length xs)" using r by (simp add: rep_def)
    have "length xs \<noteq> j" using k2 jk by auto
    then show ?thesis using w by (simp add: swapped_def P l t E)
  qed
  ultimately show ?thesis using links unfolding rep_def ys_def by blast
qed

lemma swap_up_swapped:
  assumes r: "rep xs s" and e: "e \<in> set xs" and p: "ab s e = Some p"
  shows "swapped (set xs) e p s (swap_up e p s)" "payload (swap_up e p s) = payload s"
proof -
  note le = rep_links [OF r e]
  have P: "p \<in> set xs" "lf s p = Some e \<or> rt s p = Some e" "p \<noteq> e" "lf s e \<noteq> Some p" "rt s e \<noteq> Some p" using le(3) [OF p] by blast+
  note lp = rep_links [OF r P(1)]
  have n: "lf s p \<noteq> Some p" "rt s p \<noteq> Some p" "ab s p \<noteq> Some p" "ab s p \<noteq> Some e" "lf s p \<noteq> Some e \<or> rt s p \<noteq> Some e"
    using lp(1,2,3) [of p] lp(1,2) [of e] P by blast+
  show "swapped (set xs) e p s (swap_up e p s)"
    unfolding swapped_def
  proof (intro conjI ballI)
    fix x assume x: "x \<in> set xs"
    note lx = rep_links [OF r x]
    have g: "ab s p = Some x \<and> lf s x \<noteq> Some p \<longleftrightarrow> rt s x = Some p" using lp(3) [of x] lx(1,2) [of p] by blast
    have c: "lf s p \<noteq> Some x \<and> rt s p \<noteq> Some x \<or> lf s e \<noteq> Some x \<and> rt s e \<noteq> Some x" "lf s e \<noteq> Some e" "rt s e \<noteq> Some e"
      using lp(1,2) [of x] le(1,2) [of x] le(1,2) [of e] P(3) by (metis option.inject)+
    show "lf (swap_up e p s) x = (if x = e then (if lf s p = Some e then Some p else lf s p) else if x = p then lf s e
                   else if lf s x = Some p then Some e else lf s x)"
      using P lp(1,2) [of e] n lp(3) [of x] lx(1) [of p] by (cases "x = e"; cases "x = p"; auto simp: swap_up_def Let_def relink_fields)
    show "rt (swap_up e p s) x = (if x = e then (if rt s p = Some e then Some p else rt s p) else if x = p then rt s e
                   else if rt s x = Some p then Some e else rt s x)"
      using P n g by (cases "x = e"; cases "x = p") (auto simp: swap_up_def Let_def relink_fields)
    show "ab (swap_up e p s) x = (if x = e then ab s p else if x = p then Some e else if lf s p = Some x \<or> rt s p = Some x then Some e
                   else if lf s e = Some x \<or> rt s e = Some x then Some p else ab s x)"
      using P n c by (cases "x = e"; cases "x = p") (auto simp: swap_up_def Let_def relink_fields)
  qed (use P n in \<open>auto simp: swap_up_def Let_def relink_fields\<close>)
  show "payload (swap_up e p s) = payload s" by (simp add: swap_up_def Let_def relink_fields)
qed

lemma swap_right_swapped:
  assumes r: "rep xs s" and p: "p \<in> set xs" and e: "rt s p = Some e"
  shows "swapped (set xs) e p s (swap_right p e s)" "payload (swap_right p e s) = payload s"
proof -
  note lp = rep_links [OF r p]
  have E: "e \<in> set xs" "ab s e = Some p" "e \<noteq> p" "lf s p \<noteq> Some e" "ab s p \<noteq> Some e" using lp(2) [OF e] by blast+
  note le = rep_links [OF r E(1)]
  have n: "lf s p \<noteq> Some p" "rt s p \<noteq> Some p" "ab s p \<noteq> Some p" "lf s e \<noteq> Some p" "rt s e \<noteq> Some p"
    using lp(1,2,3) [of p] le(1,2) [of p] E by blast+
  show "swapped (set xs) e p s (swap_right p e s)"
    unfolding swapped_def
  proof (intro conjI ballI)
    fix x assume x: "x \<in> set xs"
    note lx = rep_links [OF r x]
    have g: "ab s p = Some x \<and> lf s x \<noteq> Some p \<longleftrightarrow> rt s x = Some p" using lp(3) [of x] lx(1,2) [of p] by blast
    have c: "lf s p \<noteq> Some x \<and> rt s p \<noteq> Some x \<or> lf s e \<noteq> Some x \<and> rt s e \<noteq> Some x" "lf s e \<noteq> Some e" "rt s e \<noteq> Some e"
      using lp(1,2) [of x] le(1,2) [of x] le(1,2) [of e] E(3) by (metis option.inject)+
    show "lf (swap_right p e s) x = (if x = e then (if lf s p = Some e then Some p else lf s p) else if x = p then lf s e
                   else if lf s x = Some p then Some e else lf s x)"
      using E lp(1,2) [of e] n lp(3) [of x] lx(1) [of p] by (cases "x = e"; cases "x = p"; auto simp: swap_right_def Let_def relink_fields)
    show "rt (swap_right p e s) x = (if x = e then (if rt s p = Some e then Some p else rt s p) else if x = p then rt s e
                   else if rt s x = Some p then Some e else rt s x)"
      using E e n g by (cases "x = e"; cases "x = p") (auto simp: swap_right_def Let_def relink_fields)
    show "ab (swap_right p e s) x = (if x = e then ab s p else if x = p then Some e else if lf s p = Some x \<or> rt s p = Some x then Some e
                   else if lf s e = Some x \<or> rt s e = Some x then Some p else ab s x)"
      using E e n c by (cases "x = e"; cases "x = p") (auto simp: swap_right_def Let_def relink_fields)
  qed (simp_all add: swap_right_def Let_def relink_fields)
  show "payload (swap_right p e s) = payload s" by (simp add: swap_right_def Let_def relink_fields)
qed

lemma swap_left_swapped:
  assumes r: "rep xs s" and p: "p \<in> set xs" and e: "lf s p = Some e"
  shows "swapped (set xs) e p s (swap_left p e s)" "payload (swap_left p e s) = payload s"
proof -
  note lp = rep_links [OF r p]
  have E: "e \<in> set xs" "ab s e = Some p" "e \<noteq> p" "rt s p \<noteq> Some e" "ab s p \<noteq> Some e" using lp(1) [OF e] by blast+
  note le = rep_links [OF r E(1)]
  have n: "lf s p \<noteq> Some p" "rt s p \<noteq> Some p" "ab s p \<noteq> Some p" "lf s e \<noteq> Some p" "rt s e \<noteq> Some p"
    using lp(1,2,3) [of p] le(1,2) [of p] E by blast+
  show "swapped (set xs) e p s (swap_left p e s)"
    unfolding swapped_def
  proof (intro conjI ballI)
    fix x assume x: "x \<in> set xs"
    note lx = rep_links [OF r x]
    have g: "ab s p = Some x \<and> lf s x \<noteq> Some p \<longleftrightarrow> rt s x = Some p" using lp(3) [of x] lx(1,2) [of p] by blast
    have c: "lf s p \<noteq> Some x \<and> rt s p \<noteq> Some x \<or> lf s e \<noteq> Some x \<and> rt s e \<noteq> Some x" "lf s e \<noteq> Some e" "rt s e \<noteq> Some e"
      using lp(1,2) [of x] le(1,2) [of x] le(1,2) [of e] E(3) by (metis option.inject)+
    show "lf (swap_left p e s) x = (if x = e then (if lf s p = Some e then Some p else lf s p) else if x = p then lf s e
                   else if lf s x = Some p then Some e else lf s x)"
      using E e lp(1,2) [of e] n lp(3) [of x] lx(1) [of p] by (cases "x = e"; cases "x = p"; auto simp: swap_left_def Let_def relink_fields)
    show "rt (swap_left p e s) x = (if x = e then (if rt s p = Some e then Some p else rt s p) else if x = p then rt s e
                   else if rt s x = Some p then Some e else rt s x)"
      using E e n g by (cases "x = e"; cases "x = p") (auto simp: swap_left_def Let_def relink_fields)
    show "ab (swap_left p e s) x = (if x = e then ab s p else if x = p then Some e else if lf s p = Some x \<or> rt s p = Some x then Some e
                   else if lf s e = Some x \<or> rt s e = Some x then Some p else ab s x)"
      using E e n c by (cases "x = e"; cases "x = p") (auto simp: swap_left_def Let_def relink_fields)
  qed (simp_all add: swap_left_def Let_def relink_fields)
  show "payload (swap_left p e s) = payload s" by (simp add: swap_left_def Let_def relink_fields)
qed

section \<open>The order of the heap\<close>

lemma cmp_less [simp]: "cmp_timeval a b < 0 \<longleftrightarrow> a < b" "0 < cmp_timeval a b \<longleftrightarrow> b < a" "0 \<le> cmp_timeval a b \<longleftrightarrow> b \<le> a"
  by (auto simp: cmp_timeval_def less_prod_def' less_eq_prod_def prod_eq_iff)

text \<open>
  \<open>T\<close> are the times at the positions 1 to \<open>n\<close>. \<open>heap_up\<close> and \<open>heap_down\<close> leave open whether the node at \<open>k\<close> is in order
  with its parent or with its children.
\<close>

definition heap :: "(nat \<Rightarrow> timeval) \<Rightarrow> nat \<Rightarrow> bool" where
  "heap T n \<longleftrightarrow> (\<forall>i. 2 \<le> i \<and> i \<le> n \<longrightarrow> T (i div 2) \<le> T i)"

definition heap_up :: "(nat \<Rightarrow> timeval) \<Rightarrow> nat \<Rightarrow> nat \<Rightarrow> bool" where
  "heap_up T n k \<longleftrightarrow> (\<forall>i. 2 \<le> i \<and> i \<le> n \<and> i \<noteq> k \<longrightarrow> T (i div 2) \<le> T i) \<and>
     (\<forall>i. i \<le> n \<and> i div 2 = k \<and> 2 \<le> k \<longrightarrow> T (k div 2) \<le> T i)"

definition heap_down :: "(nat \<Rightarrow> timeval) \<Rightarrow> nat \<Rightarrow> nat \<Rightarrow> bool" where
  "heap_down T n k \<longleftrightarrow> (\<forall>i. 2 \<le> i \<and> i \<le> n \<and> i div 2 \<noteq> k \<longrightarrow> T (i div 2) \<le> T i) \<and>
     (\<forall>i. i \<le> n \<and> i div 2 = k \<and> 2 \<le> k \<longrightarrow> T (k div 2) \<le> T i)"

lemma heap_up_step:
  assumes h: "heap_up T n k" and k: "2 \<le> k" "k \<le> n" and l: "T k < T (k div 2)"
  shows "heap_up (T(k div 2 := T k, k := T (k div 2))) n (k div 2)"
proof -
  define j where "j = k div 2"
  let ?T = "T(j := T k, k := T j)"
  have jk: "j \<noteq> k" "1 \<le> j" "j < k" using k by (auto simp: j_def)
  have H: "T (i div 2) \<le> T i" if "2 \<le> i" "i \<le> n" "i \<noteq> k" for i using h that by (simp add: heap_up_def)
  have C: "T j \<le> T i" if "i div 2 = k" "i \<le> n" for i using h that k by (simp add: heap_up_def j_def)
  have l': "T k < T j" using l by (simp add: j_def)
  have "?T (i div 2) \<le> ?T i" if i: "2 \<le> i" "i \<le> n" "i \<noteq> j" for i
  proof -
    consider "i = k" | "i \<noteq> k" "i div 2 = k" | "i \<noteq> k" "i div 2 = j" | "i \<noteq> k" "i div 2 \<noteq> k" "i div 2 \<noteq> j" by blast
    then show ?thesis
    proof cases
      case 1
      then show ?thesis using jk l' by (simp add: j_def [symmetric])
    next
      case 2
      then show ?thesis using C i jk by simp
    next
      case 3
      then show ?thesis using H [of i] i jk l' by simp
    next
      case 4
      then show ?thesis using H [of i] i by simp
    qed
  qed
  moreover have "?T (j div 2) \<le> ?T i" if i: "i \<le> n" "i div 2 = j" "2 \<le> j" for i
  proof -
    have "T (j div 2) \<le> T j" using H [of j] jk k i by simp
    moreover have "i = k \<or> T j \<le> T i" using H [of i] i by (cases "i = k") auto
    moreover have "j div 2 \<noteq> j" "j div 2 \<noteq> k" "i \<noteq> j" using i jk by auto
    ultimately show ?thesis by (cases "i = k") auto
  qed
  ultimately show ?thesis unfolding heap_up_def j_def by blast
qed

lemma heap_up_done:
  assumes "heap_up T n k" "k < 2 \<or> T (k div 2) \<le> T k"
  shows "heap T n"
  using assms unfolding heap_up_def heap_def by (metis not_le)

lemma heap_down_step:
  assumes h: "heap_down T n k" and c: "c div 2 = k" "1 \<le> k" "c \<le> n" and l: "T c < T k" and m: "\<And>i. i div 2 = k \<Longrightarrow> i \<le> n \<Longrightarrow> T c \<le> T i"
  shows "heap_down (T(k := T c, c := T k)) n c"
proof -
  let ?T = "T(k := T c, c := T k)"
  have kc: "k < c" using c by auto
  have H: "T (i div 2) \<le> T i" if "2 \<le> i" "i \<le> n" "i div 2 \<noteq> k" for i using h that by (simp add: heap_down_def)
  have C: "T (k div 2) \<le> T i" if "i div 2 = k" "i \<le> n" "2 \<le> k" for i using h that by (simp add: heap_down_def)
  have "?T (i div 2) \<le> ?T i" if i: "2 \<le> i" "i \<le> n" "i div 2 \<noteq> c" for i
  proof -
    consider "i = c" | "i \<noteq> c" "i div 2 = k" | "i = k" | "i \<noteq> c" "i \<noteq> k" "i div 2 \<noteq> k" by blast
    then show ?thesis
    proof cases
      case 1
      then show ?thesis using l c kc by simp
    next
      case 2
      then show ?thesis using m [of i] i kc by auto
    next
      case 3
      then show ?thesis using C [of c] c i kc by simp
    next
      case 4
      then show ?thesis using H [of i] i by simp
    qed
  qed
  moreover have "?T (c div 2) \<le> ?T i" if i: "i \<le> n" "i div 2 = c" "2 \<le> c" for i
  proof -
    have "i \<noteq> c" "i \<noteq> k" using i kc by auto
    then show ?thesis using H [of i] i c kc by simp
  qed
  ultimately show ?thesis unfolding heap_down_def by blast
qed

lemma heap_down_done:
  assumes "heap_down T n k" "\<And>i. i div 2 = k \<Longrightarrow> i \<le> n \<Longrightarrow> T k \<le> T i"
  shows "heap T n"
  using assms unfolding heap_down_def heap_def by metis

end
