(* ===== verification/Timer_Queue.thy ===== *)
theory Timer_Queue
  imports Timers
begin

text \<open>
  The timer heap as a queue: sifting, the search for the next and the previous position, and the operations,
  against the map from the running timers to their times.
\<close>

section \<open>Sifting\<close>

definition stamps :: "'h timers \<Rightarrow> nat list \<Rightarrow> nat \<Rightarrow> timeval" where
  "stamps s xs k = tv s (the (pos xs k))"

text \<open>\<open>s'\<close> has the timers of \<open>xs\<close> in \<open>s\<close>, in the order of a heap.\<close>

definition heaped :: "nat set \<Rightarrow> 'h timers \<Rightarrow> 'h timers \<Rightarrow> bool" where
  "heaped S s s' \<longleftrightarrow> (\<exists>ys. rep ys s' \<and> set ys = S \<and> heap (stamps s' ys) (length ys)) \<and> payload s' = payload s"

lemma heapedI: "rep ys s' \<Longrightarrow> set ys = S \<Longrightarrow> heap (stamps s' ys) (length ys) \<Longrightarrow> payload s' = payload s \<Longrightarrow> heaped S s s'"
  by (auto simp: heaped_def)

lemma stamps_swap:
  assumes "distinct xs" "pos xs j = Some p" "pos xs k = Some e" "j \<noteq> k" "payload s' = payload s"
  shows "stamps s' (xs[j - 1 := e, k - 1 := p]) = (stamps s xs)(j := stamps s xs k, k := stamps s xs j)"
proof
  fix m
  have "1 \<le> j" "j \<le> length xs" "1 \<le> k" "k \<le> length xs" using pos_range assms(2,3) by blast+
  then have "pos (xs[j - 1 := e, k - 1 := p]) m = (if m = k then Some p else if m = j then Some e else pos xs m)"
    using pos_upd [of k "xs[j - 1 := e]" p m] pos_upd [of j xs e m] by simp
  then show "stamps s' (xs[j - 1 := e, k - 1 := p]) m = ((stamps s xs)(j := stamps s xs k, k := stamps s xs j)) m"
    using assms payload_tv [OF assms(5)] by (simp add: stamps_def)
qed

lemma set_pos_swap:
  assumes "pos xs j = Some p" "pos xs k = Some e" "j \<noteq> k"
  shows "set (xs[j - 1 := e, k - 1 := p]) = set xs"
proof -
  have "xs[j - 1 := e, k - 1 := p] = xs[j - 1 := xs ! (k - 1), k - 1 := xs ! (j - 1)]" using assms by (auto simp: pos_def split: if_splits)
  moreover have "j - 1 < length xs" "k - 1 < length xs" using assms by (auto simp: pos_def split: if_splits)
  ultimately show ?thesis by (simp add: list_update_swap set_swap)
qed

lemma swap_step:
  assumes r: "rep xs s" and p: "pos xs j = Some p" and e: "pos xs k = Some e" and j: "k div 2 = j"
    and w: "swapped (set xs) e p s s'" "payload s' = payload s"
  obtains ys where "rep ys s'" "set ys = set xs" "length ys = length xs" "pos ys j = Some e" "pos ys k = Some p"
    "stamps s' ys = (stamps s xs)(j := stamps s xs k, k := stamps s xs j)"
proof -
  let ?ys = "xs[j - 1 := e, k - 1 := p]"
  have b: "1 \<le> j" "j \<le> length xs" "1 \<le> k" "k \<le> length xs" "j \<noteq> k" using pos_range [OF p] pos_range [OF e] j by auto
  have "rep ?ys s'" by (rule rep_swap [OF r p e j w(1)])
  moreover have "set ?ys = set xs" by (rule set_pos_swap [OF p e b(5)])
  moreover have "stamps s' ?ys = (stamps s xs)(j := stamps s xs k, k := stamps s xs j)"
    using r by (intro stamps_swap [OF _ p e b(5) w(2)]) (simp add: rep_def)
  moreover have "pos ?ys j = Some e" "pos ?ys k = Some p"
    using pos_upd [of k "xs[j - 1 := e]" p] pos_upd [of j xs e j] b by simp_all
  ultimately show ?thesis by (intro that [of ?ys]) simp_all
qed

lemma send_up_heap:
  assumes "rep xs s" "pos xs k = Some e" "heap_up (stamps s xs) (length xs) k"
  shows "\<exists>s'. send_up e s = Some s' \<and> heaped (set xs) s s'"
  using assms
proof (induction k arbitrary: xs s rule: less_induct)
  case (less k)
  have a: "ab s e = pos xs (k div 2)" using less.prems(1,2) by (simp add: rep_def)
  show ?case
  proof (cases "k = 1")
    case True
    then have "heap (stamps s xs) (length xs)" using heap_up_done less.prems(3) by force
    then show ?thesis using less.prems(1) a True by (subst send_up.simps) (auto intro: heapedI)
  next
    case False
    then have k: "2 \<le> k" "k \<le> length xs" using pos_range [OF less.prems(2)] by auto
    then have "1 \<le> k div 2" "k div 2 \<le> length xs" by linarith+
    then obtain p where p: "pos xs (k div 2) = Some p" using pos_Some by blast
    have T: "stamps s xs k = tv s e" "stamps s xs (k div 2) = tv s p" using less.prems(2) p by (simp_all add: stamps_def)
    show ?thesis
    proof (cases "tv s e < tv s p")
      case True
      have e: "e \<in> set xs" using pos_range [OF less.prems(2)] by simp
      note w = swap_up_swapped [OF less.prems(1) e, of p]
      from swap_step [OF less.prems(1) p less.prems(2) refl w] a p
      obtain ys where ys: "rep ys (swap_up e p s)" "set ys = set xs" "length ys = length xs" "pos ys (k div 2) = Some e"
        "stamps (swap_up e p s) ys = (stamps s xs)(k div 2 := stamps s xs k, k := stamps s xs (k div 2))" by auto
      have "heap_up (stamps (swap_up e p s) ys) (length ys) (k div 2)"
        using heap_up_step [OF less.prems(3) k] True ys(3,5) T by simp
      from less.IH [OF _ ys(1,4) this] k obtain s' where "send_up e (swap_up e p s) = Some s'" "heaped (set ys) (swap_up e p s) s'" by auto
      then show ?thesis using a p True ys(2) w(2) by (subst send_up.simps) (auto simp: heaped_def)
    next
      case False
      then have "heap (stamps s xs) (length xs)" using heap_up_done [OF less.prems(3)] T by (simp add: not_less)
      then show ?thesis using less.prems(1) a p False by (subst send_up.simps) (auto intro: heapedI)
    qed
  qed
qed

lemma send_down_heap:
  assumes "rep xs s" "pos xs k = Some e" "heap_down (stamps s xs) (length xs) k"
  shows "\<exists>s'. send_down e s = Some s' \<and> heaped (set xs) s s'"
  using assms
proof (induction "length xs - k" arbitrary: k xs s rule: less_induct)
  case less
  note r = less.prems(1) and pe = less.prems(2) and h = less.prems(3)
  have L: "lf s e = pos xs (2 * k)" and R: "rt s e = pos xs (2 * k + 1)" using r pe by (simp_all add: rep_def)
  have b: "1 \<le> k" "k \<le> length xs" "e \<in> set xs" using pos_range [OF pe] by auto
  have T: "stamps s xs i = tv s x" if "pos xs i = Some x" for i x using that by (simp add: stamps_def)
  have kids: "i = 2 * k \<or> i = 2 * k + 1" if "i div 2 = k" for i using that half_cases by blast
  have finish: "\<exists>s'. Some s = Some s' \<and> heaped (set xs) s s'" if "\<And>i. i div 2 = k \<Longrightarrow> i \<le> length xs \<Longrightarrow> stamps s xs k \<le> stamps s xs i"
    using heapedI [OF r refl heap_down_done [OF h that]] by simp
  have descend: "\<exists>s''. send_down e s' = Some s'' \<and> heaped (set xs) s s''"
    if c: "pos xs c = Some x" "c div 2 = k" and w: "swapped (set xs) x e s s'" "payload s' = payload s"
      and l: "tv s x < tv s e" and m: "\<And>i. i div 2 = k \<Longrightarrow> i \<le> length xs \<Longrightarrow> tv s x \<le> stamps s xs i" for c x s'
  proof -
    from swap_step [OF r pe c w] obtain ys where ys: "rep ys s'" "set ys = set xs" "length ys = length xs" "pos ys c = Some e"
      "stamps s' ys = (stamps s xs)(k := stamps s xs c, c := stamps s xs k)" by blast
    have "heap_down (stamps s' ys) (length ys) c"
      using heap_down_step [OF h c(2) b(1)] pos_range [OF c(1)] l m T [OF c(1)] T [OF pe] ys(3,5) by simp
    moreover have "length ys - c < length xs - k" using pos_range [OF c(1)] c(2) b(1) ys(3) by linarith
    ultimately obtain s'' where "send_down e s' = Some s''" "heaped (set ys) s' s''" using less.hyps ys(1,4) by blast
    then show ?thesis using ys(2) w(2) by (auto simp: heaped_def)
  qed
  show ?case
  proof (cases "lf s e")
    case None
    then have "length xs < 2 * k" using L b(1) pos_Some [of "2 * k" xs] by fastforce
    then have "\<exists>s'. Some s = Some s' \<and> heaped (set xs) s s'" by (intro finish) auto
    then show ?thesis using None by (subst send_down.simps) simp
  next
    case (Some left)
    then have l: "pos xs (2 * k) = Some left" using L by simp
    show ?thesis
    proof (cases "\<exists>right. rt s e = Some right \<and> tv s right < tv s left")
      case True
      then obtain right where rt: "rt s e = Some right" "tv s right < tv s left" by blast
      then have p: "pos xs (2 * k + 1) = Some right" using R by simp
      have m: "tv s right \<le> stamps s xs i" if "i div 2 = k" for i using kids [OF that] T [OF l] T [OF p] rt(2) by auto
      have "tv s right < tv s e \<Longrightarrow> \<exists>s'. send_down e (swap_right e right s) = Some s' \<and> heaped (set xs) s s'"
        using swap_right_swapped [OF r b(3) rt(1)] m by (intro descend [OF p]) auto
      moreover have "\<not> tv s right < tv s e \<Longrightarrow> \<exists>s'. Some s = Some s' \<and> heaped (set xs) s s'"
        using m T [OF pe] by (intro finish) force
      ultimately show ?thesis using Some rt by (subst send_down.simps) simp
    next
      case False
      have m: "tv s left \<le> stamps s xs i" if i2: "i div 2 = k" "i \<le> length xs" for i
      proof (cases "i = 2 * k")
        case i: False
        then have "i = 2 * k + 1" using kids [OF i2(1)] by simp
        then obtain right where "pos xs i = Some right" "rt s e = Some right" using i2(2) R pos_Some [of i xs] by auto
        then show ?thesis using False T by force
      qed (use T [OF l] in simp)
      have "tv s left < tv s e \<Longrightarrow> \<exists>s'. send_down e (swap_left e left s) = Some s' \<and> heaped (set xs) s s'"
        using swap_left_swapped [OF r b(3) Some] m by (intro descend [OF l]) auto
      moreover have "\<not> tv s left < tv s e \<Longrightarrow> \<exists>s'. Some s = Some s' \<and> heaped (set xs) s s'"
        using m T [OF pe] by (intro finish) force
      ultimately show ?thesis using Some False by (subst send_down.simps) (auto split: option.split)
    qed
  qed
qed

section \<open>The next and the previous position\<close>

lemma climb_right_pos:
  assumes r: "rep xs s"
  shows "pos xs k = Some x \<Longrightarrow> \<exists>y m u. climb_right s x c = Some (y, c + u) \<and> pos xs m = Some y \<and> Suc k = Suc m * 2 ^ u \<and> (m = 1 \<or> even m)"
proof (induction k arbitrary: x c rule: less_induct)
  case (less k)
  have a: "ab s x = pos xs (k div 2)" and d: "distinct xs" using r less.prems by (simp_all add: rep_def)
  have k: "1 \<le> k" "k \<le> length xs" using pos_range [OF less.prems] by auto
  show ?case
  proof (cases "k = 1")
    case True
    then have "climb_right s x c = Some (x, c + 0)" using a by (subst climb_right.simps) simp
    then show ?thesis using True less.prems by (intro exI [of _ x] exI [of _ 1] exI [of _ 0]) auto
  next
    case False
    then have "1 \<le> k div 2" "k div 2 \<le> length xs" using k by linarith+
    then obtain g where g: "pos xs (k div 2) = Some g" using pos_Some by blast
    then have rg: "rt s g = pos xs (2 * (k div 2) + 1)" using r by (simp add: rep_def)
    show ?thesis
    proof (cases "even k")
      case True
      then have "rt s g \<noteq> Some x" using rg pos_inj [OF d less.prems, of "k + 1"] by auto
      then have "climb_right s x c = Some (x, c + 0)" using a g by (subst climb_right.simps) simp
      then show ?thesis using True less.prems by (intro exI [of _ x] exI [of _ k] exI [of _ 0]) auto
    next
      case odd: False
      then have "rt s g = Some x" using rg less.prems by simp
      then have e: "climb_right s x c = climb_right s g (Suc c)" using a g by (subst climb_right.simps) simp
      from less.IH [OF _ g, of "Suc c"] k obtain y m u where "climb_right s g (Suc c) = Some (y, Suc c + u)" "pos xs m = Some y"
        "Suc (k div 2) = Suc m * 2 ^ u" "m = 1 \<or> even m" by auto
      moreover from this(3) odd have "Suc k = Suc m * 2 ^ Suc u" by (auto elim!: oddE)
      ultimately show ?thesis unfolding e by (intro exI [of _ y] exI [of _ m] exI [of _ "Suc u"]) simp
    qed
  qed
qed

lemma climb_left_pos:
  assumes r: "rep xs s"
  shows "pos xs k = Some x \<Longrightarrow> \<exists>y m u. climb_left s x c = Some (y, c + u) \<and> pos xs m = Some y \<and> k = m * 2 ^ u \<and> odd m"
proof (induction k arbitrary: x c rule: less_induct)
  case (less k)
  have a: "ab s x = pos xs (k div 2)" and d: "distinct xs" using r less.prems by (simp_all add: rep_def)
  have k: "1 \<le> k" "k \<le> length xs" using pos_range [OF less.prems] by auto
  show ?case
  proof (cases "k = 1")
    case True
    then have "climb_left s x c = Some (x, c + 0)" using a by (subst climb_left.simps) simp
    then show ?thesis using True less.prems by (intro exI [of _ x] exI [of _ 1] exI [of _ 0]) auto
  next
    case False
    then have "1 \<le> k div 2" "k div 2 \<le> length xs" using k by linarith+
    then obtain g where g: "pos xs (k div 2) = Some g" using pos_Some by blast
    then have lg: "lf s g = pos xs (2 * (k div 2))" using r by (simp add: rep_def)
    show ?thesis
    proof (cases "odd k")
      case True
      then have "lf s g \<noteq> Some x" using lg k pos_inj [OF d less.prems, of "2 * (k div 2)"] by auto
      then have "climb_left s x c = Some (x, c + 0)" using a g by (subst climb_left.simps) simp
      then show ?thesis using True less.prems by (intro exI [of _ x] exI [of _ k] exI [of _ 0]) auto
    next
      case even: False
      then have "lf s g = Some x" using lg less.prems by simp
      then have e: "climb_left s x c = climb_left s g (Suc c)" using a g by (subst climb_left.simps) simp
      from less.IH [OF _ g, of "Suc c"] k obtain y m u where "climb_left s g (Suc c) = Some (y, Suc c + u)" "pos xs m = Some y"
        "k div 2 = m * 2 ^ u" "odd m" by auto
      moreover from this(3) even have "k = m * 2 ^ Suc u" by (auto elim!: evenE)
      ultimately show ?thesis unfolding e by (intro exI [of _ y] exI [of _ m] exI [of _ "Suc u"]) simp
    qed
  qed
qed

lemma down_left_pos:
  assumes r: "rep xs s"
  shows "pos xs m = Some y \<Longrightarrow> m * 2 ^ u \<le> length xs \<Longrightarrow> down_left s y u = pos xs (m * 2 ^ u)"
proof (induction u arbitrary: m y)
  case (Suc u)
  have m: "1 \<le> m" using pos_range [OF Suc.prems(1)] by simp
  have l: "lf s y = pos xs (2 * m)" using r Suc.prems(1) by (simp add: rep_def)
  have "2 * m * 2 ^ u \<le> length xs" using Suc.prems(2) by (simp add: ac_simps)
  moreover have "2 * m \<le> 2 * m * 2 ^ u" by simp
  ultimately obtain z where z: "pos xs (2 * m) = Some z" using m pos_Some [of "2 * m" xs] by fastforce
  then show ?case using l Suc.IH [OF z] \<open>2 * m * 2 ^ u \<le> length xs\<close> by (simp add: ac_simps)
qed simp

lemma down_right_pos:
  assumes r: "rep xs s"
  shows "pos xs m = Some y \<Longrightarrow> Suc m * 2 ^ u - 1 \<le> length xs \<Longrightarrow> down_right s y u = pos xs (Suc m * 2 ^ u - 1)"
proof (induction u arbitrary: m y)
  case (Suc u)
  have m: "1 \<le> m" using pos_range [OF Suc.prems(1)] by simp
  have l: "rt s y = pos xs (2 * m + 1)" using r Suc.prems(1) by (simp add: rep_def)
  have e: "Suc (2 * m + 1) * 2 ^ u = Suc m * 2 ^ Suc u" by (simp add: algebra_simps)
  have "Suc (2 * m + 1) \<le> Suc (2 * m + 1) * 2 ^ u" by (metis mult.right_neutral mult_le_mono2 one_le_numeral one_le_power)
  then have "2 * m + 1 \<le> length xs" using Suc.prems(2) unfolding e by linarith
  then obtain z where z: "pos xs (2 * m + 1) = Some z" using pos_Some [of "2 * m + 1" xs] by auto
  then show ?case using l Suc.IH [OF z] Suc.prems(2) unfolding e by simp
qed simp

lemma find_next_pos_correct:
  assumes r: "rep xs s" and l: "pos xs (length xs) = Some l"
  shows "\<exists>p. find_next_pos l s = Some (p, even (length xs)) \<and> pos xs (Suc (length xs) div 2) = Some p"
proof -
  define n where "n = length xs"
  have n: "1 \<le> n" "pos xs n = Some l" using pos_range [OF l] l by (simp_all add: n_def)
  have d: "distinct xs" and a: "ab s l = pos xs (n div 2)" using r n(2) by (simp_all add: rep_def)
  show ?thesis
  proof (cases "even n")
    case True
    then have "1 \<le> n div 2" "n div 2 \<le> n" using n by presburger+
    then obtain u where u: "pos xs (n div 2) = Some u" using pos_Some [of "n div 2" xs] by (auto simp: n_def)
    then have "lf s u = Some l" using r n(2) True by (simp add: rep_def)
    moreover have "Suc n div 2 = n div 2" using True by presburger
    ultimately show ?thesis using a u True by (simp add: find_next_pos_def n_def)
  next
    case odd: False
    have nl: "lf s u \<noteq> Some l" if "ab s l = Some u" for u
    proof -
      have "lf s u = pos xs (2 * (n div 2))" using that a r by (simp add: rep_def)
      then show ?thesis using pos_inj [OF d n(2), of "2 * (n div 2)"] odd n(1) by auto
    qed
    obtain y m u where c: "climb_right s l 0 = Some (y, u)" "pos xs m = Some y" "Suc n = Suc m * 2 ^ u" "m = 1 \<or> even m"
      using climb_right_pos [OF r n(2), of 0] by auto
    have ay: "ab s y = pos xs (m div 2)" and m1: "1 \<le> m" using r c(2) pos_range [OF c(2)] by (simp_all add: rep_def)
    have half: "Suc n div 2 \<le> length xs" using n(1) by (simp add: n_def)
    have "find_next_up l s = map_option (\<lambda>c. (c, False)) (pos xs (Suc n div 2))"
    proof (cases "m = 1")
      case True
      then have "Suc n div 2 = 1 * 2 ^ u" using c(3) by simp
      then show ?thesis using c(1,2) True ay down_left_pos [OF r, of 1 y u] half by (simp add: find_next_up_def)
    next
      case False
      then have ev: "even m" and m2: "1 \<le> m div 2" "m div 2 \<le> length xs" using c(4) m1 pos_range [OF c(2)] by (auto elim!: evenE)
      then obtain g where g: "pos xs (m div 2) = Some g" using pos_Some by blast
      have u: "u \<noteq> 0" using c(3) ev odd by (cases u) auto
      then obtain v where v: "u = Suc v" using not0_implies_Suc by blast
      have h: "Suc n div 2 = Suc m * 2 ^ v" using c(3) v by simp
      have "Suc m \<le> Suc m * 2 ^ v" by (metis mult.right_neutral mult_le_mono2 one_le_numeral one_le_power)
      then obtain z where z: "pos xs (Suc m) = Some z" using half h pos_Some [of "Suc m" xs] by auto
      moreover have "rt s g = pos xs (Suc m)" using r g ev by (simp add: rep_def)
      ultimately show ?thesis using c(1,2) ay g down_left_pos [OF r z, of v] half h v by (simp add: find_next_up_def udec_def)
    qed
    moreover have "1 \<le> Suc n div 2" using n(1) by linarith
    ultimately show ?thesis using half nl pos_Some [of "Suc n div 2" xs] odd
      by (auto simp: find_next_pos_def n_def split: option.split)
  qed
qed

lemma find_prev_elem_correct:
  assumes r: "rep xs s" and l: "pos xs (length xs) = Some l" and n2: "2 \<le> length xs"
  shows "find_prev_elem l s = Some (pos xs (length xs - 1))"
proof -
  define n where "n = length xs"
  have n: "2 \<le> n" "pos xs n = Some l" using n2 l by (simp_all add: n_def)
  have d: "distinct xs" and a: "ab s l = pos xs (n div 2)" using r n(2) by (simp_all add: rep_def)
  have "1 \<le> n div 2" "n div 2 \<le> length xs" using n by (simp_all add: n_def)
  then obtain q where q: "pos xs (n div 2) = Some q" using pos_Some by blast
  then have R: "rt s q = pos xs (2 * (n div 2) + 1)" and L: "lf s q = pos xs (2 * (n div 2))" using r by (simp_all add: rep_def)
  show ?thesis
  proof (cases "odd n")
    case True
    then have "2 * (n div 2) + 1 = n" "2 * (n div 2) = n - 1" by presburger+
    then show ?thesis using R L a q n(2) by (simp add: find_prev_elem_def n_def)
  next
    case even: False
    then have nr: "rt s q \<noteq> Some l" using R pos_inj [OF d n(2), of "n + 1"] by auto
    obtain y m u where c: "climb_left s l 0 = Some (y, u)" "pos xs m = Some y" "n = m * 2 ^ u" "odd m"
      using climb_left_pos [OF r n(2), of 0] by auto
    have ay: "ab s y = pos xs (m div 2)" using r c(2) by (simp add: rep_def)
    have u: "u \<noteq> 0" using c(3,4) even by (cases u) auto
    have some: "pos xs (n - 1) \<noteq> None" using n by (simp add: pos_def n_def)
    have "find_prev_up l s = Some (pos xs (n - 1))"
    proof (cases "m = 1")
      case True
      obtain v where v: "u = Suc v" using u not0_implies_Suc by blast
      then have "n - 1 = Suc m * 2 ^ v - 1" using c(3) True by simp
      then have "down_right s y v = pos xs (n - 1)" using down_right_pos [OF r c(2), of v] by (simp add: n_def)
      then show ?thesis using c(1) ay True v some by (auto simp: find_prev_up_def udec_def)
    next
      case False
      then have m2: "1 \<le> m div 2" "m div 2 \<le> length xs" using c(4) pos_range [OF c(2)] by (auto elim!: oddE)
      then obtain g where g: "pos xs (m div 2) = Some g" using pos_Some by blast
      have m: "2 * (m div 2) = m - 1" "Suc (m - 1) = m" using c(4) by presburger+
      have lg: "lf s g = pos xs (m - 1)" using r g m by (simp add: rep_def)
      have "1 \<le> m - 1" "m - 1 \<le> length xs" using m2 pos_range [OF c(2)] by linarith+
      then obtain z where z: "pos xs (m - 1) = Some z" using pos_Some by blast
      have "down_right s z u = pos xs (n - 1)" using down_right_pos [OF r z, of u] m(2) c(3) by (simp add: n_def)
      then show ?thesis using c(1) ay g lg z some by (auto simp: find_prev_up_def)
    qed
    then show ?thesis using a q nr by (simp add: find_prev_elem_def n_def)
  qed
qed

section \<open>Adding and removing a timer\<close>

lemma rep_frame:
  assumes "rep xs s" "\<And>x. x \<in> set xs \<Longrightarrow> lf s' x = lf s x \<and> rt s' x = rt s x \<and> ab s' x = ab s x"
    "timer_top s' = timer_top s" "timer_last s' = timer_last s"
  shows "rep xs s'"
  using assms pos_range unfolding rep_def by metis

lemma rep_append:
  assumes r: "rep xs s" and e: "e \<notin> set xs" "lf s e = None" "rt s e = None" and p: "pos xs (Suc (length xs) div 2) = Some p"
  shows "rep (xs @ [e]) ((set_up e (Some p) (if even (length xs) then set_right p (Some e) s else set_left p (Some e) s))\<lparr>timer_last := Some e\<rparr>)"
    (is "rep _ ?s")
proof -
  let ?n = "length xs" and ?ys = "xs @ [e]"
  have d: "distinct xs" using r by (simp add: rep_def)
  have n: "1 \<le> ?n" using pos_range [OF p] by simp
  have pe: "p \<noteq> e" using pos_range [OF p] e by auto
  have f: "lf ?s x = pos ?ys (2 * k) \<and> rt ?s x = pos ?ys (2 * k + 1) \<and> ab ?s x = pos ?ys (k div 2)" if k: "pos ?ys k = Some x" for k x
  proof (cases "k = Suc ?n")
    case True
    then have "x = e" using k by (simp add: pos_append)
    moreover have "pos ?ys (2 * k) = None" "pos ?ys (2 * k + 1) = None" using True by (auto simp: pos_def)
    moreover have "pos ?ys (k div 2) = Some p" using True p n by (auto simp: pos_append)
    ultimately show ?thesis using e pe by simp
  next
    case False
    then have x: "pos xs k = Some x" using k by (simp add: pos_append)
    then have "x \<noteq> e" "k \<le> ?n" using pos_range [OF x] e by auto
    moreover have "lf s x = pos xs (2 * k)" "rt s x = pos xs (2 * k + 1)" "ab s x = pos xs (k div 2)" using r x by (simp_all add: rep_def)
    moreover have "x = p \<longleftrightarrow> Suc ?n div 2 = k" using pos_inj [OF d x, of "Suc ?n div 2"] p by auto
    moreover have "2 * k = Suc ?n \<longleftrightarrow> odd ?n \<and> Suc ?n div 2 = k" "2 * k + 1 = Suc ?n \<longleftrightarrow> even ?n \<and> Suc ?n div 2 = k" by presburger+
    moreover have "k div 2 \<noteq> Suc ?n" using \<open>k \<le> ?n\<close> by linarith
    ultimately show ?thesis using pe by (cases "even ?n"; cases "Suc ?n div 2 = k") (simp_all add: pos_append)
  qed
  have "timer_top ?s = pos ?ys 1" "timer_last ?s = pos ?ys (length ?ys)" using r n by (auto simp: rep_def pos_append)
  then show ?thesis using f d e(1) unfolding rep_def by simp
qed

lemma stamps_append: "payload s' = payload s \<Longrightarrow> k \<noteq> Suc (length xs) \<Longrightarrow> stamps s' (xs @ [e]) k = stamps s xs k"
  using payload_tv [of s' s] by (simp add: stamps_def pos_append)

lemma heap_append:
  assumes "heap (stamps s xs) (length xs)" "payload s' = payload s"
  shows "heap_up (stamps s' (xs @ [e])) (length (xs @ [e])) (Suc (length xs))"
proof -
  have "stamps s' (xs @ [e]) (i div 2) \<le> stamps s' (xs @ [e]) i" if "2 \<le> i" "i \<le> length xs" for i
    using assms(1) that stamps_append [OF assms(2), of i xs e] stamps_append [OF assms(2), of "i div 2" xs e] by (auto simp: heap_def)
  then show ?thesis by (auto simp: heap_up_def)
qed

lemma add_to_heap_heaped:
  assumes r: "rep xs s" and h: "heap (stamps s xs) (length xs)" and e: "e \<notin> set xs"
  shows "\<exists>s'. add_to_heap e s = Some s' \<and> heaped (insert e (set xs)) s s'"
proof -
  define s0 where "s0 = set_up e None (set_right e None (set_left e None s))"
  have r0: "rep xs s0" using e by (intro rep_frame [OF r]) (auto simp: s0_def)
  have f0: "lf s0 e = None" "rt s0 e = None" "payload s0 = payload s" by (simp_all add: s0_def)
  show ?thesis
  proof (cases "xs = []")
    case True
    let ?s = "s0\<lparr>timer_top := Some e, timer_last := Some e\<rparr>"
    have p1: "pos [e] k = (if k = 1 then Some e else None)" for k by (auto simp: pos_def)
    have "rep [e] ?s" by (auto simp: rep_def p1 s0_def split: if_splits)
    moreover have "heap (stamps ?s [e]) (length [e])" by (auto simp: heap_def)
    moreover have "payload ?s = payload s" by (simp add: f0)
    ultimately have "heaped (insert e (set xs)) s ?s" using True by (intro heapedI) auto
    moreover have "timer_top s0 = None" using r0 True by (simp add: rep_def)
    ultimately show ?thesis by (simp add: add_to_heap_def s0_def)
  next
    case False
    then obtain l where l: "pos xs (length xs) = Some l" using pos_Some [of "length xs" xs] by (cases xs) auto
    from False obtain a where a: "pos xs 1 = Some a" using pos_Some [of 1 xs] by (cases xs) auto
    obtain p where p: "find_next_pos l s0 = Some (p, even (length xs))" "pos xs (Suc (length xs) div 2) = Some p"
      using find_next_pos_correct [OF r0 l] by blast
    define s1 where "s1 = (set_up e (Some p) (if even (length xs) then set_right p (Some e) s0 else set_left p (Some e) s0))\<lparr>timer_last := Some e\<rparr>"
    have r1: "rep (xs @ [e]) s1" unfolding s1_def by (rule rep_append [OF r0 e f0(1,2) p(2)])
    have f1: "payload s1 = payload s" by (simp add: s1_def f0)
    have u1: "heap_up (stamps s1 (xs @ [e])) (length (xs @ [e])) (Suc (length xs))" by (rule heap_append [OF h f1])
    have pe: "pos (xs @ [e]) (Suc (length xs)) = Some e" by (simp add: pos_append)
    have T: "stamps s1 (xs @ [e]) (Suc (length xs)) = tv s1 e" "stamps s1 (xs @ [e]) (Suc (length xs) div 2) = tv s1 p"
      using pe p(2) pos_range [OF p(2)] by (auto simp: stamps_def pos_append)
    have "add_to_heap e s = (if tv s1 e < tv s1 p then send_up e s1 else Some s1)"
      using r0 l a p(1) unfolding add_to_heap_def s0_def [symmetric] s1_def by (simp add: rep_def Let_def)
    moreover have "\<exists>s'. send_up e s1 = Some s' \<and> heaped (insert e (set xs)) s s'"
      using send_up_heap [OF r1 pe u1] f1 by (auto simp: heaped_def)
    moreover have "\<not> tv s1 e < tv s1 p \<Longrightarrow> heaped (insert e (set xs)) s s1"
      using heap_up_done [OF u1] T by (intro heapedI [OF r1 _ _ f1]) (auto simp: not_less)
    ultimately show ?thesis by auto
  qed
qed

lemma rep_unlink_last:
  assumes r: "rep xs s" and n: "2 \<le> length xs" and l: "pos xs (length xs) = Some l" and u: "pos xs (length xs div 2) = Some u"
  shows "rep (butlast xs) (unlink_last l u (s\<lparr>timer_last := pos xs (length xs - 1)\<rparr>))" (is "rep ?ys ?s")
proof -
  let ?n = "length xs"
  have d: "distinct xs" using r by (simp add: rep_def)
  have lu: "lf s u = pos xs (2 * (?n div 2))" using r u by (simp add: rep_def)
  have side: "lf s u = Some l \<longleftrightarrow> even ?n" using lu pos_inj [OF d l, of "2 * (?n div 2)"] by (metis dvd_triv_left dvd_mult_div_cancel)
  have f: "lf ?s x = pos ?ys (2 * k) \<and> rt ?s x = pos ?ys (2 * k + 1) \<and> ab ?s x = pos ?ys (k div 2)" if k: "pos ?ys k = Some x" for k x
  proof -
    have x: "pos xs k = Some x" "k < ?n" using k pos_range [OF k] n by (auto simp: pos_butlast split: if_splits)
    have "lf s x = pos xs (2 * k)" "rt s x = pos xs (2 * k + 1)" "ab s x = pos xs (k div 2)" using r x by (simp_all add: rep_def)
    moreover have "x = u \<longleftrightarrow> ?n div 2 = k" using pos_inj [OF d x(1), of "?n div 2"] u by auto
    moreover have "2 * k = ?n \<longleftrightarrow> even ?n \<and> ?n div 2 = k" "2 * k + 1 = ?n \<longleftrightarrow> odd ?n \<and> ?n div 2 = k" by presburger+
    moreover have "k div 2 \<noteq> ?n" using x(2) by linarith
    ultimately show ?thesis using side
      by (cases "even ?n"; cases "?n div 2 = k") (simp_all add: pos_butlast unlink_last_def)
  qed
  have "timer_top ?s = pos ?ys 1" "timer_last ?s = pos ?ys (length ?ys)" using r n by (auto simp: rep_def pos_butlast unlink_last_def)
  then show ?thesis using f d unfolding rep_def by (simp add: distinct_butlast)
qed

lemma take_place_fields:
  assumes r: "rep xs s" and e: "e \<in> set xs" and l: "l \<notin> set xs"
  shows "x \<in> set xs \<Longrightarrow> x \<noteq> e \<Longrightarrow> lf (take_place e l s) x = (if lf s x = Some e then Some l else lf s x)"
    and "x \<in> set xs \<Longrightarrow> x \<noteq> e \<Longrightarrow> rt (take_place e l s) x = (if rt s x = Some e then Some l else rt s x)"
    and "x \<in> set xs \<Longrightarrow> x \<noteq> e \<Longrightarrow> ab (take_place e l s) x = (if lf s e = Some x \<or> rt s e = Some x then Some l else ab s x)"
    and "lf (take_place e l s) l = lf s e" "rt (take_place e l s) l = rt s e" "ab (take_place e l s) l = ab s e"
    and "timer_top (take_place e l s) = (if ab s e = None then Some l else timer_top s)"
    and "timer_last (take_place e l s) = (if timer_last s = Some e then Some l else timer_last s)"
    and "payload (take_place e l s) = payload s"
proof -
  note le = rep_links [OF r e]
  have n: "lf s e \<noteq> Some e" "rt s e \<noteq> Some e" "ab s e \<noteq> Some e" "lf s e \<noteq> Some l" "rt s e \<noteq> Some l" "ab s e \<noteq> Some l" "e \<noteq> l"
    using le(1,2,3) [of e] le(1,2,3) [of l] l e by blast+
  note defs = take_place_def Let_def relink_fields
  show "lf (take_place e l s) x = (if lf s x = Some e then Some l else lf s x)" if x: "x \<in> set xs" "x \<noteq> e"
  proof -
    have "lf s x = Some e \<Longrightarrow> ab s e = Some x" "x \<noteq> l" using rep_links(1) [OF r x(1), of e] x l by blast+
    then show ?thesis using x n by (auto simp: defs)
  qed
  show "rt (take_place e l s) x = (if rt s x = Some e then Some l else rt s x)" if x: "x \<in> set xs" "x \<noteq> e"
  proof -
    have "ab s e = Some x \<and> lf s x \<noteq> Some e \<longleftrightarrow> rt s x = Some e" "x \<noteq> l"
      using rep_links(1,2) [OF r x(1), of e] le(3) [of x] x l by blast+
    then show ?thesis using x n by (auto simp: defs)
  qed
  show "ab (take_place e l s) x = (if lf s e = Some x \<or> rt s e = Some x then Some l else ab s x)" if x: "x \<in> set xs" "x \<noteq> e"
  proof -
    have "x \<noteq> l" using x l by blast
    then show ?thesis using x n by (auto simp: defs)
  qed
  show "lf (take_place e l s) l = lf s e" "rt (take_place e l s) l = rt s e" "ab (take_place e l s) l = ab s e"
    using n by (auto simp: defs)
  show "timer_top (take_place e l s) = (if ab s e = None then Some l else timer_top s)"
    "timer_last (take_place e l s) = (if timer_last s = Some e then Some l else timer_last s)" "payload (take_place e l s) = payload s"
    by (auto simp: defs)
qed

lemma rep_take_place:
  assumes r: "rep xs s" and e: "pos xs k = Some e" and l: "l \<notin> set xs"
  shows "rep (xs[k - 1 := l]) (take_place e l s)"
proof -
  define ys where "ys = xs[k - 1 := l]"
  have k: "1 \<le> k" "k \<le> length xs" and es: "e \<in> set xs" using pos_range [OF e] by auto
  have d: "distinct xs" using r by (simp add: rep_def)
  have P: "pos ys m = (if m = k then Some l else pos xs m)" for m using pos_upd [OF k, of l m] by (simp add: ys_def)
  have E: "pos xs m = Some e \<longleftrightarrow> m = k" for m using pos_inj [OF d e, of m] by auto
  have fe: "lf s e = pos xs (2 * k)" "rt s e = pos xs (2 * k + 1)" "ab s e = pos xs (k div 2)" using r e by (simp_all add: rep_def)
  note tp = take_place_fields [OF r es l]
  have f: "lf (take_place e l s) x = pos ys (2 * i) \<and> rt (take_place e l s) x = pos ys (2 * i + 1) \<and> ab (take_place e l s) x = pos ys (i div 2)"
    if i: "pos ys i = Some x" for i x
  proof (cases "i = k")
    case True
    then have "x = l" using i P by simp
    moreover have "k div 2 \<noteq> k" using k by linarith
    ultimately show ?thesis using tp(4-6) fe True k by (simp add: P)
  next
    case False
    then have x: "pos xs i = Some x" using i P by simp
    then have xs: "x \<in> set xs" "x \<noteq> e" using pos_range [OF x] E False by auto
    have X: "pos xs m = Some x \<longleftrightarrow> m = i" for m using pos_inj [OF d x, of m] by auto
    have fx: "lf s x = pos xs (2 * i)" "rt s x = pos xs (2 * i + 1)" "ab s x = pos xs (i div 2)" using r x by (simp_all add: rep_def)
    have "lf s e = Some x \<or> rt s e = Some x \<longleftrightarrow> i div 2 = k" unfolding fe X half_cases by blast
    then show ?thesis using tp(1-3) [OF xs] fx by (simp add: P E)
  qed
  have "length xs \<noteq> k \<or> timer_last s = Some e" using r e by (auto simp: rep_def)
  then have "timer_last (take_place e l s) = pos ys (length ys)"
    using tp(8) r E [of "length xs"] P [of "length xs"] by (auto simp: rep_def ys_def)
  moreover have "timer_top (take_place e l s) = pos ys 1"
  proof (cases "k = 1")
    case False
    then have "1 \<le> k div 2" "k div 2 \<le> length xs" using k by linarith+
    then have "ab s e \<noteq> None" using fe(3) pos_Some by fastforce
    then have "timer_top (take_place e l s) = timer_top s" using tp(7) by auto
    then show ?thesis using r False by (simp add: P rep_def)
  qed (use tp(7) fe in \<open>simp add: P\<close>)
  moreover have "distinct ys" using d l by (simp add: ys_def distinct_list_update)
  ultimately show ?thesis using f unfolding rep_def ys_def by blast
qed

lemma heap_take_place:
  assumes h: "heap T (Suc n)" and k: "1 \<le> k" "k \<le> n" and T: "\<And>i. i \<noteq> k \<Longrightarrow> i \<le> n \<Longrightarrow> T' i = T i"
  shows "2 \<le> k \<Longrightarrow> T' k < T' (k div 2) \<Longrightarrow> heap_up T' n k"
    and "k < 2 \<or> T' (k div 2) \<le> T' k \<Longrightarrow> heap_down T' n k"
proof -
  have H: "T (i div 2) \<le> T i" if "2 \<le> i" "i \<le> n" for i using h that by (simp add: heap_def)
  have other: "T' (i div 2) \<le> T' i" if "2 \<le> i" "i \<le> n" "i \<noteq> k" "i div 2 \<noteq> k" for i
    using H [of i] T [of i] T [of "i div 2"] that by simp
  have grand: "T' (k div 2) \<le> T' i" if "i \<le> n" "i div 2 = k" "2 \<le> k" for i
  proof -
    have "2 \<le> i" "i \<noteq> k" "k div 2 \<noteq> k" "k div 2 \<le> n" using that k by linarith+
    then show ?thesis using H [of i] H [of k] T [of i] T [of "k div 2"] that k by force
  qed
  show "heap_up T' n k" if "2 \<le> k" "T' k < T' (k div 2)"
  proof -
    have "T' (i div 2) \<le> T' i" if "2 \<le> i" "i \<le> n" "i \<noteq> k" for i
      using other [OF that] grand [of i] \<open>2 \<le> k\<close> \<open>T' k < T' (k div 2)\<close> that by (cases "i div 2 = k") auto
    then show ?thesis using grand by (simp add: heap_up_def)
  qed
  show "heap_down T' n k" if k2: "k < 2 \<or> T' (k div 2) \<le> T' k"
  proof -
    have "T' (i div 2) \<le> T' i" if "2 \<le> i" "i \<le> n" "i div 2 \<noteq> k" for i
      using other [of i] k2 that by (cases "i = k") auto
    then show ?thesis using grand by (simp add: heap_down_def)
  qed
qed

lemma settle_heap:
  assumes r: "rep ys s" and k: "pos ys k = Some l"
    and up: "2 \<le> k \<Longrightarrow> stamps s ys k < stamps s ys (k div 2) \<Longrightarrow> heap_up (stamps s ys) (length ys) k"
    and dn: "k < 2 \<or> stamps s ys (k div 2) \<le> stamps s ys k \<Longrightarrow> heap_down (stamps s ys) (length ys) k"
  shows "\<exists>s'. settle l s = Some s' \<and> heaped (set ys) s s'"
proof -
  have a: "ab s l = pos ys (k div 2)" and b: "1 \<le> k" "k \<le> length ys" using r k pos_range [OF k] by (auto simp: rep_def)
  have Tk: "stamps s ys k = tv s l" using k by (simp add: stamps_def)
  show ?thesis
  proof (cases "k = 1")
    case True
    then show ?thesis using a send_down_heap [OF r k dn] by (simp add: settle_def)
  next
    case False
    then have "2 \<le> k" "1 \<le> k div 2" "k div 2 \<le> length ys" using b by linarith+
    then obtain u where u: "pos ys (k div 2) = Some u" using pos_Some by blast
    then have Tu: "stamps s ys (k div 2) = tv s u" by (simp add: stamps_def)
    show ?thesis
    proof (cases "tv s l < tv s u")
      case True
      then show ?thesis using a u send_up_heap [OF r k up] \<open>2 \<le> k\<close> Tk Tu by (simp add: settle_def)
    next
      case False
      then show ?thesis using a u send_down_heap [OF r k dn] Tk Tu by (auto simp: settle_def not_less)
    qed
  qed
qed

lemma remove_from_heap_heaped:
  assumes r: "rep xs s" and h: "heap (stamps s xs) (length xs)" and e: "e \<in> set xs"
  shows "\<exists>s'. remove_from_heap e s = Some s' \<and> heaped (set xs - {e}) s s'"
proof -
  have d: "distinct xs" using r by (simp add: rep_def)
  obtain l where l: "pos xs (length xs) = Some l" using e pos_Some [of "length xs" xs] by (cases xs) auto
  have tl: "timer_last s = Some l" and al: "ab s l = pos xs (length xs div 2)" using r l by (auto simp: rep_def)
  show ?thesis
  proof (cases "length xs = 1")
    case True
    then have "xs = [e]" using e by (auto simp: length_Suc_conv)
    moreover have "rep [] (s\<lparr>timer_top := None, timer_last := None\<rparr>)" by (simp add: rep_def)
    then have "heaped {} s (s\<lparr>timer_top := None, timer_last := None\<rparr>)" by (rule heapedI) (simp_all add: heap_def)
    ultimately show ?thesis using tl al by (simp add: remove_from_heap_def)
  next
    case False
    then have n: "2 \<le> length xs" using length_pos_if_in_set [OF e] by linarith
    then obtain u where u: "pos xs (length xs div 2) = Some u" using pos_Some [of "length xs div 2" xs] by fastforce
    let ?ys = "butlast xs"
    define s1 where "s1 = unlink_last l u (s\<lparr>timer_last := pos xs (length xs - 1)\<rparr>)"
    have r1: "rep ?ys s1" unfolding s1_def by (rule rep_unlink_last [OF r n l u])
    have p1: "payload s1 = payload s" by (simp add: s1_def unlink_last_def)
    have ll: "l = last xs" using l n last_conv_nth [of xs] by (cases "xs = []") (auto simp: pos_def)
    have xs: "xs = ?ys @ [l]" using n ll by (metis append_butlast_last_id list.size(3) not_numeral_le_zero)
    have dy: "distinct (?ys @ [l])" and sx: "set xs = set (?ys @ [l])" using d xs by metis+
    then have ly: "l \<notin> set ?ys" and sy: "set xs = insert l (set ?ys)" by simp_all
    have e1: "remove_from_heap e s = (if e = l then Some s1 else settle l (take_place e l s1))"
      using tl al u find_prev_elem_correct [OF r l n] by (simp add: remove_from_heap_def s1_def Let_def)
    have S: "stamps s1 ?ys i = stamps s xs i" if "i \<le> length ?ys" for i
      using that n payload_tv [OF p1] by (auto simp: stamps_def pos_butlast)
    show ?thesis
    proof (cases "e = l")
      case True
      have "heap (stamps s1 ?ys) (length ?ys)" using h S by (auto simp: heap_def)
      moreover have "set ?ys = set xs - {e}" using sy ly True by auto
      ultimately show ?thesis using e1 True heapedI [OF r1 _ _ p1] by auto
    next
      case False
      then have "e \<in> set ?ys" using e sy by blast
      then obtain k where k: "pos ?ys k = Some e" using pos_set by blast
      have b: "1 \<le> k" "k \<le> length ?ys" using pos_range [OF k] by auto
      let ?zs = "?ys[k - 1 := l]" and ?s = "take_place e l s1"
      have rz: "rep ?zs ?s" by (rule rep_take_place [OF r1 k ly])
      have pz: "payload ?s = payload s" using take_place_fields(9) [OF r1 \<open>e \<in> set ?ys\<close> ly] p1 by simp
      have kz: "pos ?zs k = Some l" using pos_upd [OF b, of l k] by simp
      have T: "stamps ?s ?zs i = stamps s xs i" if "i \<noteq> k" "i \<le> length ?ys" for i
        using that S [of i] pos_upd [OF b, of l i] payload_tv [OF pz] payload_tv [OF p1] by (simp add: stamps_def)
      have "Suc (length ?ys) = length xs" using n by simp
      then have "heap (stamps s xs) (Suc (length ?ys))" using h by metis
      note ht = heap_take_place [OF this b T]
      have "\<exists>s'. settle l ?s = Some s' \<and> heaped (set ?zs) ?s s'" by (rule settle_heap [OF rz kz]) (use ht in simp_all)
      moreover have "set ?zs = insert l (set ?ys - {e})" using set_update_distinct [of ?ys "k - 1" l] dy k b by (auto simp: pos_def split: if_splits)
      then have "set ?zs = set xs - {e}" using sy ly False by auto
      ultimately show ?thesis using e1 False pz by (auto simp: heaped_def)
    qed
  qed
qed

section \<open>The timers as a queue\<close>

text \<open>The running timers with their times.\<close>

definition running :: "'h timers \<Rightarrow> nat \<Rightarrow> timeval option" where
  "running s t = (if in_heap (tnode s t) then Some (tv s t) else None)"

definition handlers :: "'h timers \<Rightarrow> nat \<Rightarrow> 'h" where
  "handlers s t = tm_handler (tnode s t)"

definition timers_ok :: "'h timers \<Rightarrow> bool" where
  "timers_ok s \<longleftrightarrow> (\<exists>xs. rep xs s \<and> heap (stamps s xs) (length xs) \<and> set xs = {t. in_heap (tnode s t)})"

text \<open>What the rest of the program relies on: starting and stopping a timer, and the timer that goes off first.\<close>

locale timer_queue =
  fixes start :: "nat \<Rightarrow> timeval \<Rightarrow> 's \<Rightarrow> 's option"
    and stop :: "nat \<Rightarrow> 's \<Rightarrow> (int \<times> 's) option"
    and first :: "'s \<Rightarrow> nat option"
    and active :: "'s \<Rightarrow> nat \<Rightarrow> timeval option"
    and ok :: "'s \<Rightarrow> bool"
  assumes start_law: "ok s \<Longrightarrow> \<exists>s'. start t w s = Some s' \<and> ok s' \<and> active s' = (active s)(t \<mapsto> w)"
    and stop_law: "ok s \<Longrightarrow> \<exists>s'. stop t s = Some (if active s t = None then ETIMEDOUT else 0, s') \<and> ok s' \<and> active s' = (active s)(t := None)"
    and finite_law: "ok s \<Longrightarrow> finite (dom (active s))"
    and first_None: "ok s \<Longrightarrow> first s = None \<Longrightarrow> active s = Map.empty"
    and first_Some: "ok s \<Longrightarrow> first s = Some t \<Longrightarrow> \<exists>w. active s t = Some w \<and> (\<forall>t' w'. active s t' = Some w' \<longrightarrow> w \<le> w')"
begin

lemma first_is_Min:
  assumes "ok s"
  shows "case first s of None \<Rightarrow> active s = Map.empty | Some t \<Rightarrow> active s t = Some (Min (ran (active s)))"
proof (cases "first s")
  case (Some t)
  then obtain w where w: "active s t = Some w" "\<forall>t' w'. active s t' = Some w' \<longrightarrow> w \<le> w'" using first_Some [OF assms] by blast
  moreover have "finite (ran (active s))" using finite_law [OF assms] by (rule finite_ran)
  ultimately have "Min (ran (active s)) = w" by (intro Min_eqI) (auto simp: ran_def)
  then show ?thesis using Some w(1) by simp
qed (use first_None [OF assms] in simp)

end

text \<open>Sequences of operations, on the timers and on the map of the running ones.\<close>

datatype timer_op = Start nat timeval | Stop nat

fun timer_ops :: "timer_op list \<Rightarrow> 'h timers \<Rightarrow> 'h timers option" where
  "timer_ops [] s = Some s"
| "timer_ops (Start t w # ops) s = (case sel_start_timer t w s of None \<Rightarrow> None | Some s \<Rightarrow> timer_ops ops s)"
| "timer_ops (Stop t # ops) s = (case sel_stop_timer t s of None \<Rightarrow> None | Some (_, s) \<Rightarrow> timer_ops ops s)"

fun active_ops :: "timer_op list \<Rightarrow> (nat \<Rightarrow> timeval option) \<Rightarrow> nat \<Rightarrow> timeval option" where
  "active_ops [] m = m"
| "active_ops (Start t w # ops) m = active_ops ops (m(t \<mapsto> w))"
| "active_ops (Stop t # ops) m = active_ops ops (m(t := None))"

lemma heaped_ok:
  assumes "heaped S s s'" "S = {t. in_heap (tnode s'' t)}" "\<And>x. lf s'' x = lf s' x \<and> rt s'' x = rt s' x \<and> ab s'' x = ab s' x \<and> tv s'' x = tv s' x"
    "timer_top s'' = timer_top s'" "timer_last s'' = timer_last s'"
  shows "timers_ok s''"
proof -
  obtain ys where ys: "rep ys s'" "set ys = S" "heap (stamps s' ys) (length ys)" using assms(1) by (auto simp: heaped_def)
  have "stamps s'' ys = stamps s' ys" using assms(3) by (intro ext) (simp add: stamps_def)
  then show ?thesis using ys assms(2-5) rep_frame [OF ys(1), of s''] unfolding timers_ok_def by metis
qed

lemma payload_running: "payload s = payload s' \<Longrightarrow> running s = running s'" "payload s = payload s' \<Longrightarrow> handlers s = handlers s'"
  "payload s = payload s' \<Longrightarrow> in_heap (tnode s t) = in_heap (tnode s' t)"
  unfolding running_def handlers_def payload_def by (auto simp: fun_eq_iff)

lemma set_in_heap_fields [simp]:
  "lf (set_in_heap t b s) x = lf s x" "rt (set_in_heap t b s) x = rt s x" "ab (set_in_heap t b s) x = ab s x" "tv (set_in_heap t b s) x = tv s x"
  "timer_top (set_in_heap t b s) = timer_top s" "timer_last (set_in_heap t b s) = timer_last s"
  "in_heap (tnode (set_in_heap t b s) x) = (if x = t then b else in_heap (tnode s x))" "handlers (set_in_heap t b s) = handlers s"
  by (auto simp: timer_upd_defs handlers_def)

lemma running_set_in_heap:
  "running (set_in_heap t False s) = (running s)(t := None)" "running (set_in_heap t True s) = (running s)(t \<mapsto> tv s t)"
  by (auto simp: running_def)

lemma stop_heap:
  assumes ok: "timers_ok s" and t: "in_heap (tnode s t)"
  shows "\<exists>s'. remove_from_heap t s = Some s' \<and> timers_ok (set_in_heap t False s') \<and>
    running (set_in_heap t False s') = (running s)(t := None) \<and> handlers s' = handlers s \<and> heaped ({x. in_heap (tnode s x)} - {t}) s s'"
proof -
  obtain xs where xs: "rep xs s" "heap (stamps s xs) (length xs)" "set xs = {t. in_heap (tnode s t)}" using ok by (auto simp: timers_ok_def)
  obtain s' where s': "remove_from_heap t s = Some s'" "heaped (set xs - {t}) s s'"
    using remove_from_heap_heaped [OF xs(1,2)] t xs(3) by auto
  have p: "payload s' = payload s" using s'(2) by (simp add: heaped_def)
  note pr = payload_running [OF p]
  have "timers_ok (set_in_heap t False s')" using xs(3) pr(3) by (intro heaped_ok [OF s'(2)]) auto
  moreover have "running (set_in_heap t False s') = (running s)(t := None)" using pr(1) by (simp add: running_set_in_heap)
  ultimately show ?thesis using s' pr(2) xs(3) by auto
qed

lemma sel_stop_timer_law:
  assumes "timers_ok s"
  shows "\<exists>s'. sel_stop_timer t s = Some (if running s t = None then ETIMEDOUT else 0, s') \<and> timers_ok s' \<and>
    running s' = (running s)(t := None) \<and> handlers s' = handlers s"
proof (cases "in_heap (tnode s t)")
  case True
  from stop_heap [OF assms True] show ?thesis using True by (auto simp: sel_stop_timer_def running_def)
next
  case False
  then have "(running s)(t := None) = running s" by (auto simp: running_def)
  then show ?thesis using False assms by (simp add: sel_stop_timer_def) (simp add: running_def)
qed

lemma add_heap:
  assumes h: "heaped S s s1" "S = {x. in_heap (tnode s x)} - {t}" and s2_def: "s2 = t_upd t (\<lambda>n. n\<lparr>tm_timeout := w\<rparr>) s1"
  shows "\<exists>s'. add_to_heap t s2 = Some s' \<and> timers_ok (set_in_heap t True s') \<and> running (set_in_heap t True s') = (running s)(t \<mapsto> w) \<and>
    handlers s' = handlers s"
proof -
  obtain xs where xs: "rep xs s1" "set xs = S" "heap (stamps s1 xs) (length xs)" using h(1) by (auto simp: heaped_def)
  have p1: "payload s1 = payload s" using h(1) by (simp add: heaped_def)
  have t: "t \<notin> set xs" using h(2) xs(2) by simp
  have f: "lf s2 x = lf s1 x" "rt s2 x = rt s1 x" "ab s2 x = ab s1 x" "timer_top s2 = timer_top s1" "timer_last s2 = timer_last s1"
    "tv s2 x = (if x = t then w else tv s1 x)" "in_heap (tnode s2 x) = in_heap (tnode s1 x)" "handlers s2 = handlers s1" for x
    by (auto simp: s2_def t_upd_def handlers_def)
  have "rep xs s2" by (rule rep_frame [OF xs(1)]) (simp_all add: f)
  moreover have "stamps s2 xs k = stamps s1 xs k" if "1 \<le> k" "k \<le> length xs" for k
    using pos_Some [OF that] pos_range t f(6) by (fastforce simp: stamps_def)
  then have "heap (stamps s2 xs) (length xs)" using xs(3) by (auto simp: heap_def)
  ultimately obtain s' where s': "add_to_heap t s2 = Some s'" "heaped (insert t (set xs)) s2 s'"
    using add_to_heap_heaped [OF _ _ t] by blast
  have p: "payload s' = payload s2" using s'(2) by (simp add: heaped_def)
  note pr = payload_running [OF p] and pr1 = payload_running [OF p1]
  have "timers_ok (set_in_heap t True s')" using xs(2) h(2) pr(3) pr1(3) f(7) by (intro heaped_ok [OF s'(2)]) auto
  moreover have "running (set_in_heap t True s') = (running s)(t \<mapsto> w)"
  proof -
    have "(running s')(t \<mapsto> w) = (running s1)(t \<mapsto> w)" unfolding pr(1) using f(6,7) by (auto simp: running_def)
    then show ?thesis using payload_tv [OF p, of t] f(6) pr1(1) by (simp add: running_set_in_heap)
  qed
  ultimately show ?thesis using s'(1) pr(2) pr1(2) f(8) by auto
qed

lemma sel_start_timer_law:
  assumes ok: "timers_ok s"
  shows "\<exists>s'. sel_start_timer t w s = Some s' \<and> timers_ok s' \<and> running s' = (running s)(t \<mapsto> w) \<and> handlers s' = handlers s"
proof -
  obtain s1 where s1: "(if in_heap (tnode s t) then remove_from_heap t s else Some s) = Some s1" "heaped ({x. in_heap (tnode s x)} - {t}) s s1"
  proof (cases "in_heap (tnode s t)")
    case True
    then show ?thesis using stop_heap [OF ok True] that by auto
  next
    case False
    obtain xs where "rep xs s" "heap (stamps s xs) (length xs)" "set xs = {t. in_heap (tnode s t)}" using ok by (auto simp: timers_ok_def)
    then have "heaped ({x. in_heap (tnode s x)} - {t}) s s" using False by (intro heapedI) auto
    then show ?thesis using that False by simp
  qed
  from add_heap [OF s1(2) refl refl, of w] show ?thesis using s1(1) by (auto simp: sel_start_timer_def)
qed

lemma first_due:
  assumes "timers_ok s"
  shows "timer_top s = None \<Longrightarrow> running s = Map.empty"
    and "timer_top s = Some t \<Longrightarrow> running s t = Some (tv s t) \<and> (\<forall>t' w'. running s t' = Some w' \<longrightarrow> tv s t \<le> w')"
proof -
  obtain xs where xs: "rep xs s" "heap (stamps s xs) (length xs)" "set xs = {t. in_heap (tnode s t)}" using assms by (auto simp: timers_ok_def)
  have t: "timer_top s = pos xs 1" using xs(1) by (simp add: rep_def)
  show "running s = Map.empty" if "timer_top s = None"
  proof -
    have "xs = []" using t that by (cases xs) (auto simp: pos_def)
    then show ?thesis using xs(3) by (auto simp: running_def)
  qed
  have root: "stamps s xs 1 \<le> stamps s xs k" if "1 \<le> k" "k \<le> length xs" for k
    using that
  proof (induction k rule: less_induct)
    case (less k)
    show ?case
    proof (cases "k = 1")
      case False
      then have "2 \<le> k" "1 \<le> k div 2" "k div 2 < k" using less.prems by linarith+
      then have "stamps s xs 1 \<le> stamps s xs (k div 2)" "stamps s xs (k div 2) \<le> stamps s xs k"
        using less xs(2) by (auto simp: heap_def)
      then show ?thesis by simp
    qed simp
  qed
  show "running s t = Some (tv s t) \<and> (\<forall>t' w'. running s t' = Some w' \<longrightarrow> tv s t \<le> w')" if "timer_top s = Some t"
  proof -
    have p: "pos xs 1 = Some t" using t that by simp
    have le: "tv s t \<le> tv s t'" if "in_heap (tnode s t')" for t'
    proof -
      obtain k where k: "pos xs k = Some t'" using \<open>in_heap (tnode s t')\<close> xs(3) pos_set by blast
      then show ?thesis using root [of k] pos_range [OF k] p by (simp add: stamps_def)
    qed
    have "running s t = Some (tv s t)" using pos_range [OF p] xs(3) by (auto simp: running_def)
    moreover have "tv s t \<le> w'" if "running s t' = Some w'" for t' w'
      using that le [of t'] unfolding running_def by (metis option.distinct(1) option.inject)
    ultimately show ?thesis by blast
  qed
qed

interpretation heap_queue: timer_queue sel_start_timer sel_stop_timer timer_top running timers_ok
proof unfold_locales
  fix s :: "'a timers" and t w assume ok: "timers_ok s"
  show "\<exists>s'. sel_start_timer t w s = Some s' \<and> timers_ok s' \<and> running s' = (running s)(t \<mapsto> w)" using sel_start_timer_law [OF ok] by blast
  show "\<exists>s'. sel_stop_timer t s = Some (if running s t = None then ETIMEDOUT else 0, s') \<and> timers_ok s' \<and> running s' = (running s)(t := None)"
    using sel_stop_timer_law [OF ok] by blast
  show "finite (dom (running s))"
  proof -
    obtain xs where "set xs = {t. in_heap (tnode s t)}" using ok by (auto simp: timers_ok_def)
    moreover have "dom (running s) = {t. in_heap (tnode s t)}" by (auto simp: running_def split: if_splits)
    ultimately show ?thesis by (metis finite_set)
  qed
  show "timer_top s = None \<Longrightarrow> running s = Map.empty" by (rule first_due(1) [OF ok])
  show "\<exists>w. running s t = Some w \<and> (\<forall>t' w'. running s t' = Some w' \<longrightarrow> w \<le> w')" if "timer_top s = Some t"
    using first_due(2) [OF ok that] by blast
qed

text \<open>A new timer does not run, and a timer that is freed is taken out of the heap first.\<close>

lemma sel_alloc_timer_law:
  assumes "timers_ok s" "running s t = None"
  shows "timers_ok (snd (sel_alloc_timer h (Some t) s)) \<and> running (snd (sel_alloc_timer h (Some t) s)) = running s"
proof -
  let ?s = "snd (sel_alloc_timer h (Some t) s)"
  obtain xs where xs: "rep xs s" "heap (stamps s xs) (length xs)" "set xs = {t. in_heap (tnode s t)}" using assms(1) by (auto simp: timers_ok_def)
  have n: "\<not> in_heap (tnode s t)" using assms(2) by (auto simp: running_def split: if_splits)
  have "timers_ok ?s" using n xs(3) by (intro heaped_ok [OF heapedI [OF xs(1) refl xs(2) refl]]) (auto simp: sel_alloc_timer_def t_upd_def)
  moreover have "running ?s = running s" using n by (auto simp: running_def sel_alloc_timer_def t_upd_def)
  ultimately show ?thesis by blast
qed

lemma sel_free_timer_law:
  assumes "timers_ok s"
  shows "\<exists>s'. sel_free_timer t s = Some s' \<and> timers_ok s' \<and> running s' = (running s)(t := None)"
proof (cases "in_heap (tnode s t)")
  case True
  obtain r s' where "sel_stop_timer t s = Some (r, s')" "timers_ok s'" "running s' = (running s)(t := None)"
    using sel_stop_timer_law [OF assms] by blast
  then show ?thesis using True by (simp add: sel_free_timer_def)
next
  case False
  then have "(running s)(t := None) = running s" by (auto simp: running_def)
  then show ?thesis using False assms by (simp add: sel_free_timer_def)
qed

lemma timer_ops_law:
  assumes "timers_ok s"
  shows "\<exists>s'. timer_ops ops s = Some s' \<and> timers_ok s' \<and> running s' = active_ops ops (running s) \<and> handlers s' = handlers s"
  using assms
proof (induction ops arbitrary: s)
  case (Cons a ops)
  show ?case
  proof (cases a)
    case (Start t w)
    obtain s1 where s1: "sel_start_timer t w s = Some s1" "timers_ok s1" "running s1 = (running s)(t \<mapsto> w)" "handlers s1 = handlers s"
      using sel_start_timer_law [OF Cons.prems] by blast
    obtain s' where s': "timer_ops ops s1 = Some s'" "timers_ok s'" "running s' = active_ops ops (running s1)" "handlers s' = handlers s1"
      using Cons.IH [OF s1(2)] by blast
    have "timer_ops (a # ops) s = Some s'" using s'(1) s1(1) Start by simp
    moreover have "running s' = active_ops (a # ops) (running s)" using s'(3) by (simp only: s1(3) Start active_ops.simps)
    ultimately show ?thesis using s'(2,4) s1(4) by auto
  next
    case (Stop t)
    obtain r s1 where s1: "sel_stop_timer t s = Some (r, s1)" "timers_ok s1" "running s1 = (running s)(t := None)" "handlers s1 = handlers s"
      using sel_stop_timer_law [OF Cons.prems] by blast
    obtain s' where s': "timer_ops ops s1 = Some s'" "timers_ok s'" "running s' = active_ops ops (running s1)" "handlers s' = handlers s1"
      using Cons.IH [OF s1(2)] by blast
    have "timer_ops (a # ops) s = Some s'" using s'(1) s1(1) Stop by simp
    moreover have "running s' = active_ops (a # ops) (running s)" using s'(3) by (simp only: s1(3) Stop active_ops.simps)
    ultimately show ?thesis using s'(2,4) s1(4) by auto
  qed
qed simp

definition timers0 :: "'h \<Rightarrow> 'h timers" where
  "timers0 h = \<lparr>tnode = (\<lambda>_. \<lparr>tm_handler = h, tm_timeout = (0, 0), in_heap = False, t_left = None, t_right = None, t_up = None\<rparr>),
     timer_top = None, timer_last = None\<rparr>"

lemma timers0_ok: "timers_ok (timers0 h)" "running (timers0 h) = Map.empty"
proof -
  have "rep [] (timers0 h)" by (simp add: rep_def timers0_def)
  then show "timers_ok (timers0 h)" unfolding timers_ok_def by (intro exI [of _ "[]"]) (simp add: heap_def timers0_def)
  show "running (timers0 h) = Map.empty" by (auto simp: running_def timers0_def)
qed

text \<open>
  C10: whatever timers are started, started again and stopped, the operations on the linked heap
  come to an end without going through a null pointer, the running timers with their times are those of
  the map from timers to times, and the top of the heap is one that goes off first.
\<close>

theorem timer_heap_refines:
  "\<exists>s. timer_ops ops (timers0 h) = Some s \<and> running s = active_ops ops Map.empty \<and>
     (case timer_top s of None \<Rightarrow> running s = Map.empty | Some t \<Rightarrow> running s t = Some (Min (ran (running s))))"
proof -
  obtain s where s: "timer_ops ops (timers0 h) = Some s" "timers_ok s" "running s = active_ops ops Map.empty"
    using timer_ops_law [OF timers0_ok(1), of ops h] unfolding timers0_ok(2) by blast
  from heap_queue.first_is_Min [OF s(2)] s(1,3) show ?thesis by blast
qed

section \<open>The timers that are due\<close>

definition usecs :: "timeval \<Rightarrow> int" where
  "usecs w = fst w * 1000000 + snd w"

lemma borrow_usecs: "usecs (borrow w) = usecs w \<and> 0 \<le> snd (borrow w)"
proof (induction w rule: borrow.induct)
  case (1 w)
  then show ?case by (subst (1 2) borrow.simps) (auto simp: usecs_def)
qed

lemma diff_usecs: "b \<le> a \<Longrightarrow> usecs (diff_timeval a b) = usecs a - usecs b"
  using borrow_usecs [of "(fst a - fst b, snd a - snd b)"]
  by (auto simp: diff_timeval_def less_eq_prod_def usecs_def algebra_simps)

text \<open>
  The timers go off one after the other, each time one with the earliest time, which is not after the
  time at which it goes off; its handler starts and stops timers.
\<close>

inductive fires :: "(nat \<Rightarrow> timeval \<Rightarrow> timer_op list) \<Rightarrow> (nat \<Rightarrow> timeval option) \<Rightarrow> (timeval \<times> nat) list \<Rightarrow> (nat \<Rightarrow> timeval option) \<Rightarrow> bool"
  for acts where
  rest: "fires acts m [] m"
| fire: "m t = Some w \<Longrightarrow> (\<forall>t' w'. m t' = Some w' \<longrightarrow> w \<le> w') \<Longrightarrow> w \<le> now \<Longrightarrow>
    fires acts (active_ops (acts t now) (m(t := None))) fs m' \<Longrightarrow> fires acts m ((now, t) # fs) m'"

inductive_simps fires_Cons: "fires acts m ((now, t) # fs) m'"

definition due :: "timeval list \<Rightarrow> (nat \<Rightarrow> timeval option) \<Rightarrow> nat set" where
  "due clock m = {t. \<exists>w. m t = Some w \<and> (\<exists>c\<in>set clock. w \<le> c)}"

lemma active_ops_due:
  assumes "\<And>t w. Start t w \<in> set ops \<Longrightarrow> \<forall>c\<in>set clock. c < w"
  shows "due clock (active_ops ops m) \<subseteq> due clock m"
  using assms
proof (induction ops arbitrary: m)
  case (Cons a ops)
  have "due clock (active_ops ops m') \<subseteq> due clock m'" for m' using Cons.IH [of m'] Cons.prems by (meson list.set_intros(2))
  moreover have "due clock (m(t \<mapsto> w)) \<subseteq> due clock m" if "a = Start t w" for t w
  proof
    fix x assume "x \<in> due clock (m(t \<mapsto> w))"
    then obtain w' c where x: "(m(t \<mapsto> w)) x = Some w'" "c \<in> set clock" "w' \<le> c" unfolding due_def by blast
    then have "x \<noteq> t" using Cons.prems [of t w] that by (metis fun_upd_same leD list.set_intros(1) option.inject)
    then show "x \<in> due clock m" using x unfolding due_def by (metis (mono_tags, lifting) fun_upd_other mem_Collect_eq)
  qed
  moreover have "due clock (m(t := None)) \<subseteq> due clock m" for t by (auto simp: due_def split: if_splits)
  ultimately show ?case by (cases a) (auto 4 3)
qed simp

lemma due_finite: "finite (dom m) \<Longrightarrow> finite (due clock m)"
  by (rule finite_subset) (auto simp: due_def)

text \<open>
  The time to wait: without a limit when no timer is running, and else the time from one of the answers of
  the clock to the earliest of the times, which is later than this answer.
\<close>

definition waits :: "timeval list \<Rightarrow> timeval option \<Rightarrow> (nat \<Rightarrow> timeval option) \<Rightarrow> bool" where
  "waits clock wait m \<longleftrightarrow>
     (case wait of
        None \<Rightarrow> m = Map.empty
      | Some d \<Rightarrow> \<exists>now\<in>set clock. \<exists>t w. m t = Some w \<and> now < w \<and> (\<forall>t' w'. m t' = Some w' \<longrightarrow> w \<le> w') \<and> usecs d = usecs w - usecs now)"

lemma waits_Cons: "waits clock wait m \<Longrightarrow> waits (now # clock) wait m"
  unfolding waits_def by (cases wait) (simp_all only: option.case list.set, blast)

lemma waits_Some:
  assumes "m t = Some w \<and> (\<forall>t' w'. m t' = Some w' \<longrightarrow> w \<le> w')" "now < w" "usecs d = usecs w - usecs now"
  shows "waits (now # clock) (Some d) m"
  unfolding waits_def option.case using assms by (intro bexI [of _ now] exI [of _ t] exI [of _ w]) auto

text \<open>
  C11: before it waits, the loop lets every timer that is due go off, an earliest one each time, and
  then waits exactly until the next one is due, or without a limit when no timer is running: when the handlers
  start timers only for times later than the clock shows meanwhile, and the clock is asked at most once more
  than there are timers due.
\<close>

theorem due_timers_in_order:
  assumes "timers_ok s" "\<And>h t now t' w. Start t' w \<in> set (acts h t now) \<Longrightarrow> \<forall>c\<in>set clock. c < w"
    and "card (due clock (running s)) < length clock"
  shows "\<exists>fired wait s'. due_timers (\<lambda>h t now. timer_ops (acts h t now)) clock s = Some (fired, wait, s') \<and> timers_ok s' \<and>
    fires (\<lambda>t. acts (handlers s t) t) (running s) fired (running s') \<and>
    waits clock wait (running s')"
  using assms
proof (induction clock arbitrary: s)
  case (Cons now clock)
  note ok = Cons.prems(1) and later = Cons.prems(2) and few = Cons.prems(3)
  show ?case
  proof (cases "timer_top s")
    case None
    then show ?thesis using first_due(1) [OF ok] ok by (auto simp: waits_def intro: fires.rest)
  next
    case (Some t)
    note ft = first_due(2) [OF ok Some]
    show ?thesis
    proof (cases "tv s t \<le> now")
      case False
      then have "usecs (diff_timeval (tv s t) now) = usecs (tv s t) - usecs now" by (intro diff_usecs) simp
      moreover have "due_timers (\<lambda>h t now. timer_ops (acts h t now)) (now # clock) s = Some ([], Some (diff_timeval (tv s t) now), s)"
        using Some False by simp
      moreover have "now < tv s t" using False by simp
      ultimately show ?thesis using waits_Some [OF ft] ok fires.rest [of "\<lambda>t. acts (handlers s t) t" "running s"] by blast
    next
      case True
      have "in_heap (tnode s t)" using ft by (auto simp: running_def split: if_splits)
      from stop_heap [OF ok this] obtain s1 where s1: "remove_from_heap t s = Some s1" "timers_ok (set_in_heap t False s1)"
        "running (set_in_heap t False s1) = (running s)(t := None)" "handlers s1 = handlers s" by blast
      let ?ops = "acts (handlers s t) t now"
      obtain s2 where s2: "timer_ops ?ops (set_in_heap t False s1) = Some s2" "timers_ok s2"
        "running s2 = active_ops ?ops ((running s)(t := None))" "handlers s2 = handlers s"
        using timer_ops_law [OF s1(2), of ?ops] s1(3,4) by auto
      have "due clock (running s2) \<subseteq> due clock ((running s)(t := None))"
        unfolding s2(3) using later by (intro active_ops_due) auto
      moreover have "due clock ((running s)(t := None)) \<subseteq> due (now # clock) (running s) - {t}" by (auto simp: due_def split: if_splits)
      moreover have "t \<in> due (now # clock) (running s)" using ft True unfolding due_def by (metis (mono_tags, lifting) list.set_intros(1) mem_Collect_eq)
      moreover have fin: "finite (due (now # clock) (running s))" using heap_queue.finite_law [OF ok] by (rule due_finite)
      ultimately have "card (due clock (running s2)) < card (due (now # clock) (running s))"
        by (intro psubset_card_mono) blast+
      then have "card (due clock (running s2)) < length clock" using few by simp
      then obtain fired wait s' where s': "due_timers (\<lambda>h t now. timer_ops (acts h t now)) clock s2 = Some (fired, wait, s')" "timers_ok s'"
        "fires (\<lambda>t. acts (handlers s2 t) t) (running s2) fired (running s')"
        "waits clock wait (running s')"
        using Cons.IH [OF s2(2)] later by (meson list.set_intros(2))
      have "tm_handler (tnode s1 t) = handlers s t" using s1(4) by (simp add: handlers_def fun_eq_iff)
      then have "due_timers (\<lambda>h t now. timer_ops (acts h t now)) (now # clock) s = Some ((now, t) # fired, wait, s')"
        using Some True s1(1) s2(1) s'(1) by simp
      moreover have "fires (\<lambda>t. acts (handlers s t) t) (running s) ((now, t) # fired) (running s')"
        using s'(3) ft True unfolding s2(3,4) by (intro fires.fire) auto
      ultimately show ?thesis using s'(2) waits_Cons [OF s'(4)] by blast
    qed
  qed
qed simp

theorem due_timers_in_order_witness:
  "\<exists>s. timer_ops [Start 1 (5, 0), Start 2 (3, 0)] (timers0 ()) = Some s \<and>
    (\<exists>fired wait s'. due_timers (\<lambda>h t now. timer_ops (if t = 2 then [Start 2 (9, 0)] else [])) [(4, 0), (6, 0), (7, 0)] s = Some (fired, wait, s') \<and>
      timers_ok s' \<and> fires (\<lambda>t now. if t = 2 then [Start 2 (9, 0)] else []) (running s) fired (running s') \<and>
      waits [(4, 0), (6, 0), (7, 0)] wait (running s'))"
proof -
  obtain s where s: "timer_ops [Start 1 (5, 0), Start 2 (3, 0)] (timers0 ()) = Some s" "timers_ok s"
    "running s = active_ops [Start 1 (5, 0), Start 2 (3, 0)] Map.empty"
    using timer_ops_law [OF timers0_ok(1), of "[Start 1 (5, 0), Start 2 (3, 0)]" "()"] unfolding timers0_ok(2) by blast
  have "due [(4, 0), (6, 0), (7, 0)] (running s) \<subseteq> {1, 2}" unfolding s(3) by (auto simp: due_def split: if_splits)
  then have "card (due [(4, 0), (6, 0), (7, 0)] (running s)) \<le> card {1, 2 :: nat}" by (intro card_mono) simp_all
  then have "card (due [(4, 0), (6, 0), (7, 0)] (running s)) < length [(4, 0), (6, 0), (7 :: int, 0 :: int)]" by simp
  from due_timers_in_order [OF s(2) _ this, of "\<lambda>h t now. if t = 2 then [Start 2 (9, 0)] else []"] s(1) show ?thesis
    by (auto split: if_splits)
qed

end
