(* ===== verification/Telnet.thy ===== *)
theory Telnet
  imports Ctext
begin

text \<open>
  The telnet layer of ser2net (telnet.c): commands are taken out of the incoming stream, options are
  answered, and option data is sent with its escapes. The callbacks of a connection are the functions
  of a \<open>telnet_cb\<close>; they work on the whole state of the connection, which extends \<open>telnet_data\<close>.
\<close>

section \<open>Definitions\<close>

abbreviation MAX_TELNET_CMD_SIZE :: nat where "MAX_TELNET_CMD_SIZE \<equiv> 31"
abbreviation MAX_TELNET_CMD_XMIT_BUF :: nat where "MAX_TELNET_CMD_XMIT_BUF \<equiv> 256"

abbreviation TN_WILL :: byte where "TN_WILL \<equiv> 251"
abbreviation TN_WONT :: byte where "TN_WONT \<equiv> 252"
abbreviation TN_DO :: byte where "TN_DO \<equiv> 253"
abbreviation TN_DONT :: byte where "TN_DONT \<equiv> 254"
abbreviation TN_IAC :: byte where "TN_IAC \<equiv> 255"

text \<open>An entry of the option table; of its handlers, whether they are set.\<close>

record telnet_cmd =
  option :: byte
  i_will :: bool
  i_do :: bool
  sent_will :: bool
  sent_do :: bool
  rem_will :: bool
  rem_do :: bool
  has_option_handler :: bool
  has_will_handler :: bool

text \<open>
  \<open>out_telnet_cmd\<close> is the part of the output buffer in use, so that its length is
  \<open>out_telnet_cmd_size\<close>; \<open>cmds\<close> is the option table without the entry 255 that ends it.
\<close>

record telnet_data =
  telnet_cmd :: "byte list"
  telnet_cmd_pos :: nat
  suboption_iac :: bool
  out_telnet_cmd :: "byte list"
  td_error :: bool
  cmds :: "telnet_cmd list"

record 's telnet_cb =
  output_ready :: "'s \<Rightarrow> 's"
  cmd_handler :: "byte \<Rightarrow> 's \<Rightarrow> 's"
  option_handler :: "byte \<Rightarrow> byte list \<Rightarrow> 's \<Rightarrow> 's"
  will_handler :: "byte \<Rightarrow> 's \<Rightarrow> bool \<times> 's"

fun find_cmd :: "telnet_cmd list \<Rightarrow> byte \<Rightarrow> nat option" where
  "find_cmd [] opt = None"
| "find_cmd (c # cs) opt = (if option c = opt then Some 0 else map_option Suc (find_cmd cs opt))"

definition telnet_cmd_send :: "('a telnet_data_scheme \<Rightarrow> 'a telnet_data_scheme) \<Rightarrow> byte list \<Rightarrow> 'a telnet_data_scheme \<Rightarrow> 'a telnet_data_scheme" where
  "telnet_cmd_send ready cmd s =
     (let left = MAX_TELNET_CMD_XMIT_BUF - length (out_telnet_cmd s)
      in if length cmd > left then s\<lparr>td_error := True\<rparr>
         else ready (s\<lparr>out_telnet_cmd := out_telnet_cmd s @ cmd\<rparr>))"

definition send_i :: "'a telnet_data_scheme telnet_cb \<Rightarrow> byte \<Rightarrow> byte \<Rightarrow> 'a telnet_data_scheme \<Rightarrow> 'a telnet_data_scheme" where
  "send_i cb type opt s = telnet_cmd_send (output_ready cb) [TN_IAC, type, opt] s"

definition upd_cmd :: "nat \<Rightarrow> (telnet_cmd \<Rightarrow> telnet_cmd) \<Rightarrow> 'a telnet_data_scheme \<Rightarrow> 'a telnet_data_scheme" where
  "upd_cmd i f s = s\<lparr>cmds := (cmds s)[i := f (cmds s ! i)]\<rparr>"

definition handle_will :: "'a telnet_data_scheme telnet_cb \<Rightarrow> byte \<Rightarrow> 'a telnet_data_scheme \<Rightarrow> 'a telnet_data_scheme" where
  "handle_will cb opt s =
     (case find_cmd (cmds s) opt of
        None \<Rightarrow> send_i cb TN_DONT opt s
      | Some i \<Rightarrow>
          (let c = cmds s ! i;
               s = (if \<not> sent_do c then
                      (if \<not> i_will c then send_i cb TN_DONT opt s
                       else
                         (case (if has_will_handler c then will_handler cb opt s else (True, s)) of
                            (rv, s) \<Rightarrow> if rv then send_i cb TN_DO opt s else send_i cb TN_DONT opt s))
                    else upd_cmd i (\<lambda>c. c\<lparr>sent_do := False\<rparr>) s)
           in upd_cmd i (\<lambda>c. c\<lparr>rem_will := True\<rparr>) s))"

definition handle_wont :: "'a telnet_data_scheme telnet_cb \<Rightarrow> byte \<Rightarrow> 'a telnet_data_scheme \<Rightarrow> 'a telnet_data_scheme" where
  "handle_wont cb opt s =
     (case find_cmd (cmds s) opt of
        None \<Rightarrow> send_i cb TN_DONT opt s
      | Some i \<Rightarrow>
          (let s = (if \<not> sent_do (cmds s ! i) then send_i cb TN_DONT opt s
                    else upd_cmd i (\<lambda>c. c\<lparr>sent_do := False\<rparr>) s)
           in upd_cmd i (\<lambda>c. c\<lparr>rem_will := False\<rparr>) s))"

definition handle_do :: "'a telnet_data_scheme telnet_cb \<Rightarrow> byte \<Rightarrow> 'a telnet_data_scheme \<Rightarrow> 'a telnet_data_scheme" where
  "handle_do cb opt s =
     (case find_cmd (cmds s) opt of
        None \<Rightarrow> send_i cb TN_WONT opt s
      | Some i \<Rightarrow>
          (let c = cmds s ! i;
               s = (if \<not> sent_will c then
                      (if \<not> i_do c then send_i cb TN_WONT opt s else send_i cb TN_WILL opt s)
                    else upd_cmd i (\<lambda>c. c\<lparr>sent_will := False\<rparr>) s)
           in upd_cmd i (\<lambda>c. c\<lparr>rem_do := True\<rparr>) s))"

definition handle_dont :: "'a telnet_data_scheme telnet_cb \<Rightarrow> byte \<Rightarrow> 'a telnet_data_scheme \<Rightarrow> 'a telnet_data_scheme" where
  "handle_dont cb opt s =
     (case find_cmd (cmds s) opt of
        None \<Rightarrow> send_i cb TN_WONT opt s
      | Some i \<Rightarrow>
          (let s = (if \<not> sent_will (cmds s ! i) then send_i cb TN_WONT opt s
                    else upd_cmd i (\<lambda>c. c\<lparr>sent_will := False\<rparr>) s)
           in upd_cmd i (\<lambda>c. c\<lparr>rem_do := False\<rparr>) s))"

text \<open>A suboption for an entry without an option handler is a call through a null pointer.\<close>

definition handle_telnet_cmd :: "'a telnet_data_scheme telnet_cb \<Rightarrow> 'a telnet_data_scheme \<Rightarrow> (unit, 'a telnet_data_scheme) outcome" where
  "handle_telnet_cmd cb s =
     (let size = telnet_cmd_pos s;
          cmd_str = telnet_cmd s;
          opt = cmd_str ! 2
      in if size < 2 then Ret () s
         else if cmd_str ! 1 < 250 then Ret () (cmd_handler cb (cmd_str ! 1) s)
         else if cmd_str ! 1 = 250 then
           (case find_cmd (cmds s) opt of
              None \<Rightarrow> Ret () s
            | Some i \<Rightarrow>
                if has_option_handler (cmds s ! i)
                then Ret () (option_handler cb opt (take (size - 2) (drop 2 cmd_str)) s)
                else Wild)
         else if cmd_str ! 1 = 251 then Ret () (handle_will cb opt s)
         else if cmd_str ! 1 = 252 then Ret () (handle_wont cb opt s)
         else if cmd_str ! 1 = 253 then Ret () (handle_do cb opt s)
         else if cmd_str ! 1 = 254 then Ret () (handle_dont cb opt s)
         else Ret () s)"

text \<open>\<open>telnet_send_option\<close> doubles the bytes 255 of the option data.\<close>

fun double_iac :: "byte list \<Rightarrow> byte list" where
  "double_iac [] = []"
| "double_iac (b # bs) = (if b = 255 then [255, 255] else [b]) @ double_iac bs"

definition telnet_send_option :: "('a telnet_data_scheme \<Rightarrow> 'a telnet_data_scheme) \<Rightarrow> byte list \<Rightarrow> 'a telnet_data_scheme \<Rightarrow> 'a telnet_data_scheme" where
  "telnet_send_option ready opt s =
     (let left = MAX_TELNET_CMD_XMIT_BUF - length (out_telnet_cmd s);
          real_len = length opt + length (filter (\<lambda>b. b = 255) opt) + 4
      in if real_len > left then s\<lparr>td_error := True\<rparr>
         else ready (s\<lparr>out_telnet_cmd := out_telnet_cmd s @ [255, 250] @ double_iac opt @ [255, 240]\<rparr>))"

text \<open>\<open>delete_char\<close> closes the gap in the array; the cells from the new length on keep their old values.\<close>

function delete_char :: "byte list \<Rightarrow> nat \<Rightarrow> nat \<Rightarrow> byte list" where
  "delete_char data i len = (if Suc i < len then delete_char (data[i := data ! Suc i]) (Suc i) len else data)"
  by pat_completeness auto
termination
  by (relation "measure (\<lambda>(data, i, len). len - i)") auto

declare delete_char.simps [simp del]

definition store_cmd :: "byte \<Rightarrow> 'a telnet_data_scheme \<Rightarrow> (unit, 'a telnet_data_scheme) outcome" where
  "store_cmd b s =
     (if telnet_cmd_pos s < length (telnet_cmd s)
      then Ret () (s\<lparr>telnet_cmd := (telnet_cmd s)[telnet_cmd_pos s := b], telnet_cmd_pos := Suc (telnet_cmd_pos s)\<rparr>)
      else Wild)"

definition handle_and_reset :: "'a telnet_data_scheme telnet_cb \<Rightarrow> 'a telnet_data_scheme \<Rightarrow> (unit, 'a telnet_data_scheme) outcome" where
  "handle_and_reset cb s = kbind (handle_telnet_cmd cb s) (\<lambda>_ s. Ret () (s\<lparr>telnet_cmd_pos := 0\<rparr>))"

text \<open>The byte \<open>b\<close> inside a command, after it has been taken out of the data.\<close>

definition command_byte :: "'a telnet_data_scheme telnet_cb \<Rightarrow> byte \<Rightarrow> 'a telnet_data_scheme \<Rightarrow> (unit, 'a telnet_data_scheme) outcome" where
  "command_byte cb b s =
     (if telnet_cmd_pos s = 1 then
        kbind (store_cmd b s) (\<lambda>_ s. if b < 250 then handle_and_reset cb s else Ret () s)
      else if telnet_cmd_pos s = 2 then
        kbind (store_cmd b s) (\<lambda>_ s. if telnet_cmd s ! 1 \<noteq> 250 then handle_and_reset cb s else Ret () s)
      else if suboption_iac s then
        kbind
          (if b = 240 then handle_and_reset cb (s\<lparr>telnet_cmd_pos := telnet_cmd_pos s - 1\<rparr>)
           else if b = 255 then Ret () s
           else Ret () (s\<lparr>telnet_cmd_pos := telnet_cmd_pos s - 1\<rparr>))
          (\<lambda>_ s. Ret () (s\<lparr>suboption_iac := False\<rparr>))
      else
        (let s = (if telnet_cmd_pos s > MAX_TELNET_CMD_SIZE then s\<lparr>telnet_cmd_pos := MAX_TELNET_CMD_SIZE\<rparr> else s)
         in kbind (store_cmd b s) (\<lambda>_ s. Ret () (if b = 255 then s\<lparr>suboption_iac := True\<rparr> else s))))"

function process_loop :: "'a telnet_data_scheme telnet_cb \<Rightarrow> byte list \<Rightarrow> nat \<Rightarrow> nat \<Rightarrow> 'a telnet_data_scheme \<Rightarrow>
    (byte list \<times> nat, 'a telnet_data_scheme) outcome" where
  "process_loop cb data i len s =
     (if i < len then
        (let b = data ! i
         in if telnet_cmd_pos s \<noteq> 0 then
              (if telnet_cmd_pos s = 1 \<and> b = 255 then process_loop cb data (Suc i) len (s\<lparr>telnet_cmd_pos := 0\<rparr>)
               else kbind (command_byte cb b s) (\<lambda>_ s. process_loop cb (delete_char data i len) i (len - 1) s))
            else if b = 255 then
              kbind (store_cmd 255 s) (\<lambda>_ s.
                process_loop cb (delete_char data i len) i (len - 1) (s\<lparr>suboption_iac := False\<rparr>))
            else process_loop cb data (Suc i) len s)
      else Ret (data, len) s)"
  by pat_completeness auto
termination
  by (relation "measure (\<lambda>(cb, data, i, len, s). len - i)") auto

declare process_loop.simps [simp del]

definition process_telnet_data :: "'a telnet_data_scheme telnet_cb \<Rightarrow> byte list \<Rightarrow> nat \<Rightarrow> 'a telnet_data_scheme \<Rightarrow>
    (byte list \<times> nat, 'a telnet_data_scheme) outcome" where
  "process_telnet_data cb data len s = (if length data < len then Wild else process_loop cb data 0 len s)"

definition telnet_init :: "'a telnet_data_scheme telnet_cb \<Rightarrow> telnet_cmd list \<Rightarrow> byte list \<Rightarrow> 'a telnet_data_scheme \<Rightarrow> 'a telnet_data_scheme" where
  "telnet_init cb cs init_seq s =
     output_ready cb (s\<lparr>telnet_cmd_pos := 0, td_error := False, cmds := cs, out_telnet_cmd := init_seq\<rparr>)"

section \<open>The loop is a machine that reads one byte at a time\<close>

text \<open>\<open>telnet_byte\<close> gives the data bytes that a received byte leaves in the stream: itself, or none.\<close>

definition telnet_byte :: "'a telnet_data_scheme telnet_cb \<Rightarrow> byte \<Rightarrow> 'a telnet_data_scheme \<Rightarrow> (byte list, 'a telnet_data_scheme) outcome" where
  "telnet_byte cb b s =
     (if telnet_cmd_pos s \<noteq> 0 then
        (if telnet_cmd_pos s = 1 \<and> b = 255 then Ret [b] (s\<lparr>telnet_cmd_pos := 0\<rparr>)
         else kbind (command_byte cb b s) (\<lambda>_ s. Ret [] s))
      else if b = 255 then kbind (store_cmd 255 s) (\<lambda>_ s. Ret [] (s\<lparr>suboption_iac := False\<rparr>))
      else Ret [b] s)"

fun telnet_stream :: "'a telnet_data_scheme telnet_cb \<Rightarrow> byte list \<Rightarrow> 'a telnet_data_scheme \<Rightarrow> (byte list, 'a telnet_data_scheme) outcome" where
  "telnet_stream cb [] s = Ret [] s"
| "telnet_stream cb (b # bs) s =
     kbind (telnet_byte cb b s) (\<lambda>x s. kbind (telnet_stream cb bs s) (\<lambda>y s. Ret (x @ y) s))"

lemma kbind_Ret [simp]: "kbind m Ret = m"
  by (cases m) auto

lemma telnet_stream_append:
  "telnet_stream cb (a @ b) s = kbind (telnet_stream cb a s) (\<lambda>x s. kbind (telnet_stream cb b s) (\<lambda>y s. Ret (x @ y) s))"
  by (induction a arbitrary: s) (simp_all add: kbind_assoc)

lemma delete_char_props:
  assumes "i < len" "len \<le> length data"
  shows "length (delete_char data i len) = length data"
    "take i (delete_char data i len) = take i data"
    "drop i (take (len - 1) (delete_char data i len)) = drop (Suc i) (take len data)"
  using assms
proof (induction data i len rule: delete_char.induct)
  case (1 data i len)
  {
    case 1
    then show ?case using "1.IH"(1) by (subst delete_char.simps) auto
  next
    case 2
    show ?case
    proof (cases "Suc i < len")
      case True
      then have "take (Suc i) (delete_char (data[i := data ! Suc i]) (Suc i) len) = take (Suc i) (data[i := data ! Suc i])"
        using "1.IH"(2) 2 by simp
      then have "take i (delete_char (data[i := data ! Suc i]) (Suc i) len) = take i (data[i := data ! Suc i])"
        by (metis (no_types, lifting) lessI min.absorb1 order.strict_implies_order take_take)
      then show ?thesis using True by (subst delete_char.simps) simp
    qed (subst delete_char.simps, simp)
  next
    case 3
    show ?case
    proof (cases "Suc i < len")
      case True
      let ?d = "data[i := data ! Suc i]"
      let ?e = "delete_char ?d (Suc i) len"
      have e: "drop (Suc i) (take (len - 1) ?e) = drop (Suc (Suc i)) (take len ?d)" "take (Suc i) ?e = take (Suc i) ?d"
        "length ?e = length data" using "1.IH" True 3 by simp_all
      have l: "i < length (take (len - 1) ?e)" using True 3 e(3) by simp
      have "?e ! i = ?d ! i" using arg_cong [OF e(2), of "\<lambda>l. l ! i"] by simp
      then have "drop i (take (len - 1) ?e) = data ! Suc i # drop (Suc (Suc i)) (take len ?d)"
        using Cons_nth_drop_Suc [OF l] e(1) True 3 by simp
      also have "drop (Suc (Suc i)) (take len ?d) = drop (Suc (Suc i)) (take len data)"
        by (simp add: take_update_swap drop_update_cancel)
      also have "data ! Suc i # drop (Suc (Suc i)) (take len data) = drop (Suc i) (take len data)"
        using Cons_nth_drop_Suc [of "Suc i" "take len data"] True 3 by simp
      finally show ?thesis using True by (subst delete_char.simps) simp
    qed (use 3 in \<open>subst delete_char.simps, simp\<close>)
  }
qed

lemma process_loop_stream:
  "i \<le> len \<Longrightarrow> len \<le> length data \<Longrightarrow>
   kbind (process_loop cb data i len s) (\<lambda>(d, n) t. Ret (take n d) t) =
   kbind (telnet_stream cb (drop i (take len data)) s) (\<lambda>x t. Ret (take i data @ x) t)"
proof (induction cb data i len s rule: process_loop.induct)
  case (1 cb data i len s)
  show ?case
  proof (cases "i < len")
    case True
    let ?b = "data ! i"
    let ?e = "delete_char data i len"
    have d: "drop i (take len data) = ?b # drop (Suc i) (take len data)"
      using Cons_nth_drop_Suc [of i "take len data"] True 1(5,6) by simp
    have t: "take (Suc i) data = take i data @ [?b]" using True 1(6) by (simp add: take_Suc_conv_app_nth)
    note p = delete_char_props [OF True 1(6)]
    consider "telnet_cmd_pos s = 1 \<and> ?b = 255" | "telnet_cmd_pos s \<noteq> 0" "\<not> (telnet_cmd_pos s = 1 \<and> ?b = 255)"
      | "telnet_cmd_pos s = 0" "?b = 255" | "telnet_cmd_pos s = 0" "?b \<noteq> 255" by blast
    then show ?thesis
    proof cases
      case 1
      then show ?thesis using "1.IH"(1) [OF True refl] True "1.prems"
        by (subst process_loop.simps) (simp add: d t telnet_byte_def kbind_assoc)
    next
      case 2
      have ih: "kbind (process_loop cb ?e i (len - 1) u) (\<lambda>(d, n) t. Ret (take n d) t) =
          kbind (telnet_stream cb (drop (Suc i) (take len data)) u) (\<lambda>x t. Ret (take i data @ x) t)"
        if "command_byte cb ?b s = Ret v u" for v u
        using "1.IH"(2) [OF True refl 2 that] True "1.prems" p by simp
      have l: "process_loop cb data i len s = kbind (command_byte cb ?b s) (\<lambda>_ s. process_loop cb ?e i (len - 1) s)"
        using True 2 by (subst process_loop.simps) auto
      have "telnet_byte cb ?b s = kbind (command_byte cb ?b s) (\<lambda>_ s. Ret [] s)" using 2 by (auto simp: telnet_byte_def)
      with ih show ?thesis by (cases "command_byte cb ?b s") (simp_all add: l d kbind_assoc)
    next
      case 3
      have ih: "kbind (process_loop cb ?e i (len - 1) (u\<lparr>suboption_iac := False\<rparr>)) (\<lambda>(d, n) t. Ret (take n d) t) =
          kbind (telnet_stream cb (drop (Suc i) (take len data)) (u\<lparr>suboption_iac := False\<rparr>)) (\<lambda>x t. Ret (take i data @ x) t)"
        if "store_cmd 255 s = Ret v u" for v u
        using "1.IH"(3) [OF True refl _ 3(2) that] 3 True "1.prems" p by simp
      show ?thesis using True 3 ih
        by (subst process_loop.simps) (cases "store_cmd 255 s"; simp add: Let_def d telnet_byte_def kbind_assoc)
    next
      case 4
      then show ?thesis using "1.IH"(4) [OF True refl] True "1.prems"
        by (subst process_loop.simps) (simp add: d t telnet_byte_def kbind_assoc)
    qed
  qed (use 1 in \<open>subst process_loop.simps, simp\<close>)
qed

lemma process_loop_lengths:
  "process_loop cb data i len s = Ret (d, n) t \<Longrightarrow> len \<le> length data \<Longrightarrow> length d = length data \<and> n \<le> len"
proof (induction cb data i len s rule: process_loop.induct)
  case (1 cb data i len s)
  show ?case
  proof (cases "i < len")
    case True
    note l = delete_char_props(1) [OF True 1(6)]
    let ?b = "data ! i"
    consider "telnet_cmd_pos s \<noteq> 0" "telnet_cmd_pos s = 1 \<and> ?b = 255"
      | "telnet_cmd_pos s \<noteq> 0" "\<not> (telnet_cmd_pos s = 1 \<and> ?b = 255)"
      | "telnet_cmd_pos s = 0" "?b = 255" | "telnet_cmd_pos s = 0" "?b \<noteq> 255" by blast
    then show ?thesis
    proof cases
      case 1
      then have "process_loop cb data (Suc i) len (s\<lparr>telnet_cmd_pos := 0\<rparr>) = Ret (d, n) t"
        using "1.prems"(1) True by (subst (asm) process_loop.simps) (auto simp: Let_def)
      from "1.IH"(1) [OF True refl 1 this "1.prems"(2)] show ?thesis .
    next
      case 2
      then obtain v u where u: "command_byte cb ?b s = Ret v u" "process_loop cb (delete_char data i len) i (len - 1) u = Ret (d, n) t"
        using "1.prems"(1) True by (subst (asm) process_loop.simps) (auto simp: Let_def kbind_Ret_iff split: if_splits)
      from "1.IH"(2) [OF True refl 2 u] l "1.prems"(2) show ?thesis by force
    next
      case 3
      then obtain v u where u: "store_cmd 255 s = Ret v u"
        "process_loop cb (delete_char data i len) i (len - 1) (u\<lparr>suboption_iac := False\<rparr>) = Ret (d, n) t"
        using "1.prems"(1) True by (subst (asm) process_loop.simps) (auto simp: Let_def kbind_Ret_iff)
      from "1.IH"(3) [OF True refl _ 3(2) u] 3(1) l "1.prems"(2) show ?thesis by force
    next
      case 4
      then have "process_loop cb data (Suc i) len s = Ret (d, n) t"
        using "1.prems"(1) True by (subst (asm) process_loop.simps) (simp add: Let_def)
      from "1.IH"(4) [OF True refl _ 4(2) this "1.prems"(2)] 4(1) show ?thesis by simp
    qed
  next
    case False
    then show ?thesis using "1.prems" by (subst (asm) process_loop.simps) simp
  qed
qed

lemma process_lengths: "process_telnet_data cb data len s = Ret (d, n) t \<Longrightarrow> length d = length data \<and> n \<le> len"
  by (auto simp: process_telnet_data_def split: if_splits dest: process_loop_lengths)

lemma process_count: "process_telnet_data cb data len s = Ret (d, n) t \<Longrightarrow> n \<le> length d"
  using process_lengths [of cb data len s d n t] by (auto simp: process_telnet_data_def split: if_splits)

lemma process_stream:
  "len \<le> length data \<Longrightarrow>
   kbind (process_telnet_data cb data len s) (\<lambda>(d, n) t. Ret (take n d) t) = telnet_stream cb (take len data) s"
  using process_loop_stream [of 0 len data cb s] by (simp add: process_telnet_data_def)

text \<open>
  C7: what is taken out of the stream does not depend on how the network cuts it into
  segments: two segments processed one after the other leave the same data, and the connection in the
  same state, as the two processed as one.
\<close>

theorem telnet_segments:
  "kbind (process_telnet_data cb a (length a) s) (\<lambda>(d, n) t.
     kbind (process_telnet_data cb b (length b) t) (\<lambda>(e, m) u. Ret (take n d @ take m e) u)) =
   kbind (process_telnet_data cb (a @ b) (length (a @ b)) s) (\<lambda>(d, n) t. Ret (take n d) t)"
proof -
  have b: "kbind (process_telnet_data cb b (length b) t) (\<lambda>(e, m) u. Ret (x @ take m e) u) =
      kbind (telnet_stream cb b t) (\<lambda>y u. Ret (x @ y) u)" for t x
    using process_stream [of "length b" b cb t] by (cases "process_telnet_data cb b (length b) t") (auto dest: sym)
  have "kbind (process_telnet_data cb a (length a) s) (\<lambda>(d, n) t. kbind (telnet_stream cb b t) (\<lambda>y u. Ret (take n d @ y) u)) =
      kbind (telnet_stream cb a s) (\<lambda>x t. kbind (telnet_stream cb b t) (\<lambda>y u. Ret (x @ y) u))"
    using process_stream [of "length a" a cb s] by (cases "process_telnet_data cb a (length a) s") (auto dest: sym)
  then show ?thesis
    using process_stream [of "length (a @ b)" "a @ b" cb s] by (simp add: b [unfolded case_prod_unfold] telnet_stream_append case_prod_unfold)
qed

section \<open>What is sent is what is received\<close>

definition but_rx :: "'a telnet_data_scheme \<Rightarrow> 'a telnet_data_scheme" where
  "but_rx s = s\<lparr>telnet_cmd := [], telnet_cmd_pos := 0, suboption_iac := False\<rparr>"

definition idle :: "'a telnet_data_scheme \<Rightarrow> bool" where
  "idle s \<longleftrightarrow> telnet_cmd_pos s = 0 \<and> length (telnet_cmd s) = Suc MAX_TELNET_CMD_SIZE"

lemma stream_doubled:
  "idle s \<Longrightarrow> \<exists>t. telnet_stream cb (double_iac d) s = Ret d t \<and> idle t \<and> but_rx t = but_rx s"
proof (induction d arbitrary: s)
  case (Cons b d)
  show ?case
  proof (cases "b = 255")
    case True
    define u where "u = s\<lparr>telnet_cmd := (telnet_cmd s)[0 := 255], telnet_cmd_pos := 0, suboption_iac := False\<rparr>"
    have u: "idle u" "but_rx u = but_rx s" using Cons.prems by (simp_all add: u_def idle_def but_rx_def)
    have "telnet_stream cb [255, 255] s = Ret [255] u"
      using Cons.prems by (simp add: telnet_byte_def store_cmd_def idle_def u_def)
    then have "telnet_stream cb (double_iac (b # d)) s = kbind (telnet_stream cb (double_iac d) u) (\<lambda>y t. Ret (b # y) t)"
      using telnet_stream_append [of cb "[255, 255]" "double_iac d" s] True by simp
    then show ?thesis using Cons.IH [OF u(1)] u(2) by auto
  next
    case False
    then have "telnet_stream cb (double_iac (b # d)) s = kbind (telnet_stream cb (double_iac d) s) (\<lambda>y t. Ret (b # y) t)"
      using Cons.prems by (simp add: telnet_byte_def idle_def)
    then show ?thesis using Cons.IH [OF Cons.prems] by auto
  qed
qed simp

text \<open>In the middle of a suboption, of which the bytes \<open>q\<close> have been stored.\<close>

definition in_suboption :: "byte list \<Rightarrow> 'a telnet_data_scheme \<Rightarrow> bool" where
  "in_suboption q s \<longleftrightarrow> telnet_cmd_pos s = length q \<and> take (length q) (telnet_cmd s) = q \<and> 3 \<le> length q \<and>
     \<not> suboption_iac s \<and> length (telnet_cmd s) = Suc MAX_TELNET_CMD_SIZE"

lemma suboption_store:
  fixes b :: byte and cb :: "'a telnet_data_scheme telnet_cb"
  assumes "in_suboption q s" "length q \<le> MAX_TELNET_CMD_SIZE"
  defines "u \<equiv> s\<lparr>telnet_cmd := (telnet_cmd s)[length q := b], telnet_cmd_pos := Suc (length q)\<rparr>"
  shows "telnet_byte cb b s = Ret [] (if b = 255 then u\<lparr>suboption_iac := True\<rparr> else u)" "in_suboption (q @ [b]) u"
    "but_rx u = but_rx s"
proof -
  have "take (Suc (length q)) ((telnet_cmd s)[length q := b]) = q @ [b]"
    using assms(1,2) by (simp add: in_suboption_def take_Suc_conv_app_nth)
  then show "in_suboption (q @ [b]) u" using assms(1,2) by (simp add: in_suboption_def u_def)
  show "telnet_byte cb b s = Ret [] (if b = 255 then u\<lparr>suboption_iac := True\<rparr> else u)"
    using assms by (auto simp: telnet_byte_def command_byte_def store_cmd_def in_suboption_def)
  show "but_rx u = but_rx s" by (simp add: u_def but_rx_def)
qed

lemma suboption_doubled:
  "in_suboption q s \<Longrightarrow> length q + length d \<le> Suc MAX_TELNET_CMD_SIZE \<Longrightarrow>
   \<exists>t. telnet_stream cb (double_iac d) s = Ret [] t \<and> in_suboption (q @ d) t \<and> but_rx t = but_rx s"
proof (induction d arbitrary: q s)
  case (Cons b d)
  define u where "u = s\<lparr>telnet_cmd := (telnet_cmd s)[length q := b], telnet_cmd_pos := Suc (length q)\<rparr>"
  have l: "length q \<le> MAX_TELNET_CMD_SIZE" using Cons.prems(2) by simp
  note st = suboption_store [OF Cons.prems(1) l, where b = b, folded u_def]
  have n: "\<not> suboption_iac u" "3 \<le> telnet_cmd_pos u" using st(2) by (simp_all add: in_suboption_def)
  have "telnet_stream cb (if b = 255 then [255, 255] else [b]) s = Ret [] u"
  proof (cases "b = 255")
    case True
    have "telnet_byte cb 255 (u\<lparr>suboption_iac := True\<rparr>) = Ret [] (u\<lparr>suboption_iac := True, suboption_iac := False\<rparr>)"
      using n by (auto simp: telnet_byte_def command_byte_def)
    moreover have "u\<lparr>suboption_iac := True, suboption_iac := False\<rparr> = u" using n by simp
    ultimately show ?thesis using True st(1) by simp
  qed (use st(1) in simp)
  then have "telnet_stream cb (double_iac (b # d)) s = kbind (telnet_stream cb (double_iac d) u) (\<lambda>y t. Ret y t)"
    using telnet_stream_append [of cb "if b = 255 then [255, 255] else [b]" "double_iac d" s] by simp
  moreover obtain t where "telnet_stream cb (double_iac d) u = Ret [] t" "in_suboption ((q @ [b]) @ d) t" "but_rx t = but_rx u"
    using Cons.IH [OF st(2)] Cons.prems(2) by auto
  ultimately show ?case using st(3) by auto
qed simp

lemma suboption_end:
  assumes "in_suboption q s" "length q \<le> MAX_TELNET_CMD_SIZE" "q = 255 # 250 # opt" "find_cmd (cmds s) (hd opt) = Some i"
  shows "\<exists>u. but_rx u = but_rx s \<and> telnet_stream cb [255, 240] s =
    (if has_option_handler (cmds s ! i)
     then Ret [] ((option_handler cb (hd opt) opt u)\<lparr>telnet_cmd_pos := 0, suboption_iac := False\<rparr>) else Wild)"
proof -
  define v where "v = s\<lparr>telnet_cmd := (telnet_cmd s)[length q := 255], telnet_cmd_pos := Suc (length q)\<rparr>"
  define u where "u = v\<lparr>suboption_iac := True, telnet_cmd_pos := length q\<rparr>"
  note st = suboption_store [OF assms(1,2), where b = 255, folded v_def]
  have t: "take (length q) (telnet_cmd u) = q" "telnet_cmd_pos u = length q" "cmds u = cmds s" "3 \<le> length q"
    using assms(1) by (simp_all add: u_def v_def in_suboption_def)
  obtain o' r where o: "opt = o' # r" using t(4) assms(3) by (cases opt) auto
  have n: "telnet_cmd u ! 1 = 250" "telnet_cmd u ! 2 = o'" "take (length q - 2) (drop 2 (telnet_cmd u)) = opt"
    using arg_cong [OF t(1), of "\<lambda>l. l ! 1"] arg_cong [OF t(1), of "\<lambda>l. l ! 2"] arg_cong [OF t(1), of "drop 2"] t(4) assms(3)
    by (simp_all add: o drop_take)
  have "handle_telnet_cmd cb u = (if has_option_handler (cmds s ! i) then Ret () (option_handler cb (hd opt) opt u) else Wild)"
    using n t assms(4) by (simp add: handle_telnet_cmd_def Let_def o)
  moreover have "telnet_byte cb 240 (v\<lparr>suboption_iac := True\<rparr>) =
      kbind (handle_and_reset cb u) (\<lambda>_ s. Ret [] (s\<lparr>suboption_iac := False\<rparr>))"
    using st(2) t(4) by (auto simp: telnet_byte_def command_byte_def u_def v_def in_suboption_def kbind_assoc)
  moreover have "but_rx u = but_rx s" by (simp add: u_def v_def but_rx_def)
  ultimately show ?thesis using st(1) by (auto simp: handle_and_reset_def)
qed

lemma stream_option:
  assumes "idle s" "opt \<noteq> []" "hd opt \<noteq> 255" "length opt \<le> 29" "find_cmd (cmds s) (hd opt) = Some i"
  shows "\<exists>u. but_rx u = but_rx s \<and> telnet_stream cb ([255, 250] @ double_iac opt @ [255, 240]) s =
    (if has_option_handler (cmds s ! i)
     then Ret [] ((option_handler cb (hd opt) opt u)\<lparr>telnet_cmd_pos := 0, suboption_iac := False\<rparr>) else Wild)"
proof -
  obtain b r where o: "opt = b # r" using assms(2) by (cases opt) auto
  define u where "u = s\<lparr>telnet_cmd := (telnet_cmd s)[0 := 255, 1 := 250, 2 := b], telnet_cmd_pos := 3, suboption_iac := False\<rparr>"
  have c: "length (telnet_cmd s) = 32" "telnet_cmd_pos s = 0" using assms(1) by (simp_all add: idle_def)
  have h: "telnet_stream cb [255, 250, b] s = Ret [] u"
    using c by (simp add: telnet_byte_def command_byte_def store_cmd_def u_def numeral_2_eq_2 [symmetric])
  have "take 3 (telnet_cmd u) = [255, 250, b]"
    using c(1) by (cases "telnet_cmd s" rule: list.exhaust) (auto simp: u_def numeral_eq_Suc length_Suc_conv)
  then have i: "in_suboption [255, 250, b] u" using c by (simp add: in_suboption_def u_def numeral_3_eq_3)
  obtain t where t: "telnet_stream cb (double_iac r) u = Ret [] t" "in_suboption ([255, 250, b] @ r) t" "but_rx t = but_rx u"
    using suboption_doubled [OF i, of r cb] assms(4) o by auto
  have e: "cmds t = cmds s" using arg_cong [OF t(3), of cmds] by (simp add: but_rx_def u_def)
  have "in_suboption (255 # 250 # opt) t" using t(2) o by simp
  from suboption_end [OF this] obtain w where w: "but_rx w = but_rx t" "telnet_stream cb [255, 240] t =
    (if has_option_handler (cmds s ! i)
     then Ret [] ((option_handler cb (hd opt) opt w)\<lparr>telnet_cmd_pos := 0, suboption_iac := False\<rparr>) else Wild)"
    using assms(4,5) e by fastforce
  have eq: "[255, 250] @ double_iac opt @ [255, 240] = [255, 250, b] @ double_iac r @ [255, 240]" using assms(3) o by simp
  have "telnet_stream cb ([255, 250] @ double_iac opt @ [255, 240]) s =
      (if has_option_handler (cmds s ! i)
       then Ret [] ((option_handler cb (hd opt) opt w)\<lparr>telnet_cmd_pos := 0, suboption_iac := False\<rparr>) else Wild)"
    unfolding eq using telnet_stream_append [of cb "[255, 250, b]" "double_iac r @ [255, 240]" s]
      telnet_stream_append [of cb "double_iac r" "[255, 240]" u] h t(1) w(2) by (simp del: telnet_stream.simps append.simps)
  moreover have "but_rx w = but_rx s" using w(1) t(3) by (simp add: u_def but_rx_def)
  ultimately show ?thesis by blast
qed

text \<open>
  C8: what one connection sends with \<open>telnet_send_option\<close>, the other hands to the option
  handler unchanged, 255 bytes included, and nothing of it is left in the data; for options of up to 29
  bytes, what the receive buffer holds beside the marks around them.
\<close>

theorem telnet_option_received:
  assumes "\<not> td_error a" "\<not> td_error (telnet_send_option ready opt a)"
    and "\<forall>s. out_telnet_cmd (ready s) = out_telnet_cmd s \<and> td_error (ready s) = td_error s"
    and "idle s" "opt \<noteq> []" "hd opt \<noteq> 255" "length opt \<le> 29"
    and "find_cmd (cmds s) (hd opt) = Some i" "has_option_handler (cmds s ! i)"
  shows "\<exists>w u d n. out_telnet_cmd (telnet_send_option ready opt a) = out_telnet_cmd a @ w \<and> but_rx u = but_rx s \<and>
    process_telnet_data cb w (length w) s =
      Ret (d, n) ((option_handler cb (hd opt) opt u)\<lparr>telnet_cmd_pos := 0, suboption_iac := False\<rparr>) \<and> n = 0"
proof -
  define w where "w = [255, 250] @ double_iac opt @ [255, 240]"
  have "out_telnet_cmd (telnet_send_option ready opt a) = out_telnet_cmd a @ w"
    using assms(1,2,3) by (auto simp: telnet_send_option_def Let_def w_def split: if_splits)
  moreover obtain u where u: "but_rx u = but_rx s"
    "telnet_stream cb w s = Ret [] ((option_handler cb (hd opt) opt u)\<lparr>telnet_cmd_pos := 0, suboption_iac := False\<rparr>)"
    using stream_option [OF assms(4-8)] assms(9) by (auto simp: w_def)
  moreover obtain d n where "process_telnet_data cb w (length w) s =
      Ret (d, n) ((option_handler cb (hd opt) opt u)\<lparr>telnet_cmd_pos := 0, suboption_iac := False\<rparr>)" "take n d = []"
    using process_stream [of "length w" w cb s] u(2) by (auto simp: kbind_Ret_iff)
  moreover from this have "n = 0" using process_count by fastforce
  ultimately show ?thesis by blast
qed

definition td0 :: "telnet_cmd list \<Rightarrow> telnet_data" where
  "td0 cs = \<lparr>telnet_cmd = replicate 32 0, telnet_cmd_pos = 0, suboption_iac = False, out_telnet_cmd = [], td_error = False, cmds = cs\<rparr>"

definition tcmd0 :: "byte \<Rightarrow> telnet_cmd" where
  "tcmd0 opt = \<lparr>option = opt, i_will = True, i_do = True, sent_will = True, sent_do = False, rem_will = False, rem_do = False,
     has_option_handler = True, has_will_handler = False\<rparr>"

text \<open>Callbacks of a connection that answers an option with the option itself.\<close>

definition echo_cb :: "'a telnet_data_scheme telnet_cb" where
  "echo_cb = \<lparr>output_ready = (\<lambda>s. s), cmd_handler = (\<lambda>b s. s), option_handler = (\<lambda>b d s. telnet_send_option (\<lambda>s. s) d s),
     will_handler = (\<lambda>b s. (True, s))\<rparr>"

theorem telnet_option_received_witness:
  "\<exists>w u d n. out_telnet_cmd (telnet_send_option (\<lambda>s. s) [44, 255, 1] (td0 [])) = out_telnet_cmd (td0 []) @ w \<and>
     but_rx u = but_rx (td0 [tcmd0 44]) \<and> process_telnet_data echo_cb w (length w) (td0 [tcmd0 44]) =
      Ret (d, n) ((option_handler echo_cb (hd [44, 255, 1]) [44, 255, 1] u)\<lparr>telnet_cmd_pos := 0, suboption_iac := False\<rparr>) \<and> n = 0"
  by (rule telnet_option_received [where i = 0]) (simp_all add: td0_def tcmd0_def idle_def telnet_send_option_def)

section \<open>Callbacks and the receive state\<close>

text \<open>
  What \<open>process_telnet_data\<close> needs of the callbacks of a connection: they leave the receive buffer and
  the handlers of the option table alone, and keep the output within its buffer.
\<close>

definition rx :: "'a telnet_data_scheme \<Rightarrow> byte list \<times> nat \<times> bool" where
  "rx s = (telnet_cmd s, telnet_cmd_pos s, suboption_iac s)"

definition table :: "'a telnet_data_scheme \<Rightarrow> (byte \<times> bool) list" where
  "table s = map (\<lambda>c. (option c, has_option_handler c)) (cmds s)"

definition tn_kept :: "'a telnet_data_scheme \<Rightarrow> 'a telnet_data_scheme \<Rightarrow> bool" where
  "tn_kept s t \<longleftrightarrow> rx t = rx s \<and> table t = table s \<and>
     (length (out_telnet_cmd s) \<le> MAX_TELNET_CMD_XMIT_BUF \<longrightarrow> length (out_telnet_cmd t) \<le> MAX_TELNET_CMD_XMIT_BUF)"

definition tn_ok :: "'a telnet_data_scheme \<Rightarrow> bool" where
  "tn_ok s \<longleftrightarrow> length (telnet_cmd s) = Suc MAX_TELNET_CMD_SIZE \<and> telnet_cmd_pos s \<le> Suc MAX_TELNET_CMD_SIZE \<and>
     length (out_telnet_cmd s) \<le> MAX_TELNET_CMD_XMIT_BUF"

lemma tn_kept_refl [simp]: "tn_kept s s"
  by (simp add: tn_kept_def)

lemma tn_kept_trans: "tn_kept s t \<Longrightarrow> tn_kept t u \<Longrightarrow> tn_kept s u"
  by (auto simp: tn_kept_def)

lemma tn_kept_ok: "tn_kept s t \<Longrightarrow> tn_ok s \<Longrightarrow> tn_ok t"
  by (auto simp: tn_kept_def tn_ok_def rx_def)

lemma tn_kept_upd: "(\<And>c. option (f c) = option c \<and> has_option_handler (f c) = has_option_handler c) \<Longrightarrow> tn_kept s (upd_cmd i f s)"
  by (cases "i < length (cmds s)")
     (simp_all add: tn_kept_def upd_cmd_def rx_def table_def map_update list_update_same_conv list_update_beyond)

text \<open>Which suboption ends in a call through a null pointer.\<close>

definition null_option :: "(byte \<times> bool) list \<Rightarrow> byte \<Rightarrow> bool" where
  "null_option tab opt \<longleftrightarrow> map_of tab opt = Some False"

lemma find_cmd_table: "map_of (table s) opt = map_option (\<lambda>i. has_option_handler (cmds s ! i)) (find_cmd (cmds s) opt)"
proof -
  have "map_of (map (\<lambda>c. (option c, has_option_handler c)) cs) opt = map_option (\<lambda>i. has_option_handler (cs ! i)) (find_cmd cs opt)" for cs
    by (induction cs) (auto simp: option.map_comp comp_def)
  then show ?thesis by (simp add: table_def)
qed

lemma send_option_kept: "(\<And>s. tn_kept s (ready s)) \<Longrightarrow> tn_kept s (telnet_send_option ready m s)"
proof -
  assume r: "\<And>s. tn_kept s (ready s)"
  have l: "length (double_iac m) = length m + length (filter (\<lambda>b. b = 255) m)" by (induction m) auto
  have "tn_kept s (s\<lparr>out_telnet_cmd := out_telnet_cmd s @ [255, 250] @ double_iac m @ [255, 240]\<rparr>)"
    if "length m + length (filter (\<lambda>b. b = 255) m) + 4 \<le> MAX_TELNET_CMD_XMIT_BUF - length (out_telnet_cmd s)"
    using that l by (auto simp: tn_kept_def rx_def table_def)
  moreover have "tn_kept s (s\<lparr>td_error := True\<rparr>)" by (simp add: tn_kept_def rx_def table_def)
  ultimately show ?thesis by (auto simp: telnet_send_option_def Let_def intro: tn_kept_trans [OF _ r])
qed

locale telnet_client =
  fixes cb :: "'a telnet_data_scheme telnet_cb"
  assumes ready_kept: "tn_kept s (output_ready cb s)"
    and command_kept: "tn_kept s (cmd_handler cb b s)"
    and option_kept: "tn_kept s (option_handler cb b d s)"
    and will_kept: "will_handler cb b s = (r, t) \<Longrightarrow> tn_kept s t"
begin

lemma send_kept: "tn_kept s (telnet_cmd_send (output_ready cb) m s)"
proof -
  have "tn_kept s (s\<lparr>out_telnet_cmd := out_telnet_cmd s @ m\<rparr>)" if "length m \<le> MAX_TELNET_CMD_XMIT_BUF - length (out_telnet_cmd s)"
    using that by (auto simp: tn_kept_def rx_def table_def)
  moreover have "tn_kept s (s\<lparr>td_error := True\<rparr>)" by (simp add: tn_kept_def rx_def table_def)
  ultimately show ?thesis by (auto simp: telnet_cmd_send_def Let_def intro: tn_kept_trans [OF _ ready_kept])
qed

lemma negotiation_kept:
  "tn_kept s (handle_will cb b s)" "tn_kept s (handle_wont cb b s)" "tn_kept s (handle_do cb b s)" "tn_kept s (handle_dont cb b s)"
proof -
  have u: "tn_kept s t \<Longrightarrow> tn_kept s (upd_cmd i (\<lambda>c. c\<lparr>rem_will := v\<rparr>) t)" "tn_kept s t \<Longrightarrow> tn_kept s (upd_cmd i (\<lambda>c. c\<lparr>rem_do := v\<rparr>) t)"
    "tn_kept s t \<Longrightarrow> tn_kept s (upd_cmd i (\<lambda>c. c\<lparr>sent_will := v\<rparr>) t)" "tn_kept s t \<Longrightarrow> tn_kept s (upd_cmd i (\<lambda>c. c\<lparr>sent_do := v\<rparr>) t)"
    for t i v by (rule tn_kept_trans, assumption, rule tn_kept_upd, simp)+
  have i: "tn_kept s (send_i cb ty b t)" if "tn_kept s t" for ty t
    unfolding send_i_def using that send_kept tn_kept_trans by blast
  show "tn_kept s (handle_wont cb b s)" "tn_kept s (handle_do cb b s)" "tn_kept s (handle_dont cb b s)"
    by (auto simp: handle_wont_def handle_do_def handle_dont_def Let_def u i split: option.split)
  show "tn_kept s (handle_will cb b s)"
    by (auto simp: handle_will_def Let_def u i split: option.split prod.split dest: will_kept)
qed

lemma handle_cases:
  "if 2 \<le> telnet_cmd_pos s \<and> telnet_cmd s ! 1 = 250 \<and> null_option (table s) (telnet_cmd s ! 2)
   then handle_telnet_cmd cb s = Wild else \<exists>t. handle_telnet_cmd cb s = Ret () t \<and> tn_kept s t"
  by (auto simp: handle_telnet_cmd_def Let_def null_option_def find_cmd_table command_kept option_kept negotiation_kept split: option.splits)

lemma and_reset:
  assumes "tn_ok s"
  shows "if 2 \<le> telnet_cmd_pos s \<and> telnet_cmd s ! 1 = 250 \<and> null_option (table s) (telnet_cmd s ! 2)
    then handle_and_reset cb s = Wild else \<exists>t. handle_and_reset cb s = Ret () t \<and> tn_ok t \<and> table t = table s"
proof -
  have "tn_ok (t\<lparr>telnet_cmd_pos := 0\<rparr>) \<and> table (t\<lparr>telnet_cmd_pos := 0\<rparr>) = table s" if "tn_kept s t" for t
    using tn_kept_ok [OF that assms] that by (auto simp: tn_ok_def tn_kept_def table_def)
  then show ?thesis using handle_cases [of s] by (auto simp: handle_and_reset_def split: if_splits)
qed

lemma byte_cases:
  assumes ok: "tn_ok s"
  shows "if 3 \<le> telnet_cmd_pos s \<and> suboption_iac s \<and> b = 240 \<and> telnet_cmd s ! 1 = 250 \<and> null_option (table s) (telnet_cmd s ! 2)
    then telnet_byte cb b s = Wild else \<exists>x t. telnet_byte cb b s = Ret x t \<and> tn_ok t \<and> table t = table s"
proof -
  have store: "\<exists>t. store_cmd c u = Ret () t \<and> tn_ok t \<and> table t = table s \<and> telnet_cmd t = (telnet_cmd u)[telnet_cmd_pos u := c] \<and>
      telnet_cmd_pos t = Suc (telnet_cmd_pos u)"
    if "tn_ok u" "table u = table s" "telnet_cmd_pos u \<le> MAX_TELNET_CMD_SIZE" for c u
    using that by (auto simp: store_cmd_def tn_ok_def table_def)
  have l: "length (telnet_cmd s) = 32" using ok by (simp add: tn_ok_def)
  have keep: "tn_ok (t\<lparr>suboption_iac := v\<rparr>) = tn_ok t" "table (t\<lparr>suboption_iac := v\<rparr>) = table t" "table (t\<lparr>telnet_cmd_pos := k\<rparr>) = table t"
    "tn_ok s \<Longrightarrow> tn_ok (s\<lparr>telnet_cmd_pos := telnet_cmd_pos s - 1\<rparr>)" for t v k by (auto simp: tn_ok_def table_def)
  consider "telnet_cmd_pos s = 0" | "telnet_cmd_pos s = 1" | "telnet_cmd_pos s = 2"
    | "3 \<le> telnet_cmd_pos s" "suboption_iac s" | "3 \<le> telnet_cmd_pos s" "\<not> suboption_iac s" by linarith
  then show ?thesis
  proof cases
    case 1
    then show ?thesis using store [OF ok refl, of 255] ok by (auto simp: telnet_byte_def keep)
  next
    case 2
    obtain t where t: "store_cmd b s = Ret () t" "tn_ok t" "table t = table s" "telnet_cmd t = (telnet_cmd s)[1 := b]" "telnet_cmd_pos t = 2"
      using store [OF ok refl, of b] 2 by auto
    have "\<exists>u. handle_and_reset cb t = Ret () u \<and> tn_ok u \<and> table u = table s" if "b < 250"
      using and_reset [OF t(2)] that t l by (auto split: if_splits)
    then show ?thesis using 2 t ok by (auto simp: telnet_byte_def command_byte_def keep tn_ok_def table_def)
  next
    case 3
    obtain t where t: "store_cmd b s = Ret () t" "tn_ok t" "table t = table s" "telnet_cmd t = (telnet_cmd s)[2 := b]"
      using store [OF ok refl, of b] 3 by auto
    have "\<exists>u. handle_and_reset cb t = Ret () u \<and> tn_ok u \<and> table u = table s" if "telnet_cmd t ! 1 \<noteq> 250"
      using and_reset [OF t(2)] that t(3) by (auto split: if_splits)
    then show ?thesis using 3 t by (auto simp: telnet_byte_def command_byte_def)
  next
    case 4
    then have p: "2 \<le> telnet_cmd_pos s - 1" by simp
    have b: "telnet_byte cb b s = kbind (if b = 240 then handle_and_reset cb (s\<lparr>telnet_cmd_pos := telnet_cmd_pos s - 1\<rparr>)
        else if b = 255 then Ret () s else Ret () (s\<lparr>telnet_cmd_pos := telnet_cmd_pos s - 1\<rparr>)) (\<lambda>_ s. Ret [] (s\<lparr>suboption_iac := False\<rparr>))"
      using 4 by (auto simp: telnet_byte_def command_byte_def kbind_assoc)
    show ?thesis using and_reset [OF keep(4) [OF ok]] 4 p ok keep(4) [OF ok] unfolding b by (auto simp: keep(1,2,3) split: if_splits)
  next
    case 5
    define u where "u = (if telnet_cmd_pos s > MAX_TELNET_CMD_SIZE then s\<lparr>telnet_cmd_pos := MAX_TELNET_CMD_SIZE\<rparr> else s)"
    have "tn_ok u" "table u = table s" "telnet_cmd_pos u \<le> MAX_TELNET_CMD_SIZE" using ok by (auto simp: u_def tn_ok_def table_def)
    from store [OF this, of b] obtain t where t: "store_cmd b u = Ret () t" "tn_ok t" "table t = table s" by blast
    have "telnet_byte cb b s = kbind (store_cmd b u) (\<lambda>_ s. Ret [] (if b = 255 then s\<lparr>suboption_iac := True\<rparr> else s))"
      using 5 by (auto simp: telnet_byte_def command_byte_def kbind_assoc u_def Let_def)
    then show ?thesis using 5(2) t by (auto simp: keep)
  qed
qed

text \<open>The one way to crash: the end of a suboption whose option has no handler.\<close>

lemma stream_cases:
  "tn_ok s \<Longrightarrow> (\<exists>x t. telnet_stream cb d s = Ret x t \<and> tn_ok t \<and> table t = table s) \<or>
    telnet_stream cb d s = Wild \<and> (\<exists>a c x t. d = a @ 240 # c \<and> telnet_stream cb a s = Ret x t \<and> 3 \<le> telnet_cmd_pos t \<and>
      suboption_iac t \<and> null_option (table s) (telnet_cmd t ! 2))"
proof (induction d arbitrary: s)
  case (Cons b d)
  show ?case
  proof (cases "telnet_byte cb b s = Wild")
    case True
    with byte_cases [OF Cons.prems, of b] have "3 \<le> telnet_cmd_pos s" "suboption_iac s" "b = 240" "null_option (table s) (telnet_cmd s ! 2)"
      by (auto split: if_splits)
    moreover have "telnet_stream cb [] s = Ret [] s" "b # d = [] @ b # d" by simp_all
    ultimately show ?thesis using True by (metis kbind.simps(3) telnet_stream.simps(2))
  next
    case False
    with byte_cases [OF Cons.prems, of b] obtain x t where t: "telnet_byte cb b s = Ret x t" "tn_ok t" "table t = table s"
      by (auto split: if_splits)
    from Cons.IH [OF t(2)] show ?thesis
    proof (elim disjE conjE exE, goal_cases)
      case (1 y u)
      then show ?case using t by auto
    next
      case (2 a c y u)
      then have "b # d = (b # a) @ 240 # c" "telnet_stream cb (b # a) s = Ret (x @ y) u" using t(1) by simp_all
      with 2 t show ?case by (metis kbind.simps(1,3) telnet_stream.simps(2))
    qed
  qed
qed simp

end

text \<open>
  Whatever the callbacks and the telnet layer itself leave alone is left alone by a whole segment: the
  part \<open>part\<close> of the state that a client of \<open>process_telnet_data\<close> looks after.
\<close>

locale telnet_frame =
  fixes cb :: "'a telnet_data_scheme telnet_cb" and part :: "'a telnet_data_scheme \<Rightarrow> 'p"
  assumes part_rx: "part (s\<lparr>telnet_cmd := c\<rparr>) = part s" "part (s\<lparr>telnet_cmd_pos := p\<rparr>) = part s"
      "part (s\<lparr>suboption_iac := i\<rparr>) = part s"
    and part_tx: "part (s\<lparr>td_error := e\<rparr>) = part s" "part (s\<lparr>out_telnet_cmd := w\<rparr>) = part s" "part (s\<lparr>cmds := cs\<rparr>) = part s"
    and part_ready: "part (output_ready cb s) = part s"
    and part_command: "part (cmd_handler cb b s) = part s"
    and part_option: "part (option_handler cb b d s) = part s"
    and part_will: "will_handler cb b s = (r, t) \<Longrightarrow> part t = part s"
begin

lemma part_send: "part (telnet_cmd_send (output_ready cb) m s) = part s"
  by (simp add: telnet_cmd_send_def Let_def part_tx part_ready)

lemma part_negotiation:
  "part (handle_will cb b s) = part s" "part (handle_wont cb b s) = part s" "part (handle_do cb b s) = part s" "part (handle_dont cb b s) = part s"
  by (auto simp: handle_will_def handle_wont_def handle_do_def handle_dont_def Let_def upd_cmd_def send_i_def part_send part_tx
      split: option.split prod.split dest: part_will)

lemma part_handle: "handle_telnet_cmd cb s = Ret u t \<Longrightarrow> part t = part s"
  by (auto simp: handle_telnet_cmd_def Let_def part_command part_option part_negotiation split: if_splits option.splits)

lemma part_store: "store_cmd b s = Ret u t \<Longrightarrow> part t = part s"
  by (auto simp: store_cmd_def part_rx split: if_splits)

lemma part_reset: "handle_and_reset cb s = Ret u t \<Longrightarrow> part t = part s"
  by (auto simp: handle_and_reset_def kbind_Ret_iff part_rx dest!: part_handle)

lemma part_byte: "telnet_byte cb b s = Ret x t \<Longrightarrow> part t = part s"
  by (auto simp: telnet_byte_def command_byte_def Let_def kbind_Ret_iff part_rx split: if_splits dest!: part_store part_reset)

lemma part_stream: "telnet_stream cb d s = Ret x t \<Longrightarrow> part t = part s"
  by (induction d arbitrary: s x) (auto simp: kbind_Ret_iff dest!: part_byte)

lemma part_process:
  assumes "process_telnet_data cb data len s = Ret (d, n) t"
  shows "part t = part s"
proof -
  have l: "len \<le> length data" using assms by (auto simp: process_telnet_data_def split: if_splits)
  have "telnet_stream cb (take len data) s = Ret (take n d) t" using process_stream [OF l, of cb s] assms by simp
  then show ?thesis by (rule part_stream)
qed

end

end
