(* ===== verification/Devcfg.thy ===== *)
theory Devcfg
  imports Ctext Complex_Main
begin

text \<open>
  Serial port settings of ser2net (devcfg.c): the words of a device configuration, the settings they
  make, and how settings are shown. Flags have their Linux values; \<open>c_ispeed\<close> and \<open>c_ospeed\<close> are what
  \<open>cfsetispeed\<close> and \<open>cfsetospeed\<close> store.
\<close>

unbundle bit_operations_syntax

section \<open>Definitions\<close>

type_synonym u32 = "32 word"

record termios =
  c_iflag :: u32
  c_oflag :: u32
  c_lflag :: u32
  c_cflag :: u32
  c_ispeed :: u32
  c_ospeed :: u32
  c_vstart :: byte
  c_vstop :: byte
  c_vmin :: byte
  c_vtime :: byte

abbreviation CSIZE :: u32 where "CSIZE \<equiv> 0x30"
abbreviation CS5 :: u32 where "CS5 \<equiv> 0"
abbreviation CS6 :: u32 where "CS6 \<equiv> 0x10"
abbreviation CS7 :: u32 where "CS7 \<equiv> 0x20"
abbreviation CS8 :: u32 where "CS8 \<equiv> 0x30"
abbreviation CSTOPB :: u32 where "CSTOPB \<equiv> 0x40"
abbreviation CREAD :: u32 where "CREAD \<equiv> 0x80"
abbreviation PARENB :: u32 where "PARENB \<equiv> 0x100"
abbreviation PARODD :: u32 where "PARODD \<equiv> 0x200"
abbreviation HUPCL :: u32 where "HUPCL \<equiv> 0x400"
abbreviation CLOCAL :: u32 where "CLOCAL \<equiv> 0x800"
abbreviation CRTSCTS :: u32 where "CRTSCTS \<equiv> 0x80000000"
abbreviation IGNBRK :: u32 where "IGNBRK \<equiv> 1"
abbreviation IXON :: u32 where "IXON \<equiv> 0x400"
abbreviation IXANY :: u32 where "IXANY \<equiv> 0x800"
abbreviation IXOFF :: u32 where "IXOFF \<equiv> 0x1000"

text \<open>The speeds, B50 to B230400.\<close>

abbreviation B300 :: u32 where "B300 \<equiv> 7"
abbreviation B600 :: u32 where "B600 \<equiv> 8"
abbreviation B1200 :: u32 where "B1200 \<equiv> 9"
abbreviation B2400 :: u32 where "B2400 \<equiv> 11"
abbreviation B4800 :: u32 where "B4800 \<equiv> 12"
abbreviation B9600 :: u32 where "B9600 \<equiv> 13"
abbreviation B19200 :: u32 where "B19200 \<equiv> 14"
abbreviation B38400 :: u32 where "B38400 \<equiv> 15"
abbreviation B57600 :: u32 where "B57600 \<equiv> 0x1001"
abbreviation B115200 :: u32 where "B115200 \<equiv> 0x1002"
abbreviation B230400 :: u32 where "B230400 \<equiv> 0x1003"

definition iflag_clear :: "u32 \<Rightarrow> termios \<Rightarrow> termios" where
  "iflag_clear m t = t\<lparr>c_iflag := c_iflag t AND NOT m\<rparr>"

definition iflag_set :: "u32 \<Rightarrow> termios \<Rightarrow> termios" where
  "iflag_set m t = t\<lparr>c_iflag := c_iflag t OR m\<rparr>"

definition cflag_clear :: "u32 \<Rightarrow> termios \<Rightarrow> termios" where
  "cflag_clear m t = t\<lparr>c_cflag := c_cflag t AND NOT m\<rparr>"

definition cflag_set :: "u32 \<Rightarrow> termios \<Rightarrow> termios" where
  "cflag_set m t = t\<lparr>c_cflag := c_cflag t OR m\<rparr>"

definition set_speed :: "u32 \<Rightarrow> termios \<Rightarrow> termios" where
  "set_speed b t = t\<lparr>c_ospeed := b, c_ispeed := b\<rparr>"

text \<open>The masks are IGNBRK to IXON, OPOST, ECHO to IEXTEN of \<open>cfmakeraw\<close>.\<close>

definition cfmakeraw :: "termios \<Rightarrow> termios" where
  "cfmakeraw t =
     cflag_set CS8 (cflag_clear (CSIZE OR PARENB) (iflag_clear 0x5EB
       (t\<lparr>c_oflag := c_oflag t AND NOT 1, c_lflag := c_lflag t AND NOT 0x804B, c_vmin := 1, c_vtime := 0\<rparr>)))"

definition devinit :: "termios \<Rightarrow> termios" where
  "devinit t =
     (let t = set_speed B9600 (cfmakeraw t);
          t = cflag_clear CSTOPB t;
          t = cflag_set CS8 (cflag_clear CSIZE t);
          t = cflag_clear PARENB t;
          t = cflag_clear CLOCAL t;
          t = cflag_clear HUPCL t;
          t = cflag_set CREAD t;
          t = cflag_clear CRTSCTS t;
          t = iflag_clear (IXON OR IXOFF OR IXANY) t
      in iflag_set IGNBRK t)"

text \<open>A device: its settings, what \<open>remctl\<close> and the other words ask for, and the texts they name.\<close>

record dev_info =
  termctl :: termios
  allow_2217 :: bool
  disablebreak :: bool
  banner :: "byte list option"
  trace_read :: "byte list option"
  trace_write :: "byte list option"
  trace_both :: "byte list option"
  shortest :: nat
  maxAge :: "int \<times> int"

text \<open>The functions of readconfig.c that find a banner and a trace file by name.\<close>

definition find_banner :: "byte list \<Rightarrow> (byte list \<times> byte list) list \<Rightarrow> byte list option" where
  "find_banner name banners = map_of banners name"

definition find_tracefile :: "byte list \<Rightarrow> (byte list \<times> byte list) list \<Rightarrow> byte list option" where
  "find_tracefile name tracefiles = map_of tracefiles name"

text \<open>The library functions on strings.\<close>

definition caseeq :: "byte list \<Rightarrow> string \<Rightarrow> bool" where
  "caseeq w k \<longleftrightarrow> map tolower w = map tolower (cbytes k)"

definition casepfx :: "byte list \<Rightarrow> string \<Rightarrow> bool" where
  "casepfx w k \<longleftrightarrow> map tolower (take (length k) w) = map tolower (cbytes k)"

text \<open>\<open>strtok_r\<close> over a whole string: the words between runs of the characters \<open>sep\<close>.\<close>

fun strtok_acc :: "byte list \<Rightarrow> byte list \<Rightarrow> byte list \<Rightarrow> byte list list" where
  "strtok_acc sep [] w = (if w = [] then [] else [w])"
| "strtok_acc sep (c # r) w =
     (if c \<in> set sep then (if w = [] then strtok_acc sep r [] else w # strtok_acc sep r [])
      else strtok_acc sep r (w @ [c]))"

definition strtok :: "byte list \<Rightarrow> byte list \<Rightarrow> byte list list" where
  "strtok sep s = strtok_acc sep s []"

text \<open>\<open>strtoul\<close> in base 10 with a 32-bit \<open>long\<close>; \<open>None\<close> when there is no number.\<close>

definition strtoul :: "byte list \<Rightarrow> u32 option" where
  "strtoul w =
     (let w = dropWhile isspace w;
          neg = (w \<noteq> [] \<and> hd w = 45);
          w = (if w \<noteq> [] \<and> (hd w = 45 \<or> hd w = 43) then tl w else w);
          d = takeWhile isdigit w;
          v = digits_value d 0
      in if d = [] then None
         else if v \<ge> 2 ^ 32 then Some (- 1)
         else Some (if neg then - of_nat v else of_nat v))"

text \<open>
  One word of a configuration. The lists are the banners and trace files known; \<open>strtod\<close> is the library's
  conversion to a number of seconds, \<open>None\<close> when there is no number.
\<close>

definition speed_words :: "(string \<times> u32) list" where
  "speed_words = [(''300'', B300), (''600'', B600), (''1200'', B1200), (''2400'', B2400), (''4800'', B4800), (''9600'', B9600),
     (''19200'', B19200), (''38400'', B38400), (''57600'', B57600), (''115200'', B115200)]"

definition line_word :: "byte list \<Rightarrow> termios \<Rightarrow> termios option" where
  "line_word w t =
     (case find (\<lambda>p. caseeq w (fst p)) speed_words of
        Some (k, b) \<Rightarrow> Some (set_speed b t)
      | None \<Rightarrow>
          if caseeq w ''1STOPBIT'' then Some (cflag_clear CSTOPB t)
          else if caseeq w ''2STOPBITS'' then Some (cflag_set CSTOPB t)
          else if caseeq w ''7DATABITS'' then Some (cflag_set CS7 (cflag_clear CSIZE t))
          else if caseeq w ''8DATABITS'' then Some (cflag_set CS8 (cflag_clear CSIZE t))
          else if caseeq w ''NONE'' then Some (cflag_clear PARENB t)
          else if caseeq w ''EVEN'' then Some (cflag_clear PARODD (cflag_set PARENB t))
          else if caseeq w ''ODD'' then Some (cflag_set (PARENB OR PARODD) t)
          else if caseeq w ''XONXOFF'' then Some ((iflag_set (IXON OR IXOFF OR IXANY) t)\<lparr>c_vstart := 17, c_vstop := 19\<rparr>)
          else if caseeq w ''-XONXOFF'' then Some (iflag_clear (IXON OR IXOFF OR IXANY) t)
          else if caseeq w ''RTSCTS'' then Some (cflag_set CRTSCTS t)
          else if caseeq w ''-RTSCTS'' then Some (cflag_clear CRTSCTS t)
          else if caseeq w ''LOCAL'' then Some (cflag_set CLOCAL t)
          else if caseeq w ''-LOCAL'' then Some (cflag_clear CLOCAL t)
          else if caseeq w ''HANGUP_WHEN_DONE'' then Some (cflag_set HUPCL t)
          else if caseeq w ''-HANGUP_WHEN_DONE'' then Some (cflag_clear HUPCL t)
          else None)"

definition dev_word :: "(byte list \<Rightarrow> rat option) \<Rightarrow> (byte list \<times> byte list) list \<Rightarrow> (byte list \<times> byte list) list \<Rightarrow>
    byte list \<Rightarrow> dev_info \<Rightarrow> dev_info option" where
  "dev_word strtod banners tracefiles w d =
     (case line_word w (termctl d) of
        Some t \<Rightarrow> Some (d\<lparr>termctl := t\<rparr>)
      | None \<Rightarrow>
          if caseeq w ''remctl'' then Some (d\<lparr>allow_2217 := True\<rparr>)
          else if caseeq w ''NOBREAK'' then Some (d\<lparr>disablebreak := True\<rparr>)
          else if casepfx w ''tr='' then Some (d\<lparr>trace_read := find_tracefile (drop 3 w) tracefiles\<rparr>)
          else if casepfx w ''tw='' then Some (d\<lparr>trace_write := find_tracefile (drop 3 w) tracefiles\<rparr>)
          else if casepfx w ''tb='' then Some (d\<lparr>trace_both := find_tracefile (drop 3 w) tracefiles\<rparr>)
          else if casepfx w ''shortest='' then
            (case strtoul (drop 9 w) of None \<Rightarrow> None | Some v \<Rightarrow> Some (d\<lparr>shortest := unat v\<rparr>))
          else if casepfx w ''maxAge='' then
            (case strtod (drop 7 w) of
               None \<Rightarrow> None
             | Some v \<Rightarrow>
                 if v < 0 \<or> v > 1000000000 then None
                 else Some (d\<lparr>maxAge := (\<lfloor>v\<rfloor>, \<lfloor>(v - of_int \<lfloor>v\<rfloor>) * 1000000 + 1 / 2\<rfloor>)\<rparr>))
          else case find_banner w banners of None \<Rightarrow> None | Some b \<Rightarrow> Some (d\<lparr>banner := Some b\<rparr>))"

text \<open>
  \<open>devconfig\<close> stops at the first word it does not know; the settings of the words before it stay made.
  When that word is not a banner either, \<open>banner\<close> has been set to the null pointer.
\<close>

fun dev_words :: "(byte list \<Rightarrow> rat option) \<Rightarrow> (byte list \<times> byte list) list \<Rightarrow> (byte list \<times> byte list) list \<Rightarrow>
    byte list list \<Rightarrow> dev_info \<Rightarrow> int \<times> dev_info" where
  "dev_words strtod banners tracefiles [] d = (0, d)"
| "dev_words strtod banners tracefiles (w # ws) d =
     (case dev_word strtod banners tracefiles w d of
        None \<Rightarrow> (-1, if casepfx w ''shortest='' \<or> casepfx w ''maxAge='' then d else d\<lparr>banner := None\<rparr>)
      | Some d \<Rightarrow> dev_words strtod banners tracefiles ws d)"

definition devconfig :: "(byte list \<Rightarrow> rat option) \<Rightarrow> (byte list \<times> byte list) list \<Rightarrow> (byte list \<times> byte list) list \<Rightarrow>
    byte list \<Rightarrow> dev_info \<Rightarrow> int \<times> dev_info" where
  "devconfig strtod banners tracefiles instr d =
     dev_words strtod banners tracefiles (strtok [44, 32, 9] instr)
       (d\<lparr>allow_2217 := False, disablebreak := False, shortest := 0, maxAge := (0, 0), banner := None,
          trace_read := None, trace_write := None, trace_both := None\<rparr>)"

definition baud_string :: "u32 \<Rightarrow> string" where
  "baud_string speed =
     (if speed = B300 then ''300'' else if speed = B1200 then ''1200'' else if speed = B2400 then ''2400''
      else if speed = B4800 then ''4800'' else if speed = B9600 then ''9600'' else if speed = B19200 then ''19200''
      else if speed = B38400 then ''38400'' else if speed = B57600 then ''57600'' else if speed = B115200 then ''115200''
      else ''unknown speed'')"

definition serparm_to_str :: "nat \<Rightarrow> termios \<Rightarrow> byte list" where
  "serparm_to_str n t =
     (let schar = (if c_cflag t AND CSTOPB \<noteq> 0 then 50 else 49);
          dchar = (if c_cflag t AND CSIZE = CS7 then 55 else if c_cflag t AND CSIZE = CS8 then 56 else 63);
          pchar = (if c_cflag t AND PARENB \<noteq> 0 then (if c_cflag t AND PARODD \<noteq> 0 then 79 else 69) else 78)
      in take (n - 1) (cbytes (baud_string (c_ospeed t)) @ [32, pchar, dchar, schar]))"

definition show_devcfg :: "termios \<Rightarrow> byte list" where
  "show_devcfg t =
     (let opt = (\<lambda>b k. if b then cbytes k else [])
      in cbytes (baud_string (c_ospeed t)) @ cbytes '' '' @
         opt (c_iflag t AND IXON \<noteq> 0 \<and> c_iflag t AND IXOFF \<noteq> 0 \<and> c_iflag t AND IXANY \<noteq> 0) ''XONXOFF '' @
         opt (c_cflag t AND CRTSCTS \<noteq> 0) ''RTSCTS '' @
         opt (c_cflag t AND CLOCAL \<noteq> 0) ''LOCAL '' @
         opt (c_cflag t AND HUPCL \<noteq> 0) ''HANGUP_WHEN_DONE '' @
         cbytes (if c_cflag t AND CSTOPB \<noteq> 0 then ''2STOPBITS '' else ''1STOPBIT '') @
         cbytes (if c_cflag t AND CSIZE = CS7 then ''7DATABITS '' else if c_cflag t AND CSIZE = CS8 then ''8DATABITS ''
                 else ''unknown databits '') @
         cbytes (if c_cflag t AND PARENB \<noteq> 0 then (if c_cflag t AND PARODD \<noteq> 0 then ''ODD'' else ''EVEN'') else ''NONE''))"

text \<open>
  The modem control lines of a device on which the calls \<open>TIOCMGET\<close> and \<open>TIOCMSET\<close> succeed.
\<close>

abbreviation TIOCM_DTR :: u32 where "TIOCM_DTR \<equiv> 2"
abbreviation TIOCM_RTS :: u32 where "TIOCM_RTS \<equiv> 4"

definition control_word :: "byte list \<Rightarrow> u32 \<Rightarrow> u32 option" where
  "control_word w status =
     (if caseeq w ''RTSHI'' then Some (status OR TIOCM_RTS)
      else if caseeq w ''RTSLO'' then Some (status AND NOT TIOCM_RTS)
      else if caseeq w ''DTRHI'' then Some (status OR TIOCM_DTR)
      else if caseeq w ''DTRLO'' then Some (status AND NOT TIOCM_DTR)
      else None)"

fun control_words :: "byte list list \<Rightarrow> u32 \<Rightarrow> int \<times> u32" where
  "control_words [] lines = (0, lines)"
| "control_words (w # ws) lines =
     (case control_word w lines of None \<Rightarrow> (-1, lines) | Some l \<Rightarrow> control_words ws l)"

definition setdevcontrol :: "byte list \<Rightarrow> u32 \<Rightarrow> int \<times> u32" where
  "setdevcontrol instr lines = control_words (strtok [32, 9] instr) lines"

definition show_devcontrol :: "u32 \<Rightarrow> byte list" where
  "show_devcontrol status =
     cbytes (if status AND TIOCM_RTS \<noteq> 0 then ''RTSHI '' else ''RTSLO '') @
     cbytes (if status AND TIOCM_DTR \<noteq> 0 then ''DTRHI '' else ''DTRLO '')"

section \<open>What is shown can be read back\<close>

lemma flag_set: "(w OR v) AND m = (w AND m) OR (v AND (m :: u32))"
  by (rule bit_eqI) (auto simp: bit_simps)

text \<open>Taking a line apart into its words.\<close>

lemma strtok_acc_word: "set w \<inter> set sep = {} \<Longrightarrow> strtok_acc sep (w @ r) a = strtok_acc sep r (a @ w)"
  by (induction w arbitrary: a) auto

lemma strtok_words:
  assumes "list_all (\<lambda>w. w \<noteq> [] \<and> set w \<inter> set sep = {}) ws" "c \<in> set sep"
  shows "strtok sep (concat (map (\<lambda>w. w @ [c]) ws) @ r) = ws @ strtok sep r"
  using assms by (induction ws) (auto simp: strtok_def strtok_acc_word)

lemma strtok_last: "w \<noteq> [] \<Longrightarrow> set w \<inter> set sep = {} \<Longrightarrow> strtok sep w = [w]"
  using strtok_acc_word [of w sep "[]" "[]"] by (simp add: strtok_def)

text \<open>The words of a setting.\<close>

definition speed_shown :: "u32 \<Rightarrow> bool" where
  "speed_shown b \<longleftrightarrow> b \<in> {B300, B1200, B2400, B4800, B9600, B19200, B38400, B57600, B115200}"

definition xonxoff_on :: "termios \<Rightarrow> bool" where
  "xonxoff_on t \<longleftrightarrow> c_iflag t AND IXON \<noteq> 0 \<and> c_iflag t AND IXOFF \<noteq> 0 \<and> c_iflag t AND IXANY \<noteq> 0"

definition shown_words :: "termios \<Rightarrow> byte list list" where
  "shown_words t =
     [cbytes (baud_string (c_ospeed t))] @
     (if xonxoff_on t then [cbytes ''XONXOFF''] else []) @
     (if c_cflag t AND CRTSCTS \<noteq> 0 then [cbytes ''RTSCTS''] else []) @
     (if c_cflag t AND CLOCAL \<noteq> 0 then [cbytes ''LOCAL''] else []) @
     (if c_cflag t AND HUPCL \<noteq> 0 then [cbytes ''HANGUP_WHEN_DONE''] else []) @
     [cbytes (if c_cflag t AND CSTOPB \<noteq> 0 then ''2STOPBITS'' else ''1STOPBIT'')] @
     [cbytes (if c_cflag t AND CSIZE = CS7 then ''7DATABITS'' else ''8DATABITS'')]"

definition parity_word :: "termios \<Rightarrow> byte list" where
  "parity_word t = cbytes (if c_cflag t AND PARENB \<noteq> 0 then (if c_cflag t AND PARODD \<noteq> 0 then ''ODD'' else ''EVEN'') else ''NONE'')"

lemma word_spaces:
  "cbytes ''XONXOFF '' = cbytes ''XONXOFF'' @ [32]" "cbytes ''RTSCTS '' = cbytes ''RTSCTS'' @ [32]"
  "cbytes ''LOCAL '' = cbytes ''LOCAL'' @ [32]" "cbytes ''HANGUP_WHEN_DONE '' = cbytes ''HANGUP_WHEN_DONE'' @ [32]"
  "cbytes ''2STOPBITS '' = cbytes ''2STOPBITS'' @ [32]" "cbytes ''1STOPBIT '' = cbytes ''1STOPBIT'' @ [32]"
  "cbytes ''7DATABITS '' = cbytes ''7DATABITS'' @ [32]" "cbytes ''8DATABITS '' = cbytes ''8DATABITS'' @ [32]" "cbytes '' '' = [32]"
  by code_simp+

lemma spaced_if: "concat (map (\<lambda>w. w @ [32]) (if b then [w] else [])) = (if b then w @ [32] else [] :: byte list)"
  by simp

lemma show_devcfg_words:
  assumes "c_cflag t AND CSIZE = CS7 \<or> c_cflag t AND CSIZE = CS8"
  shows "show_devcfg t = concat (map (\<lambda>w. w @ [32]) (shown_words t)) @ parity_word t"
proof -
  have "cbytes (if c_cflag t AND CSIZE = CS7 then ''7DATABITS '' else if c_cflag t AND CSIZE = CS8 then ''8DATABITS ''
                 else ''unknown databits '') =
      cbytes (if c_cflag t AND CSIZE = CS7 then ''7DATABITS'' else ''8DATABITS'') @ [32]"
    using assms word_spaces(7,8) by auto
  moreover have "cbytes (if c_cflag t AND CSTOPB \<noteq> 0 then ''2STOPBITS '' else ''1STOPBIT '') =
      cbytes (if c_cflag t AND CSTOPB \<noteq> 0 then ''2STOPBITS'' else ''1STOPBIT'') @ [32]"
    by (simp add: word_spaces(5,6))
  ultimately show ?thesis
    unfolding show_devcfg_def shown_words_def parity_word_def xonxoff_on_def Let_def map_append concat_append spaced_if word_spaces(1-4,9)
    by (simp split del: if_split)
qed

lemma word_ok: "list_all (\<lambda>w. w \<noteq> [] \<and> set w \<inter> set [44, 32, 9] = {}) (map cbytes [''XONXOFF'', ''RTSCTS'', ''LOCAL'',
    ''HANGUP_WHEN_DONE'', ''2STOPBITS'', ''1STOPBIT'', ''7DATABITS'', ''8DATABITS'', ''ODD'', ''EVEN'', ''NONE'', ''300'', ''1200'', ''2400'',
    ''4800'', ''9600'', ''19200'', ''38400'', ''57600'', ''115200''])"
  by code_simp

lemma strtok_shown:
  assumes "c_cflag t AND CSIZE = CS7 \<or> c_cflag t AND CSIZE = CS8" "speed_shown (c_ospeed t)"
  shows "strtok [44, 32, 9] (show_devcfg t) = shown_words t @ [parity_word t]"
proof -
  have "list_all (\<lambda>w. w \<noteq> [] \<and> set w \<inter> set [44, 32, 9] = {}) (shown_words t @ [parity_word t])"
    using word_ok assms(2) by (auto simp: shown_words_def parity_word_def baud_string_def speed_shown_def)
  then show ?thesis using strtok_words [of "[44, 32, 9]" "shown_words t" 32 "parity_word t"] strtok_last [of "parity_word t"]
    by (simp add: show_devcfg_words [OF assms(1)])
qed

text \<open>Reading the words back, one after the other.\<close>

lemma line_words:
  "line_word (cbytes ''XONXOFF'') t = Some ((iflag_set (IXON OR IXOFF OR IXANY) t)\<lparr>c_vstart := 17, c_vstop := 19\<rparr>)"
  "line_word (cbytes ''RTSCTS'') t = Some (cflag_set CRTSCTS t)"
  "line_word (cbytes ''LOCAL'') t = Some (cflag_set CLOCAL t)"
  "line_word (cbytes ''HANGUP_WHEN_DONE'') t = Some (cflag_set HUPCL t)"
  "line_word (cbytes ''2STOPBITS'') t = Some (cflag_set CSTOPB t)" "line_word (cbytes ''1STOPBIT'') t = Some (cflag_clear CSTOPB t)"
  "line_word (cbytes ''7DATABITS'') t = Some (cflag_set CS7 (cflag_clear CSIZE t))"
  "line_word (cbytes ''8DATABITS'') t = Some (cflag_set CS8 (cflag_clear CSIZE t))"
  "line_word (cbytes ''ODD'') t = Some (cflag_set (PARENB OR PARODD) t)"
  "line_word (cbytes ''EVEN'') t = Some (cflag_clear PARODD (cflag_set PARENB t))"
  "line_word (cbytes ''NONE'') t = Some (cflag_clear PARENB t)"
  by (simp_all add: line_word_def speed_words_def caseeq_def cbytes_def tolower_def isupper_def)

lemma line_word_speed: "speed_shown b \<Longrightarrow> line_word (cbytes (baud_string b)) t = Some (set_speed b t)"
  by (auto simp: speed_shown_def baud_string_def line_word_def speed_words_def caseeq_def cbytes_def tolower_def isupper_def)

definition word_if :: "bool \<Rightarrow> (termios \<Rightarrow> termios) \<Rightarrow> termios \<Rightarrow> termios" where
  "word_if b f t = (if b then f t else t)"

definition read_back :: "termios \<Rightarrow> termios \<Rightarrow> termios" where
  "read_back t t0 =
     (let c = c_cflag t;
          u = word_if (c AND CSIZE \<noteq> CS7) (\<lambda>u. cflag_set CS8 (cflag_clear CSIZE u))
                (word_if (c AND CSIZE = CS7) (\<lambda>u. cflag_set CS7 (cflag_clear CSIZE u))
                (word_if (c AND CSTOPB = 0) (cflag_clear CSTOPB) (word_if (c AND CSTOPB \<noteq> 0) (cflag_set CSTOPB)
                (word_if (c AND HUPCL \<noteq> 0) (cflag_set HUPCL) (word_if (c AND CLOCAL \<noteq> 0) (cflag_set CLOCAL)
                (word_if (c AND CRTSCTS \<noteq> 0) (cflag_set CRTSCTS)
                (word_if (xonxoff_on t) (\<lambda>u. (iflag_set (IXON OR IXOFF OR IXANY) u)\<lparr>c_vstart := 17, c_vstop := 19\<rparr>)
                   (set_speed (c_ospeed t) t0))))))))
      in if c AND PARENB \<noteq> 0 then (if c AND PARODD \<noteq> 0 then cflag_set (PARENB OR PARODD) u else cflag_clear PARODD (cflag_set PARENB u))
         else cflag_clear PARENB u)"

lemma dev_words_line:
  "line_word w (termctl d) = Some t \<Longrightarrow> dev_words sd bs ts (w # ws) d = dev_words sd bs ts ws (d\<lparr>termctl := t\<rparr>)"
  by (simp add: dev_word_def)

lemma dev_words_if:
  assumes "\<And>t. line_word w t = Some (f t)"
  shows "dev_words sd bs ts ((if b then [w] else []) @ ws) d = dev_words sd bs ts ws (d\<lparr>termctl := word_if b f (termctl d)\<rparr>)"
  using dev_words_line [OF assms] by (simp add: word_if_def)

lemma dev_words_shown:
  assumes "speed_shown (c_ospeed t)"
  shows "dev_words sd bs ts (shown_words t @ [parity_word t]) d = (0, d\<lparr>termctl := read_back t (termctl d)\<rparr>)"
proof -
  have e: "shown_words t @ [parity_word t] =
     cbytes (baud_string (c_ospeed t)) #
     (if xonxoff_on t then [cbytes ''XONXOFF''] else []) @
     (if c_cflag t AND CRTSCTS \<noteq> 0 then [cbytes ''RTSCTS''] else []) @
     (if c_cflag t AND CLOCAL \<noteq> 0 then [cbytes ''LOCAL''] else []) @
     (if c_cflag t AND HUPCL \<noteq> 0 then [cbytes ''HANGUP_WHEN_DONE''] else []) @
     (if c_cflag t AND CSTOPB \<noteq> 0 then [cbytes ''2STOPBITS''] else []) @
     (if c_cflag t AND CSTOPB = 0 then [cbytes ''1STOPBIT''] else []) @
     (if c_cflag t AND CSIZE = CS7 then [cbytes ''7DATABITS''] else []) @
     (if c_cflag t AND CSIZE \<noteq> CS7 then [cbytes ''8DATABITS''] else []) @ [parity_word t]"
    by (simp add: shown_words_def)
  show ?thesis
    unfolding e dev_words_line [OF line_word_speed [OF assms]] dev_words_if [OF line_words(1)] dev_words_if [OF line_words(2)]
      dev_words_if [OF line_words(3)] dev_words_if [OF line_words(4)] dev_words_if [OF line_words(5)]
      dev_words_if [OF line_words(6)] dev_words_if [OF line_words(7)] dev_words_if [OF line_words(8)]
    by (auto simp: read_back_def Let_def parity_word_def dev_word_def line_words)
qed

text \<open>The settings that \<open>show_devcfg\<close> shows.\<close>

definition line_settings :: "termios \<Rightarrow> u32 \<times> u32 \<times> bool \<times> bool list" where
  "line_settings t = (c_ospeed t, c_cflag t AND CSIZE, xonxoff_on t,
     [c_cflag t AND CRTSCTS \<noteq> 0, c_cflag t AND CLOCAL \<noteq> 0, c_cflag t AND HUPCL \<noteq> 0, c_cflag t AND CSTOPB \<noteq> 0,
      c_cflag t AND PARENB \<noteq> 0, c_cflag t AND PARENB \<noteq> 0 \<and> c_cflag t AND PARODD \<noteq> 0])"

lemmas flag_defs = cflag_set_def cflag_clear_def iflag_set_def iflag_clear_def set_speed_def

lemma word_if_reads:
  "c_ospeed (word_if b f t) = (if b then c_ospeed (f t) else c_ospeed t)"
  "c_cflag (word_if b f t) AND m = (if b then c_cflag (f t) AND m else c_cflag t AND m)"
  "c_iflag (word_if b f t) AND m = (if b then c_iflag (f t) AND m else c_iflag t AND m)"
  by (simp_all add: word_if_def)

lemma devinit_flags:
  "c_cflag (devinit t) AND CSIZE = CS8" "c_cflag (devinit t) AND CRTSCTS = 0" "c_cflag (devinit t) AND CLOCAL = 0"
  "c_cflag (devinit t) AND HUPCL = 0" "c_cflag (devinit t) AND CSTOPB = 0" "c_cflag (devinit t) AND PARENB = 0"
  "c_iflag (devinit t) AND IXON = 0"
  by (simp_all add: devinit_def cfmakeraw_def Let_def flag_defs flag_set and.assoc)

text \<open>Each word leaves the flags of the others alone.\<close>

lemma flag_reads:
  "c_cflag (cflag_set v t) AND m = (c_cflag t AND m) OR (v AND m)" "c_cflag (cflag_clear v t) AND m = c_cflag t AND (NOT v AND m)"
  "c_cflag (iflag_set v t) = c_cflag t" "c_cflag (set_speed b t) = c_cflag t"
  "c_iflag (cflag_set v t) = c_iflag t" "c_iflag (cflag_clear v t) = c_iflag t" "c_iflag (set_speed b t) = c_iflag t"
  "c_iflag (iflag_set v t) AND m = (c_iflag t AND m) OR (v AND m)"
  "c_ospeed (cflag_set v t) = c_ospeed t" "c_ospeed (cflag_clear v t) = c_ospeed t" "c_ospeed (iflag_set v t) = c_ospeed t"
  "c_ospeed (set_speed b t) = b"
  by (simp_all add: flag_defs flag_set and.assoc)

lemma other_flags:
  "v AND m = 0 \<Longrightarrow> c_cflag (word_if b (cflag_set v) t) AND m = c_cflag t AND m"
  "NOT v AND m = m \<Longrightarrow> c_cflag (word_if b (cflag_clear v) t) AND m = c_cflag t AND m"
  "NOT w AND m = m \<Longrightarrow> v AND m = 0 \<Longrightarrow> c_cflag (word_if b (\<lambda>u. cflag_set v (cflag_clear w u)) t) AND m = c_cflag t AND m"
  "c_cflag (word_if b (\<lambda>u. (iflag_set v u)\<lparr>c_vstart := x, c_vstop := y\<rparr>) t) = c_cflag t"
  "c_iflag (word_if b (cflag_set v) t) = c_iflag t" "c_iflag (word_if b (cflag_clear v) t) = c_iflag t"
  "c_iflag (word_if b (\<lambda>u. cflag_set v (cflag_clear w u)) t) = c_iflag t"
  "c_ospeed (word_if b (cflag_set v) t) = c_ospeed t" "c_ospeed (word_if b (cflag_clear v) t) = c_ospeed t"
  "c_ospeed (word_if b (\<lambda>u. cflag_set v (cflag_clear w u)) t) = c_ospeed t"
  "c_ospeed (word_if b (\<lambda>u. (iflag_set v u)\<lparr>c_vstart := x, c_vstop := y\<rparr>) t) = c_ospeed t"
  by (simp_all add: word_if_def flag_reads)

lemma own_flags:
  "c_cflag (word_if b (cflag_set v) t) AND v = (if b then (c_cflag t AND v) OR v else c_cflag t AND v)"
  "c_cflag (word_if b (cflag_clear v) t) AND v = (if b then 0 else c_cflag t AND v)"
  "c_iflag (word_if b (\<lambda>u. (iflag_set v u)\<lparr>c_vstart := x, c_vstop := y\<rparr>) t) AND m =
     (if b then (c_iflag t AND m) OR (v AND m) else c_iflag t AND m)"
  "c_cflag (word_if b (\<lambda>u. cflag_set v (cflag_clear w u)) t) AND w = (if b then v AND w else c_cflag t AND w)"
  by (simp_all add: word_if_def flag_reads)

lemma read_back_settings:
  assumes "c_cflag t AND CSIZE = CS7 \<or> c_cflag t AND CSIZE = CS8"
  shows "line_settings (read_back t (devinit t0)) = line_settings t"
proof -
  let ?r = "read_back t (devinit t0)"
  note f = other_flags own_flags flag_reads devinit_flags
  have p: "c_cflag (if a then (if b then cflag_set (PARENB OR PARODD) u else cflag_clear PARODD (cflag_set PARENB u)) else cflag_clear PARENB u) AND m =
      c_cflag u AND m" "c_iflag (if a then (if b then cflag_set (PARENB OR PARODD) u else cflag_clear PARODD (cflag_set PARENB u)) else cflag_clear PARENB u) =
      c_iflag u" "c_ospeed (if a then (if b then cflag_set (PARENB OR PARODD) u else cflag_clear PARODD (cflag_set PARENB u)) else cflag_clear PARENB u) =
      c_ospeed u" if "m = CRTSCTS \<or> m = CLOCAL \<or> m = HUPCL \<or> m = CSTOPB \<or> m = CSIZE" for a b u m
    using that by (auto simp: flag_reads)
  have "c_cflag ?r AND CRTSCTS \<noteq> 0 \<longleftrightarrow> c_cflag t AND CRTSCTS \<noteq> 0" by (simp add: read_back_def Let_def p f)
  moreover have "c_cflag ?r AND CLOCAL \<noteq> 0 \<longleftrightarrow> c_cflag t AND CLOCAL \<noteq> 0" by (simp add: read_back_def Let_def p f)
  moreover have "c_cflag ?r AND HUPCL \<noteq> 0 \<longleftrightarrow> c_cflag t AND HUPCL \<noteq> 0" by (simp add: read_back_def Let_def p f)
  moreover have "c_cflag ?r AND CSTOPB \<noteq> 0 \<longleftrightarrow> c_cflag t AND CSTOPB \<noteq> 0" by (simp add: read_back_def Let_def p f)
  moreover have "c_cflag ?r AND CSIZE = c_cflag t AND CSIZE" using assms by (auto simp: read_back_def Let_def p f)
  moreover have "xonxoff_on ?r = xonxoff_on t" by (auto simp: read_back_def Let_def p f xonxoff_on_def)
  moreover have "c_ospeed ?r = c_ospeed t" by (simp add: read_back_def Let_def p f)
  moreover have "c_cflag ?r AND PARENB \<noteq> 0 \<longleftrightarrow> c_cflag t AND PARENB \<noteq> 0" by (simp add: read_back_def Let_def f)
  moreover have "c_cflag ?r AND PARENB \<noteq> 0 \<and> c_cflag ?r AND PARODD \<noteq> 0 \<longleftrightarrow> c_cflag t AND PARENB \<noteq> 0 \<and> c_cflag t AND PARODD \<noteq> 0"
    by (simp add: read_back_def Let_def f)
  ultimately show ?thesis by (simp add: line_settings_def)
qed

text \<open>
  C14: the line that \<open>show_devcfg\<close> prints for a port is a configuration that \<open>devconfig\<close> accepts,
  and on a newly initialised port it makes the settings that were shown: speed, data bits, stop bits,
  parity, and software and hardware flow control. This holds for the speeds \<open>baud_string\<close> knows and for
  seven or eight data bits.
\<close>

theorem devcfg_roundtrip:
  assumes "speed_shown (c_ospeed t)" "c_cflag t AND CSIZE = CS7 \<or> c_cflag t AND CSIZE = CS8"
  shows "\<exists>d'. devconfig sd bs ts (show_devcfg t) (d\<lparr>termctl := devinit t0\<rparr>) = (0, d') \<and> line_settings (termctl d') = line_settings t"
  by (simp add: devconfig_def strtok_shown [OF assms(2,1)] dev_words_shown [OF assms(1)] read_back_settings [OF assms(2)])

definition termios0 :: termios where
  "termios0 = \<lparr>c_iflag = 0, c_oflag = 0, c_lflag = 0, c_cflag = 0, c_ispeed = 0, c_ospeed = 0, c_vstart = 0, c_vstop = 0, c_vmin = 0, c_vtime = 0\<rparr>"

definition dev0 :: dev_info where
  "dev0 = \<lparr>termctl = termios0, allow_2217 = False, disablebreak = False, banner = None, trace_read = None, trace_write = None,
     trace_both = None, shortest = 0, maxAge = (0, 0)\<rparr>"

theorem devcfg_roundtrip_witness:
  "\<exists>d'. devconfig (\<lambda>_. None) [] [] (show_devcfg (termios0\<lparr>c_cflag := 0xC60, c_ospeed := B115200\<rparr>)) (dev0\<lparr>termctl := devinit termios0\<rparr>) = (0, d') \<and>
     line_settings (termctl d') = line_settings (termios0\<lparr>c_cflag := 0xC60, c_ospeed := B115200\<rparr>)"
  by (rule devcfg_roundtrip) (simp_all add: speed_shown_def termios0_def)

end
