(* ===== verification/Selector.thy ===== *)
theory Selector
  imports Prelude
begin

text \<open>
  The descriptor half of selector.c in ser2net: which file descriptors are watched, and the callbacks
  registered for them. A handler is a value of the type \<open>'h\<close> that names the C function with its data.
\<close>

section \<open>Definitions\<close>

abbreviation FD_SETSIZE :: nat where "FD_SETSIZE \<equiv> 1024"

record 'h fd_control =
  in_use :: bool
  handle_read :: "'h option"
  handle_write :: "'h option"
  handle_except :: "'h option"

record 'h selector =
  fds :: "'h fd_control list"
  read_set :: "nat list"
  write_set :: "nat list"
  except_set :: "nat list"
  maxfd :: int

definition init_fd :: "'h fd_control" where
  "init_fd = \<lparr>in_use = False, handle_read = None, handle_write = None, handle_except = None\<rparr>"

text \<open>\<open>FD_SET\<close> and \<open>FD_CLR\<close>.\<close>

definition fd_add :: "nat \<Rightarrow> nat list \<Rightarrow> nat list" where
  "fd_add fd s = (if fd \<in> set s then s else fd # s)"

definition fd_clr :: "nat \<Rightarrow> nat list \<Rightarrow> nat list" where
  "fd_clr fd s = filter (\<lambda>x. x \<noteq> fd) s"

text \<open>
  \<open>sel_alloc_selector\<close> leaves \<open>maxfd\<close> as \<open>malloc\<close> returned it, here the argument \<open>junk\<close>.
\<close>

definition sel_alloc_selector :: "int \<Rightarrow> 'h selector" where
  "sel_alloc_selector junk =
     \<lparr>fds = replicate FD_SETSIZE init_fd, read_set = [], write_set = [], except_set = [], maxfd = junk\<rparr>"

definition sel_set_fd_handlers :: "nat \<Rightarrow> 'h option \<Rightarrow> 'h option \<Rightarrow> 'h option \<Rightarrow> 'h selector \<Rightarrow> 'h selector" where
  "sel_set_fd_handlers fd r w e sel =
     (let sel = sel\<lparr>fds := (fds sel)[fd := \<lparr>in_use = True, handle_read = r, handle_write = w, handle_except = e\<rparr>]\<rparr>
      in if int fd > maxfd sel then sel\<lparr>maxfd := int fd\<rparr> else sel)"

text \<open>\<open>while (maxfd >= 0 && !fds[maxfd].in_use) maxfd--\<close>\<close>

function lower_maxfd :: "'h fd_control list \<Rightarrow> int \<Rightarrow> int" where
  "lower_maxfd cs m = (if m \<ge> 0 \<and> \<not> in_use (cs ! nat m) then lower_maxfd cs (m - 1) else m)"
  by pat_completeness auto
termination
  by (relation "measure (\<lambda>(cs, m). nat (m + 1))") auto

declare lower_maxfd.simps [simp del]

definition sel_clear_fd_handlers :: "nat \<Rightarrow> 'h selector \<Rightarrow> 'h selector" where
  "sel_clear_fd_handlers fd sel =
     (let sel = sel\<lparr>fds := (fds sel)[fd := init_fd], read_set := fd_clr fd (read_set sel),
                    write_set := fd_clr fd (write_set sel), except_set := fd_clr fd (except_set sel)\<rparr>
      in if int fd = maxfd sel then sel\<lparr>maxfd := lower_maxfd (fds sel) (maxfd sel)\<rparr> else sel)"

text \<open>Switching the watch on a descriptor on (\<open>SEL_FD_HANDLER_ENABLED\<close>) and off.\<close>

definition sel_set_fd_read_handler :: "nat \<Rightarrow> bool \<Rightarrow> 'h selector \<Rightarrow> 'h selector" where
  "sel_set_fd_read_handler fd on sel = sel\<lparr>read_set := (if on then fd_add fd else fd_clr fd) (read_set sel)\<rparr>"

definition sel_set_fd_write_handler :: "nat \<Rightarrow> bool \<Rightarrow> 'h selector \<Rightarrow> 'h selector" where
  "sel_set_fd_write_handler fd on sel = sel\<lparr>write_set := (if on then fd_add fd else fd_clr fd) (write_set sel)\<rparr>"

definition sel_set_fd_except_handler :: "nat \<Rightarrow> bool \<Rightarrow> 'h selector \<Rightarrow> 'h selector" where
  "sel_set_fd_except_handler fd on sel = sel\<lparr>except_set := (if on then fd_add fd else fd_clr fd) (except_set sel)\<rparr>"

text \<open>
  The scan of one descriptor \<open>i\<close> after \<open>select\<close> has reported the sets \<open>rs\<close>, \<open>ws\<close> and \<open>es\<close>: the handler is
  looked up when its turn comes, so that what an earlier one has cleared is not called. \<open>call\<close> runs a
  handler; the selector is the part \<open>get\<close> of the state \<open>'s\<close>.
\<close>

definition scan_read :: "('h \<Rightarrow> 's \<Rightarrow> 's) \<Rightarrow> ('s \<Rightarrow> 'h selector) \<Rightarrow> (('h selector \<Rightarrow> 'h selector) \<Rightarrow> 's \<Rightarrow> 's) \<Rightarrow> nat list \<Rightarrow> nat \<Rightarrow> 's \<Rightarrow> 's" where
  "scan_read call get upd rs i s =
     (if i \<in> set rs then
        (case handle_read (fds (get s) ! i) of None \<Rightarrow> upd (sel_set_fd_read_handler i False) s | Some h \<Rightarrow> call h s)
      else s)"

definition scan_write :: "('h \<Rightarrow> 's \<Rightarrow> 's) \<Rightarrow> ('s \<Rightarrow> 'h selector) \<Rightarrow> (('h selector \<Rightarrow> 'h selector) \<Rightarrow> 's \<Rightarrow> 's) \<Rightarrow> nat list \<Rightarrow> nat \<Rightarrow> 's \<Rightarrow> 's" where
  "scan_write call get upd ws i s =
     (if i \<in> set ws then
        (case handle_write (fds (get s) ! i) of None \<Rightarrow> upd (sel_set_fd_write_handler i False) s | Some h \<Rightarrow> call h s)
      else s)"

definition scan_except :: "('h \<Rightarrow> 's \<Rightarrow> 's) \<Rightarrow> ('s \<Rightarrow> 'h selector) \<Rightarrow> (('h selector \<Rightarrow> 'h selector) \<Rightarrow> 's \<Rightarrow> 's) \<Rightarrow> nat list \<Rightarrow> nat \<Rightarrow> 's \<Rightarrow> 's" where
  "scan_except call get upd es i s =
     (if i \<in> set es then
        (case handle_except (fds (get s) ! i) of None \<Rightarrow> upd (sel_set_fd_except_handler i False) s | Some h \<Rightarrow> call h s)
      else s)"

text \<open>\<open>for (i = 0; i <= maxfd; i++)\<close>, with the limit read again after every descriptor; descriptors end at \<open>FD_SETSIZE\<close>.\<close>

function scan_fds :: "('h \<Rightarrow> 's \<Rightarrow> 's) \<Rightarrow> ('s \<Rightarrow> 'h selector) \<Rightarrow> (('h selector \<Rightarrow> 'h selector) \<Rightarrow> 's \<Rightarrow> 's) \<Rightarrow>
    nat list \<Rightarrow> nat list \<Rightarrow> nat list \<Rightarrow> nat \<Rightarrow> 's \<Rightarrow> 's" where
  "scan_fds call get upd rs ws es i s =
     (if int i \<le> maxfd (get s) \<and> i < FD_SETSIZE then
        scan_fds call get upd rs ws es (Suc i)
          (scan_except call get upd es i (scan_write call get upd ws i (scan_read call get upd rs i s)))
      else s)"
  by pat_completeness auto
termination
  by (relation "measure (\<lambda>(call, get, upd, rs, ws, es, i, s). FD_SETSIZE - i)") auto

declare scan_fds.simps [simp del]

section \<open>The largest descriptor in use\<close>

definition sel_ok :: "'h selector \<Rightarrow> bool" where
  "sel_ok sel \<longleftrightarrow> length (fds sel) = FD_SETSIZE \<and> -1 \<le> maxfd sel \<and> maxfd sel < int FD_SETSIZE \<and>
     (\<forall>i < FD_SETSIZE. in_use (fds sel ! i) \<longrightarrow> int i \<le> maxfd sel) \<and> (0 \<le> maxfd sel \<longrightarrow> in_use (fds sel ! nat (maxfd sel)))"

lemma lower_maxfd_ok:
  "-1 \<le> m \<Longrightarrow> m < int (length cs) \<Longrightarrow> \<forall>i < length cs. in_use (cs ! i) \<longrightarrow> int i \<le> m \<Longrightarrow>
   -1 \<le> lower_maxfd cs m \<and> lower_maxfd cs m \<le> m \<and> (\<forall>i < length cs. in_use (cs ! i) \<longrightarrow> int i \<le> lower_maxfd cs m) \<and>
   (0 \<le> lower_maxfd cs m \<longrightarrow> in_use (cs ! nat (lower_maxfd cs m)))"
proof (induction cs m rule: lower_maxfd.induct)
  case (1 cs m)
  show ?case
  proof (cases "m \<ge> 0 \<and> \<not> in_use (cs ! nat m)")
    case True
    have "int i \<le> m - 1" if "i < length cs" "in_use (cs ! i)" for i
    proof -
      have "i \<noteq> nat m" using that True by auto
      then show ?thesis using 1(4) that True by force
    qed
    then show ?thesis using 1(1) [OF True] 1(3) True by (subst (1 2 3 4 5) lower_maxfd.simps) force
  next
    case False
    then have "lower_maxfd cs m = m" by (subst lower_maxfd.simps) auto
    with 1 False show ?thesis by simp
  qed
qed

lemma sel_set_ok: "sel_ok sel \<Longrightarrow> fd < FD_SETSIZE \<Longrightarrow> sel_ok (sel_set_fd_handlers fd r w e sel)"
  by (auto simp: sel_ok_def sel_set_fd_handlers_def Let_def nth_list_update)

lemma sel_clear_ok:
  assumes "sel_ok sel" "fd < FD_SETSIZE"
  shows "sel_ok (sel_clear_fd_handlers fd sel)"
proof (cases "int fd = maxfd sel")
  case True
  have "\<forall>i < length ((fds sel)[fd := init_fd]). in_use ((fds sel)[fd := init_fd] ! i) \<longrightarrow> int i \<le> maxfd sel"
    using assms by (auto simp: sel_ok_def nth_list_update init_fd_def)
  then show ?thesis
    using lower_maxfd_ok [of "maxfd sel" "(fds sel)[fd := init_fd]"] assms True
    by (auto simp: sel_ok_def sel_clear_fd_handlers_def Let_def)
next
  case False
  then show ?thesis using assms by (auto simp: sel_ok_def sel_clear_fd_handlers_def Let_def nth_list_update init_fd_def)
qed

end
