(* ===== verification/Rfc2217.thy ===== *)
theory Rfc2217
  imports Telnet Devcfg Selector
begin

text \<open>
  Remote control of a serial port (RFC 2217) in dataxfer.c of ser2net: the port, its device as the calls
  of termios and ioctl see it, the telnet callbacks, and the handler of the COM-PORT option.
\<close>

section \<open>Definitions\<close>

datatype port_kind = PORT_DISABLED | PORT_UDP | PORT_RAW | PORT_RAWLP | PORT_TELNET
datatype port_state = PORT_UNCONNECTED | PORT_WAITING_INPUT | PORT_WAITING_OUTPUT_CLEAR

text \<open>The functions of dataxfer.c that are registered with the selector.\<close>

datatype fd_handler = Handle_dev_fd_read | Handle_dev_fd_write | Handle_dev_fd_except
  | Handle_tcp_fd_read | Handle_tcp_fd_write | Handle_tcp_fd_except | Handle_initial_UDP_port_read

text \<open>What a port asks of its device beside reading, writing and settings.\<close>

datatype dev_request = Send_break | Flow_suspend | Flow_resume | Flush_queue u32

text \<open>
  A port (\<open>port_info_t\<close>) with its telnet state, and its device: \<open>dev_tc\<close> the settings of the device,
  \<open>None\<close> when \<open>tcgetattr\<close> fails; \<open>tc_adopt\<close> what the driver makes of the settings of a \<open>tcsetattr\<close>;
  \<open>modem\<close> the modem lines, \<open>None\<close> when the ioctl fails; \<open>brk_ok\<close> whether the break ioctls succeed.
\<close>

record port_info = telnet_data +
  enabled :: port_kind
  port_sel :: "fd_handler selector"
  devfd :: nat
  tcpfd :: nat
  dinfo :: dev_info
  is_2217 :: bool
  break_set :: bool
  linestate_mask :: byte
  modemstate_mask :: byte
  last_modemstate :: byte
  cisco_ios_baud_rates :: bool
  dev_tc :: "termios option"
  tc_adopt :: "termios \<Rightarrow> termios"
  modem :: "u32 option"
  brk_ok :: bool
  dev_requests :: "dev_request list"

definition upd_sel :: "(fd_handler selector \<Rightarrow> fd_handler selector) \<Rightarrow> 'a port_info_scheme \<Rightarrow> 'a port_info_scheme" where
  "upd_sel f s = s\<lparr>port_sel := f (port_sel s)\<rparr>"

definition request :: "dev_request \<Rightarrow> 'a port_info_scheme \<Rightarrow> 'a port_info_scheme" where
  "request r s = s\<lparr>dev_requests := dev_requests s @ [r]\<rparr>"

definition tcsetattr :: "termios \<Rightarrow> 'a port_info_scheme \<Rightarrow> 'a port_info_scheme" where
  "tcsetattr t s = s\<lparr>dev_tc := Some (tc_adopt s t)\<rparr>"

definition telnet_output_ready :: "'a port_info_scheme \<Rightarrow> 'a port_info_scheme" where
  "telnet_output_ready s =
     upd_sel (\<lambda>sel. sel_set_fd_write_handler (tcpfd s) True (sel_set_fd_read_handler (devfd s) False sel)) s"

definition telnet_cmd_handler :: "byte \<Rightarrow> 'a port_info_scheme \<Rightarrow> 'a port_info_scheme" where
  "telnet_cmd_handler cmd s = (if cmd = 243 then request Send_break s else s)"

text \<open>The table of baud rates: the rate, the value of termios, the code of Cisco IOS or -1.\<close>

definition baud_rates :: "(int \<times> u32 \<times> int) list" where
  "baud_rates = [(50, 1, -1), (75, 2, -1), (110, 3, -1), (134, 4, -1), (150, 5, -1), (200, 6, -1), (300, B300, 3), (600, B600, 4),
     (1200, B1200, 5), (1800, 10, -1), (2400, B2400, 6), (4800, B4800, 7), (9600, B9600, 8), (19200, B19200, 10),
     (38400, B38400, 12), (57600, B57600, 13), (115200, B115200, 14), (230400, B230400, 15)]"

definition get_baud_rate :: "bool \<Rightarrow> int \<Rightarrow> u32 option" where
  "get_baud_rate cisco rate =
     map_option (\<lambda>(r, v, c). v) (find (\<lambda>(r, v, c). rate = (if cisco then c else r)) baud_rates)"

definition rate_from_baud_rate :: "bool \<Rightarrow> u32 \<Rightarrow> int" where
  "rate_from_baud_rate cisco b =
     (case find (\<lambda>(r, v, c). b = v) baud_rates of
        None \<Rightarrow> 0
      | Some (r, v, c) \<Rightarrow> if cisco then (if c > 0 then c else 0) else r)"

definition reply :: "byte list \<Rightarrow> 'a port_info_scheme \<Rightarrow> 'a port_info_scheme" where
  "reply d s = telnet_send_option telnet_output_ready d s"

definition modemstate_of :: "u32 \<Rightarrow> byte" where
  "modemstate_of val =
     (if val AND 0x40 \<noteq> 0 then 0x80 else 0) OR (if val AND 0x80 \<noteq> 0 then 0x40 else 0) OR
     (if val AND 0x100 \<noteq> 0 then 0x20 else 0) OR (if val AND 0x20 \<noteq> 0 then 0x10 else 0)"

definition com_port_will :: "'a port_info_scheme \<Rightarrow> bool \<times> 'a port_info_scheme" where
  "com_port_will s =
     (if \<not> allow_2217 (dinfo s) then (False, s)
      else
        (let s = s\<lparr>is_2217 := True, linestate_mask := 0, modemstate_mask := 255, last_modemstate := 0\<rparr>
         in case modem s of
              None \<Rightarrow> (True, reply [44, 107, 0] s)
            | Some val \<Rightarrow>
                (let m = modemstate_of val in (True, reply [44, 107, m] (s\<lparr>last_modemstate := m\<rparr>)))))"

text \<open>\<open>"ser2net-" VERSION\<close>, with the version of configure.in.\<close>

definition cp_signature :: "'a port_info_scheme \<Rightarrow> 'a port_info_scheme" where
  "cp_signature s = reply ([44, 100] @ cbytes ''ser2net-2.7mbari2'') s"

definition be32 :: "byte list \<Rightarrow> u32" where
  "be32 bs = foldl (\<lambda>a b. push_bit 8 a OR ucast b) 0 bs"

definition to_be32 :: "u32 \<Rightarrow> byte list" where
  "to_be32 v = [ucast (drop_bit 24 v), ucast (drop_bit 16 v), ucast (drop_bit 8 v), ucast v]"

definition cp_baudrate :: "byte list \<Rightarrow> 'a port_info_scheme \<Rightarrow> 'a port_info_scheme" where
  "cp_baudrate opt s =
     (if length opt < (if cisco_ios_baud_rates s then 3 else 6) then s
      else
        (let val = (if cisco_ios_baud_rates s then uint (opt ! 2) else uint (be32 (take 4 (drop 2 opt))));
             (speed, s) =
               (case dev_tc s of
                  None \<Rightarrow> (0, s)
                | Some t \<Rightarrow>
                    (let s = (case (if val \<noteq> 0 then get_baud_rate (cisco_ios_baud_rates s) (sint (word_of_int val :: u32)) else None) of
                                None \<Rightarrow> s
                              | Some b \<Rightarrow> tcsetattr (set_speed b t) s)
                     in case dev_tc s of None \<Rightarrow> (0, s) | Some t \<Rightarrow> (c_ispeed t, s)));
             v = rate_from_baud_rate (cisco_ios_baud_rates s) speed
         in if cisco_ios_baud_rates s then reply [44, 101, word_of_int v] s
            else reply ([44, 101] @ to_be32 (word_of_int v)) s))"

definition size_bits :: "byte \<Rightarrow> u32" where
  "size_bits n = (if n = 5 then CS5 else if n = 6 then CS6 else if n = 7 then CS7 else CS8)"

definition bits_size :: "u32 \<Rightarrow> byte" where
  "bits_size w = (if w = CS5 then 5 else if w = CS6 then 6 else if w = CS7 then 7 else 8)"

definition cp_datasize :: "byte list \<Rightarrow> 'a port_info_scheme \<Rightarrow> 'a port_info_scheme" where
  "cp_datasize opt s =
     (if length opt < 3 then s
      else case dev_tc s of
        None \<Rightarrow> reply [44, 102, 0] s
      | Some t \<Rightarrow>
          (let n = opt ! 2;
               valid = (5 \<le> n \<and> n \<le> 8);
               t = (if valid then cflag_set (size_bits n) (cflag_clear CSIZE t) else t);
               s = (if valid then tcsetattr t s else s)
           in reply [44, 102, bits_size (c_cflag t AND CSIZE)] s))"

definition cp_parity :: "byte list \<Rightarrow> 'a port_info_scheme \<Rightarrow> 'a port_info_scheme" where
  "cp_parity opt s =
     (if length opt < 3 then s
      else case dev_tc s of
        None \<Rightarrow> reply [44, 103, 0] s
      | Some t \<Rightarrow>
          (let n = opt ! 2;
               valid = (1 \<le> n \<and> n \<le> 3);
               t = (if valid then
                      (let t = cflag_clear (PARENB OR PARODD) t
                       in if n = 2 then cflag_set (PARENB OR PARODD) t else if n = 3 then cflag_set PARENB t else t)
                    else t);
               s = (if valid then tcsetattr t s else s)
           in reply [44, 103, if c_cflag t AND PARENB \<noteq> 0 then (if c_cflag t AND PARODD \<noteq> 0 then 2 else 3) else 1] s))"

definition cp_stopsize :: "byte list \<Rightarrow> 'a port_info_scheme \<Rightarrow> 'a port_info_scheme" where
  "cp_stopsize opt s =
     (if length opt < 3 then s
      else case dev_tc s of
        None \<Rightarrow> reply [44, 104, 0] s
      | Some t \<Rightarrow>
          (let n = opt ! 2;
               valid = (n = 1 \<or> n = 2);
               t = (if valid then (let t = cflag_clear CSTOPB t in if n = 2 then cflag_set CSTOPB t else t) else t);
               s = (if valid then tcsetattr t s else s)
           in reply [44, 104, if c_cflag t AND CSTOPB \<noteq> 0 then 2 else 1] s))"

text \<open>SET-CONTROL: outbound and inbound flow control, break, DTR and RTS; the value answered and the port.\<close>

definition control_outbound :: "byte \<Rightarrow> 'a port_info_scheme \<Rightarrow> byte \<times> 'a port_info_scheme" where
  "control_outbound n s =
     (case dev_tc s of
        None \<Rightarrow> (0, s)
      | Some t \<Rightarrow>
          (let t = (if n \<noteq> 0 then
                      (let t = cflag_clear CRTSCTS (iflag_clear (IXON OR IXOFF) t)
                       in if n = 2 then iflag_set (IXON OR IXOFF) t else if n = 3 then cflag_set CRTSCTS t else t)
                    else t);
               s = (if n \<noteq> 0 then tcsetattr t s else s)
           in (if c_cflag t AND CRTSCTS \<noteq> 0 then 3 else if c_iflag t AND IXON \<noteq> 0 then 2 else 1, s)))"

definition control_inbound :: "byte \<Rightarrow> 'a port_info_scheme \<Rightarrow> byte \<times> 'a port_info_scheme" where
  "control_inbound n s =
     (case dev_tc s of
        None \<Rightarrow> (0, s)
      | Some t \<Rightarrow>
          (let t = (if n = 15 then iflag_set IXOFF t else t);
               s = (if n = 15 then tcsetattr t s else s)
           in (if c_cflag t AND CRTSCTS \<noteq> 0 then 16 else if c_iflag t AND IXOFF \<noteq> 0 then 15 else 14, s)))"

definition control_break :: "byte \<Rightarrow> 'a port_info_scheme \<Rightarrow> byte \<times> 'a port_info_scheme" where
  "control_break n s =
     (let s = (if n = 6 \<and> brk_ok s then s\<lparr>break_set := False\<rparr> else if n = 5 \<and> brk_ok s then s\<lparr>break_set := True\<rparr> else s)
      in (if break_set s then 5 else 6, s))"

text \<open>A modem line: \<open>q\<close>, \<open>q + 1\<close> and \<open>q + 2\<close> ask for it, raise it and drop it.\<close>

definition control_line :: "byte \<Rightarrow> u32 \<Rightarrow> byte \<Rightarrow> 'a port_info_scheme \<Rightarrow> byte \<times> 'a port_info_scheme" where
  "control_line q m n s =
     (let s = (if n = q + 1 then s\<lparr>modem := map_option (\<lambda>l. l OR m) (modem s)\<rparr>
               else if n = q + 2 then s\<lparr>modem := map_option (\<lambda>l. l AND NOT m) (modem s)\<rparr> else s)
      in (case modem s of None \<Rightarrow> q | Some l \<Rightarrow> if l AND m \<noteq> 0 then q + 1 else q + 2, s))"

definition cp_control :: "byte list \<Rightarrow> 'a port_info_scheme \<Rightarrow> 'a port_info_scheme" where
  "cp_control opt s =
     (if length opt < 3 then s
      else
        (let n = opt ! 2;
             (val, s) =
               (if n \<le> 3 then control_outbound n s
                else if 13 \<le> n \<and> n \<le> 19 then control_inbound n s
                else if 4 \<le> n \<and> n \<le> 6 then control_break n s
                else if 7 \<le> n \<and> n \<le> 9 then control_line 7 TIOCM_DTR n s
                else if 10 \<le> n \<and> n \<le> 12 then control_line 10 TIOCM_RTS n s
                else (0, s))
         in reply [44, 105, val] s))"

definition cp_purge :: "byte list \<Rightarrow> 'a port_info_scheme \<Rightarrow> 'a port_info_scheme" where
  "cp_purge opt s =
     (if length opt < 3 then s
      else
        (let n = opt ! 2
         in if 1 \<le> n \<and> n \<le> 3 then reply [44, 112, n] (request (Flush_queue (ucast n - 1)) s) else s))"

definition com_port_handler :: "byte list \<Rightarrow> 'a port_info_scheme \<Rightarrow> 'a port_info_scheme" where
  "com_port_handler opt s =
     (if length opt < 2 then s
      else
        (let c = opt ! 1
         in if c = 0 then cp_signature s
            else if c = 1 then cp_baudrate opt s
            else if c = 2 then cp_datasize opt s
            else if c = 3 then cp_parity opt s
            else if c = 4 then cp_stopsize opt s
            else if c = 5 then cp_control opt s
            else if c = 8 then reply [44, 108] (request Flow_suspend s)
            else if c = 9 then reply [44, 109] (request Flow_resume s)
            else if c = 10 then
              (if length opt < 3 then s else reply [44, 110, opt ! 2] (s\<lparr>linestate_mask := opt ! 2\<rparr>))
            else if c = 11 then
              (if length opt < 3 then s else reply [44, 111, opt ! 2] (s\<lparr>modemstate_mask := opt ! 2\<rparr>))
            else if c = 12 then cp_purge opt s
            else s))"

text \<open>The option table of a port, and its callbacks.\<close>

definition telnet_cmds :: "telnet_cmd list" where
  "telnet_cmds =
     map (\<lambda>b. \<lparr>option = b, i_will = True, i_do = True, sent_will = True, sent_do = False, rem_will = False, rem_do = False,
            has_option_handler = (b = 44), has_will_handler = (b = 44)\<rparr>) [0, 1, 3, 44]"

definition telnet_init_seq :: "byte list" where
  "telnet_init_seq = [255, 251, 0, 255, 251, 1, 255, 251, 3, 255, 251, 44]"

definition port_cb :: "'a port_info_scheme telnet_cb" where
  "port_cb = \<lparr>output_ready = telnet_output_ready, cmd_handler = telnet_cmd_handler, option_handler = (\<lambda>b d s. com_port_handler d s),
     will_handler = (\<lambda>b s. com_port_will s)\<rparr>"

section \<open>The callbacks keep to the contract of the telnet layer\<close>

lemma tn_kept_port [simp]:
  fixes s t :: "'a port_info_scheme"
  shows "tn_kept s (upd_sel f t) = tn_kept s t" "tn_kept s (request r t) = tn_kept s t" "tn_kept s (tcsetattr x t) = tn_kept s t"
    "tn_kept s (t\<lparr>is_2217 := b\<rparr>) = tn_kept s t" "tn_kept s (t\<lparr>break_set := b\<rparr>) = tn_kept s t" "tn_kept s (t\<lparr>modem := l\<rparr>) = tn_kept s t"
    "tn_kept s (t\<lparr>linestate_mask := m\<rparr>) = tn_kept s t" "tn_kept s (t\<lparr>modemstate_mask := m\<rparr>) = tn_kept s t"
    "tn_kept s (t\<lparr>last_modemstate := m\<rparr>) = tn_kept s t"
  by (simp_all add: tn_kept_def rx_def table_def upd_sel_def request_def tcsetattr_def)

lemma ready_tn_kept: "tn_kept s (telnet_output_ready s)"
  by (simp add: telnet_output_ready_def)

lemma reply_tn_kept: "tn_kept s t \<Longrightarrow> tn_kept s (reply d t)"
  unfolding reply_def using send_option_kept [of telnet_output_ready, OF ready_tn_kept] tn_kept_trans by blast

lemma control_tn_kept:
  "tn_kept s (snd (control_outbound n s))" "tn_kept s (snd (control_inbound n s))" "tn_kept s (snd (control_break n s))"
  "tn_kept s (snd (control_line q m n s))"
  by (simp_all add: control_outbound_def control_inbound_def control_break_def control_line_def Let_def split: option.split)

lemma com_port_handler_kept: "tn_kept s (com_port_handler d s)"
proof -
  have b: "tn_kept s (cp_baudrate d s)"
    by (auto simp: cp_baudrate_def Let_def intro!: reply_tn_kept split: option.split)
  have "tn_kept s (snd (if d ! 2 \<le> 3 then control_outbound (d ! 2) s
                else if 13 \<le> d ! 2 \<and> d ! 2 \<le> 19 then control_inbound (d ! 2) s
                else if 4 \<le> d ! 2 \<and> d ! 2 \<le> 6 then control_break (d ! 2) s
                else if 7 \<le> d ! 2 \<and> d ! 2 \<le> 9 then control_line 7 TIOCM_DTR (d ! 2) s
                else if 10 \<le> d ! 2 \<and> d ! 2 \<le> 12 then control_line 10 TIOCM_RTS (d ! 2) s
                else (0, s)))"
    using control_tn_kept [of s] by simp
  note r = reply_tn_kept [OF this]
  have c: "tn_kept s (cp_control d s)"
  proof (cases "length d < 3")
    case True
    then show ?thesis by (simp only: cp_control_def if_True tn_kept_refl)
  next
    case False
    show ?thesis unfolding cp_control_def Let_def case_prod_unfold if_not_P [OF False] by (rule r)
  qed
  have "tn_kept s (cp_datasize d s)" "tn_kept s (cp_parity d s)" "tn_kept s (cp_stopsize d s)" "tn_kept s (cp_purge d s)" "tn_kept s (cp_signature s)"
    by (simp_all add: cp_datasize_def cp_parity_def cp_stopsize_def cp_purge_def cp_signature_def Let_def reply_tn_kept
        split del: if_split split: option.split) (simp_all add: reply_tn_kept Let_def)
  then show ?thesis using b c
    unfolding com_port_handler_def Let_def by (simp add: reply_tn_kept)
qed

lemma com_port_will_kept: "com_port_will s = (r, t) \<Longrightarrow> tn_kept s t"
  by (auto simp: com_port_will_def Let_def intro!: reply_tn_kept split: if_splits option.splits)

interpretation port: telnet_client "port_cb :: 'a port_info_scheme telnet_cb"
  by unfold_locales
     (auto simp: port_cb_def ready_tn_kept telnet_cmd_handler_def com_port_handler_kept com_port_will_kept)

text \<open>
  What the telnet callbacks leave alone: everything of a larger state, the descriptors, and whether the
  network connection is read.
\<close>

definition xpart :: "'a port_info_scheme \<Rightarrow> 'a \<times> port_kind \<times> nat \<times> nat \<times> dev_info \<times> bool" where
  "xpart s = (port_info.more s, enabled s, tcpfd s, devfd s, dinfo s, tcpfd s \<noteq> devfd s \<and> tcpfd s \<in> set (read_set (port_sel s)))"

lemma fd_set_simps [simp]: "set (fd_add i l) = insert i (set l)" "set (fd_clr i l) = set l - {i}"
  by (auto simp: fd_add_def fd_clr_def)

lemma sel_sets [simp]:
  "read_set (sel_set_fd_write_handler i b l) = read_set l" "write_set (sel_set_fd_read_handler i b l) = write_set l"
  "set (read_set (sel_set_fd_read_handler i b l)) = (if b then insert i (set (read_set l)) else set (read_set l) - {i})"
  "set (write_set (sel_set_fd_write_handler i b l)) = (if b then insert i (set (write_set l)) else set (write_set l) - {i})"
  by (simp_all add: sel_set_fd_read_handler_def sel_set_fd_write_handler_def)

lemma xpart_port [simp]:
  fixes s :: "'a port_info_scheme"
  shows "xpart (request r s) = xpart s" "xpart (tcsetattr x s) = xpart s" "xpart (s\<lparr>is_2217 := b\<rparr>) = xpart s"
    "xpart (s\<lparr>break_set := b\<rparr>) = xpart s" "xpart (s\<lparr>modem := l\<rparr>) = xpart s" "xpart (s\<lparr>linestate_mask := m\<rparr>) = xpart s"
    "xpart (s\<lparr>modemstate_mask := m\<rparr>) = xpart s" "xpart (s\<lparr>last_modemstate := m\<rparr>) = xpart s"
    "xpart (s\<lparr>telnet_cmd := c\<rparr>) = xpart s" "xpart (s\<lparr>telnet_cmd_pos := p\<rparr>) = xpart s" "xpart (s\<lparr>suboption_iac := b\<rparr>) = xpart s"
    "xpart (s\<lparr>td_error := b\<rparr>) = xpart s" "xpart (s\<lparr>out_telnet_cmd := w\<rparr>) = xpart s" "xpart (s\<lparr>cmds := cs\<rparr>) = xpart s"
    "xpart (telnet_output_ready s) = xpart s"
  by (auto simp: xpart_def request_def tcsetattr_def telnet_output_ready_def upd_sel_def)

lemma xpart_reply [simp]: "xpart (reply d s) = xpart s"
  by (simp add: reply_def telnet_send_option_def Let_def)

lemma xpart_control:
  "xpart (snd (control_outbound n s)) = xpart s" "xpart (snd (control_inbound n s)) = xpart s" "xpart (snd (control_break n s)) = xpart s"
  "xpart (snd (control_line q m n s)) = xpart s"
  by (simp_all add: control_outbound_def control_inbound_def control_break_def control_line_def Let_def split: option.split)

lemma xpart_handler: "xpart (com_port_handler d s) = xpart s"
proof -
  have b: "xpart (cp_baudrate d s) = xpart s"
    by (auto simp: cp_baudrate_def Let_def split: option.split)
  have c: "xpart (cp_control d s) = xpart s"
  proof (cases "length d < 3")
    case True
    then show ?thesis by (simp only: cp_control_def if_True)
  next
    case False
    show ?thesis unfolding cp_control_def Let_def case_prod_unfold if_not_P [OF False] xpart_reply
      by (simp add: xpart_control)
  qed
  have "xpart (cp_datasize d s) = xpart s" "xpart (cp_parity d s) = xpart s" "xpart (cp_stopsize d s) = xpart s"
    "xpart (cp_purge d s) = xpart s" "xpart (cp_signature s) = xpart s"
    by (simp_all add: cp_datasize_def cp_parity_def cp_stopsize_def cp_purge_def cp_signature_def Let_def
        split del: if_split split: option.split) (simp_all add: Let_def)
  then show ?thesis using b c unfolding com_port_handler_def Let_def by simp
qed

lemma xpart_will: "com_port_will s = (r, t) \<Longrightarrow> xpart t = xpart s"
  by (auto simp: com_port_will_def Let_def split: if_splits option.splits)

interpretation port_frame: telnet_frame "port_cb :: 'a port_info_scheme telnet_cb" xpart
  by unfold_locales (auto simp: port_cb_def telnet_cmd_handler_def xpart_handler xpart_will)

section \<open>Properties\<close>

lemma port_table: "null_option (map (\<lambda>c. (option c, has_option_handler c)) telnet_cmds) b \<longleftrightarrow> b \<in> {0, 1, 3}"
  by (auto simp: null_option_def telnet_cmds_def split: if_splits)

text \<open>
  C9: whatever a telnet client sends, the telnet layer of a port stays within its buffers and
  returns, with one exception: it calls through a null pointer exactly when a suboption of one of the
  options 0, 1 and 3 ends, the entries of the port's table that have no option handler.
\<close>

theorem port_telnet_safe:
  assumes "tn_ok s" "table s = map (\<lambda>c. (option c, has_option_handler c)) telnet_cmds" "len \<le> length data"
  shows "(\<exists>d n t. process_telnet_data port_cb data len s = Ret (d, n) t \<and> tn_ok t \<and> n \<le> length d) \<or>
    process_telnet_data port_cb data len s = Wild \<and>
    (\<exists>a c x t. take len data = a @ 240 # c \<and> telnet_stream port_cb a s = Ret x t \<and> 3 \<le> telnet_cmd_pos t \<and> suboption_iac t \<and>
       telnet_cmd t ! 2 \<in> {0, 1, 3})"
proof -
  note p = process_stream [OF assms(3), of port_cb s]
  from port.stream_cases [OF assms(1), of "take len data"] show ?thesis
  proof (elim disjE exE conjE, goal_cases)
    case (1 x t)
    with p show ?case by (cases "process_telnet_data port_cb data len s") (auto dest: process_count)
  next
    case (2 a c x t)
    then have "telnet_cmd t ! 2 \<in> {0, 1, 3}" using port_table assms(2) by simp
    moreover have "process_telnet_data port_cb data len s = Wild"
      using p 2(1) by (cases "process_telnet_data port_cb data len s") (auto split: prod.splits)
    ultimately show ?case using 2 by blast
  qed
qed

definition port0 :: port_info where
  "port0 = telnet_data.extend (td0 telnet_cmds)
     \<lparr>enabled = PORT_TELNET, port_sel = (sel_alloc_selector (-1)), devfd = 5, tcpfd = 6, dinfo = dev0, is_2217 = False, break_set = False,
      linestate_mask = 0, modemstate_mask = 255, last_modemstate = 0, cisco_ios_baud_rates = False,
      dev_tc = Some (devinit termios0), tc_adopt = (\<lambda>t. t), modem = Some 0, brk_ok = True, dev_requests = []\<rparr>"

lemmas port0_defs = port0_def td0_def telnet_data.defs

theorem port_telnet_safe_witness:
  "(\<exists>d n t. process_telnet_data port_cb [65, 255, 253, 1] 4 port0 = Ret (d, n) t \<and> tn_ok t \<and> n \<le> length d) \<or>
    process_telnet_data port_cb [65, 255, 253, 1] 4 port0 = Wild \<and>
    (\<exists>a c x t. take 4 [65, 255, 253, 1] = a @ 240 # c \<and> telnet_stream port_cb a port0 = Ret x t \<and> 3 \<le> telnet_cmd_pos t \<and> suboption_iac t \<and>
       telnet_cmd t ! 2 \<in> {0, 1, 3})"
  by (rule port_telnet_safe) (simp_all add: port0_defs tn_ok_def table_def)

text \<open>
  C38: a client ends the program with a suboption of one of the options binary transmission (0),
  echo (1) and suppress go-ahead (3): on an idle connection \<open>IAC SB\<close>, the option, any data of up to 28 bytes
  with its 255 bytes doubled, and \<open>IAC SE\<close>, received in one piece, lead to a call through a null pointer.
\<close>

theorem null_option_crash:
  assumes "idle s" "map option (cmds s) = map option telnet_cmds" "map has_option_handler (cmds s) = map has_option_handler telnet_cmds"
    "opt \<in> {0, 1, 3}" "length d \<le> 28" "w = [255, 250, opt] @ double_iac d @ [255, 240]"
  shows "process_telnet_data port_cb w (length w) s = Wild"
proof -
  have "table s = map (\<lambda>c. (option c, has_option_handler c)) telnet_cmds"
    using assms(2,3) by (simp add: table_def list_eq_iff_nth_eq)
  then have "map_of (table s) opt = Some False" using assms(4) by (auto simp: table_def telnet_cmds_def)
  then obtain i where i: "find_cmd (cmds s) opt = Some i" "\<not> has_option_handler (cmds s ! i)"
    by (auto simp: find_cmd_table)
  have "w = [255, 250] @ double_iac (opt # d) @ [255, 240]" using assms(4,6) by auto
  then have "telnet_stream port_cb w s = Wild"
    using stream_option [OF assms(1), of "opt # d" i port_cb] i assms(4,5) by auto
  then show ?thesis
    using process_stream [of "length w" w port_cb s]
    by (cases "process_telnet_data port_cb w (length w) s") (auto split: prod.splits)
qed

theorem null_option_crash_witness: "process_telnet_data port_cb [255, 250, 1, 7, 255, 240] (length [255 :: byte, 250, 1, 7, 255, 240]) port0 = Wild"
  by (rule null_option_crash [where opt = 1 and d = "[7]"]) (simp_all add: port0_defs idle_def)

lemma reply_fields [simp]:
  "dev_tc (reply d s) = dev_tc s" "tc_adopt (reply d s) = tc_adopt s" "cisco_ios_baud_rates (reply d s) = cisco_ios_baud_rates s"
  by (simp_all add: reply_def telnet_send_option_def Let_def telnet_output_ready_def upd_sel_def)

lemma tcsetattr_fields [simp]:
  "dev_tc (tcsetattr t s) = Some (tc_adopt s t)" "tc_adopt (tcsetattr t s) = tc_adopt s"
  "cisco_ios_baud_rates (tcsetattr t s) = cisco_ios_baud_rates s" "out_telnet_cmd (tcsetattr t s) = out_telnet_cmd s"
  by (simp_all add: tcsetattr_def)

lemma double_iac_plain: "255 \<notin> set d \<Longrightarrow> double_iac d = d"
  by (induction d) auto

lemma reply_out:
  assumes "255 \<notin> set d" "length (out_telnet_cmd s) + length d + 4 \<le> MAX_TELNET_CMD_XMIT_BUF"
  shows "out_telnet_cmd (reply d s) = out_telnet_cmd s @ [255, 250] @ d @ [255, 240]"
proof -
  have "filter (\<lambda>b. b = 255) d = []" using assms(1) by (auto simp: filter_empty_conv)
  then show ?thesis
    using assms by (simp add: reply_def telnet_send_option_def Let_def telnet_output_ready_def upd_sel_def double_iac_plain)
qed

lemma baud_rates_ok:
  "list_all (\<lambda>(r, v, c). get_baud_rate False (sint (word_of_int (uint (be32 (to_be32 (word_of_int r)))) :: u32)) = Some v \<and>
     rate_from_baud_rate False v = r \<and> 255 \<notin> set (to_be32 (word_of_int r)) \<and> uint (be32 (to_be32 (word_of_int r))) \<noteq> 0) baud_rates"
  by code_simp

text \<open>
  C13: a client that asks for one of the eighteen supported rates gets it: the device is set to
  that speed, and the answer names the rate in the same four bytes.
\<close>

theorem baudrate_set:
  assumes "(r, v, c) \<in> set baud_rates" "\<not> cisco_ios_baud_rates s" "dev_tc s = Some t" "tc_adopt s (set_speed v t) = set_speed v t"
    "length (out_telnet_cmd s) + 10 \<le> MAX_TELNET_CMD_XMIT_BUF"
  shows "dev_tc (com_port_handler ([44, 1] @ to_be32 (word_of_int r)) s) = Some (set_speed v t) \<and>
    out_telnet_cmd (com_port_handler ([44, 1] @ to_be32 (word_of_int r)) s) =
      out_telnet_cmd s @ [255, 250, 44, 101] @ to_be32 (word_of_int r) @ [255, 240]"
proof -
  let ?o = "[44, 1] @ to_be32 (word_of_int r)"
  have b: "get_baud_rate False (sint (word_of_int (uint (be32 (to_be32 (word_of_int r)))) :: u32)) = Some v"
    "rate_from_baud_rate False v = r" "255 \<notin> set (to_be32 (word_of_int r))" "uint (be32 (to_be32 (word_of_int r))) \<noteq> 0"
    using baud_rates_ok assms(1) by (auto simp: list_all_iff)
  have l: "length (to_be32 w) = 4" for w by (simp add: to_be32_def)
  have "com_port_handler ?o s = cp_baudrate ?o s" by (simp add: com_port_handler_def l)
  also have "\<dots> = reply ([44, 101] @ to_be32 (word_of_int r)) (tcsetattr (set_speed v t) s)"
    using assms(2,3,4) b(1,2,4) unfolding cp_baudrate_def
    by (simp add: l Let_def set_speed_def del: word_of_int_uint)
  finally show ?thesis
    using reply_out [of "[44, 101] @ to_be32 (word_of_int r)" "tcsetattr (set_speed v t) s"] assms(4,5) b(3) l by simp
qed

theorem baudrate_set_witness:
  "dev_tc (com_port_handler ([44, 1] @ to_be32 (word_of_int 115200)) port0) = Some (set_speed B115200 (devinit termios0)) \<and>
    out_telnet_cmd (com_port_handler ([44, 1] @ to_be32 (word_of_int 115200)) port0) =
      out_telnet_cmd port0 @ [255, 250, 44, 101] @ to_be32 (word_of_int 115200) @ [255, 240]"
  by (rule baudrate_set) (simp_all add: port0_defs baud_rates_def)

text \<open>The three settings of the character format, each with its answer.\<close>

lemma datasize_reply:
  assumes "dev_tc s = Some t" "n \<in> {5, 6, 7, 8}"
  shows "com_port_handler [44, 2, n] s = reply [44, 102, n] (tcsetattr (cflag_set (size_bits n) (cflag_clear CSIZE t)) s)"
  using assms by (auto simp: com_port_handler_def cp_datasize_def flag_reads size_bits_def bits_size_def)

lemma parity_reply:
  assumes "dev_tc s = Some t" "p \<in> {1, 2, 3}"
  shows "com_port_handler [44, 3, p] s = reply [44, 103, p] (tcsetattr
    (let t = cflag_clear (PARENB OR PARODD) t
     in if p = 2 then cflag_set (PARENB OR PARODD) t else if p = 3 then cflag_set PARENB t else t) s)"
  using assms by (auto simp: com_port_handler_def cp_parity_def flag_reads Let_def)

lemma stopsize_reply:
  assumes "dev_tc s = Some t" "b \<in> {1, 2}"
  shows "com_port_handler [44, 4, b] s =
    reply [44, 104, b] (tcsetattr (let t = cflag_clear CSTOPB t in if b = 2 then cflag_set CSTOPB t else t) s)"
  using assms by (auto simp: com_port_handler_def cp_stopsize_def flag_reads Let_def)

definition format_flags :: "byte \<Rightarrow> byte \<Rightarrow> byte \<Rightarrow> u32" where
  "format_flags n p b = size_bits n OR (if p = 2 then PARENB OR PARODD else if p = 3 then PARENB else 0) OR (if b = 2 then CSTOPB else 0)"

text \<open>
  C12: a client that asks for 5 to 8 data bits, for no, odd or even parity and for one or two stop
  bits gets that character format on a device that adopts the settings it is given; all other control
  flags keep their values, and the three answers repeat what was asked for.
\<close>

theorem line_format_set:
  assumes "dev_tc s = Some t" "\<forall>t. tc_adopt s t = t" "n \<in> {5, 6, 7, 8}" "p \<in> {1, 2, 3}" "b \<in> {1, 2}"
    "length (out_telnet_cmd s) + 21 \<le> MAX_TELNET_CMD_XMIT_BUF"
  shows "\<exists>t'. dev_tc (com_port_handler [44, 4, b] (com_port_handler [44, 3, p] (com_port_handler [44, 2, n] s))) = Some t' \<and>
    c_cflag t' AND 0x370 = format_flags n p b \<and> c_cflag t' AND NOT 0x370 = c_cflag t AND NOT 0x370 \<and>
    out_telnet_cmd (com_port_handler [44, 4, b] (com_port_handler [44, 3, p] (com_port_handler [44, 2, n] s))) =
      out_telnet_cmd s @ [255, 250, 44, 102, n, 255, 240, 255, 250, 44, 103, p, 255, 240, 255, 250, 44, 104, b, 255, 240]"
proof -
  define t1 where "t1 = cflag_set (size_bits n) (cflag_clear CSIZE t)"
  define t2 where "t2 = (let t = cflag_clear (PARENB OR PARODD) t1
     in if p = 2 then cflag_set (PARENB OR PARODD) t else if p = 3 then cflag_set PARENB t else t)"
  define t3 where "t3 = (let t = cflag_clear CSTOPB t2 in if b = 2 then cflag_set CSTOPB t else t)"
  define s1 where "s1 = reply [44, 102, n] (tcsetattr t1 s)"
  define s2 where "s2 = reply [44, 103, p] (tcsetattr t2 s1)"
  have h: "com_port_handler [44, 2, n] s = s1" using datasize_reply [OF assms(1,3)] by (simp add: s1_def t1_def)
  have d1: "dev_tc s1 = Some t1" "tc_adopt s1 = tc_adopt s" using assms(2) by (simp_all add: s1_def)
  have h2: "com_port_handler [44, 3, p] s1 = s2" using parity_reply [OF d1(1) assms(4)] by (simp add: s2_def t2_def)
  have d2: "dev_tc s2 = Some t2" "tc_adopt s2 = tc_adopt s" using assms(2) d1 by (simp_all add: s2_def)
  have h3: "com_port_handler [44, 4, b] s2 = reply [44, 104, b] (tcsetattr t3 s2)"
    using stopsize_reply [OF d2(1) assms(5)] by (simp add: t3_def)
  have r1: "out_telnet_cmd s1 = out_telnet_cmd s @ [255, 250, 44, 102, n, 255, 240]"
    using reply_out [of "[44, 102, n]" "tcsetattr t1 s"] assms(3,6) by (auto simp: s1_def)
  have r2: "out_telnet_cmd s2 = out_telnet_cmd s1 @ [255, 250, 44, 103, p, 255, 240]"
    using reply_out [of "[44, 103, p]" "tcsetattr t2 s1"] r1 assms(4,6) by (auto simp: s2_def)
  have r3: "out_telnet_cmd (reply [44, 104, b] (tcsetattr t3 s2)) = out_telnet_cmd s2 @ [255, 250, 44, 104, b, 255, 240]"
    using reply_out [of "[44, 104, b]" "tcsetattr t3 s2"] r1 r2 assms(5,6) by auto
  have "c_cflag t3 AND NOT 0x370 = c_cflag t AND NOT 0x370"
    using assms(3) by (auto simp: t3_def t2_def t1_def Let_def flag_reads size_bits_def)
  moreover have "c_cflag t3 AND 0x370 = format_flags n p b"
    using assms(3-5) by (auto simp: t3_def t2_def t1_def Let_def flag_reads size_bits_def format_flags_def)
  ultimately show ?thesis unfolding h h2 h3 using assms(2) d2 r1 r2 r3 by auto
qed

theorem line_format_set_witness:
  "\<exists>t'. dev_tc (com_port_handler [44, 4, 2] (com_port_handler [44, 3, 3] (com_port_handler [44, 2, 7] port0))) = Some t' \<and>
    c_cflag t' AND 0x370 = format_flags 7 3 2 \<and> c_cflag t' AND NOT 0x370 = c_cflag (devinit termios0) AND NOT 0x370 \<and>
    out_telnet_cmd (com_port_handler [44, 4, 2] (com_port_handler [44, 3, 3] (com_port_handler [44, 2, 7] port0))) =
      out_telnet_cmd port0 @ [255, 250, 44, 102, 7, 255, 240, 255, 250, 44, 103, 3, 255, 240, 255, 250, 44, 104, 2, 255, 240]"
  by (rule line_format_set) (simp_all add: port0_defs)

end
