(* ===== verification/Dataxfer.thy ===== *)
theory Dataxfer
  imports Rfc2217
begin

text \<open>
  The data paths of a port (dataxfer.c of ser2net): from the network connection to the serial device and
  back, with telnet processing, partial writes and the selector that switches the two readers.
\<close>

section \<open>Definitions\<close>

abbreviation PORT_BUFSIZE :: nat where "PORT_BUFSIZE \<equiv> 1400"

text \<open>What a call of \<open>write\<close> answers; when the list of answers is used up, every write is complete.\<close>

datatype wanswer = Wrote nat | Winterrupted | Wagain | Wpipe | Werror

text \<open>What a call of \<open>read\<close> answers: data, of which the end of the connection is the empty one, or an error.\<close>

datatype ranswer = Data "byte list" | Rerror

record xfer = port_info +
  acceptfd :: nat
  timeout :: int
  timeout_left :: int
  tcp_to_dev_state :: port_state
  tcp_to_dev_buf :: "byte list"
  tcp_to_dev_buf_start :: int
  tcp_to_dev_buf_count :: int
  dev_to_tcp_state :: port_state
  dev_to_tcp_buf :: "byte list"
  dev_to_tcp_buf_start :: int
  dev_to_tcp_buf_count :: int
  tcp_bytes_received :: u32
  tcp_bytes_sent :: u32
  dev_bytes_received :: u32
  dev_bytes_sent :: u32
  rt_file :: int
  wt_file :: int
  bt_file :: int
  tcp_monitored :: bool
  dev_monitored :: bool
  age_timer :: "(int \<times> int) option"
  port_timer :: bool
  shut_down :: bool
  dev_answers :: "wanswer list"
  tcp_answers :: "wanswer list"
  trace_answers :: "wanswer list"
  dev_out :: "byte list"
  tcp_out :: "byte list"
  traced :: "(int \<times> byte list) list"
  monitor_out :: "byte list"

definition reset_timer :: "'a xfer_scheme \<Rightarrow> 'a xfer_scheme" where
  "reset_timer s = s\<lparr>timeout_left := timeout s\<rparr>"

text \<open>
  The part of \<open>shutdown_port\<close> that concerns the port itself: its trace files, descriptors, timer, buffers
  and counters; a UDP port goes back to wait for its first datagram. What happens to the list of ports is
  left out.
\<close>

definition shutdown_port :: "'a xfer_scheme \<Rightarrow> 'a xfer_scheme" where
  "shutdown_port s =
     (let s = s\<lparr>wt_file := -1, rt_file := -1, bt_file := -1, port_timer := False\<rparr>;
          s = upd_sel (\<lambda>sel. sel_clear_fd_handlers (tcpfd s) (sel_clear_fd_handlers (devfd s) sel)) s;
          s = (if enabled s = PORT_UDP then upd_sel (\<lambda>sel. sel_set_fd_read_handler (acceptfd s) True
                 (sel_set_fd_handlers (acceptfd s) (Some Handle_initial_UDP_port_read) None None sel)) s else s)
      in request (Flush_queue 1) (s\<lparr>tcp_to_dev_state := PORT_UNCONNECTED, tcp_to_dev_buf_start := 0, tcp_to_dev_buf_count := 0,
           tcp_bytes_received := 0, tcp_bytes_sent := 0, dev_to_tcp_state := PORT_UNCONNECTED, dev_to_tcp_buf_start := 0,
           dev_to_tcp_buf_count := 0, dev_bytes_received := 0, dev_bytes_sent := 0, shut_down := True\<rparr>))"

text \<open>Writing to a trace file, again and again until all is written; an error closes the file.\<close>

function do_trace :: "int \<Rightarrow> byte list \<Rightarrow> 'a xfer_scheme \<Rightarrow> 'a xfer_scheme" where
  "do_trace file buf s =
     (if buf = [] then s
      else case trace_answers s of
        [] \<Rightarrow> s\<lparr>traced := traced s @ [(file, buf)]\<rparr>
      | Wrote n # r \<Rightarrow> do_trace file (drop n buf) (s\<lparr>trace_answers := r, traced := traced s @ [(file, take n buf)]\<rparr>)
      | Winterrupted # r \<Rightarrow> do_trace file buf (s\<lparr>trace_answers := r\<rparr>)
      | _ # r \<Rightarrow>
          s\<lparr>trace_answers := r, rt_file := (if file = rt_file s then -1 else rt_file s),
            wt_file := (if file = wt_file s then -1 else wt_file s), bt_file := (if file = bt_file s then -1 else bt_file s)\<rparr>)"
  by pat_completeness auto
termination
  by (relation "measure (\<lambda>(file, buf, s). length (trace_answers s))") auto

declare do_trace.simps [simp del]

text \<open>The bytes of an array that a \<open>write\<close> is given; \<open>None\<close> when they are not all in the array.\<close>

definition region :: "byte list \<Rightarrow> int \<Rightarrow> int \<Rightarrow> byte list option" where
  "region buf start n =
     (if n = 0 then Some []
      else if 0 \<le> start \<and> 0 \<le> n \<and> start + n \<le> int (length buf) then Some (take (nat n) (drop (nat start) buf))
      else None)"

text \<open>What a \<open>read\<close> into an array leaves there.\<close>

definition overlay :: "byte list \<Rightarrow> nat \<Rightarrow> byte list \<Rightarrow> byte list" where
  "overlay buf i d = take i buf @ d @ drop (i + length d) buf"

text \<open>Switching over to waiting until the network takes more.\<close>

definition clear_output :: "int \<Rightarrow> 'a xfer_scheme \<Rightarrow> 'a xfer_scheme" where
  "clear_output n s =
     (upd_sel (\<lambda>sel. sel_set_fd_write_handler (tcpfd s) True (sel_set_fd_read_handler (devfd s) False sel))
        (s\<lparr>dev_to_tcp_buf_start := dev_to_tcp_buf_start s + n\<rparr>))\<lparr>dev_to_tcp_state := PORT_WAITING_OUTPUT_CLEAR\<rparr>"

text \<open>\<open>tryNetWrite\<close>: on \<open>EAGAIN\<close> the label \<open>clearOutput\<close> is reached with \<open>write_count\<close> still -1.\<close>

function tryNetWrite :: "'a xfer_scheme \<Rightarrow> (unit, 'a xfer_scheme) outcome" where
  "tryNetWrite s =
     (case region (dev_to_tcp_buf s) 0 (dev_to_tcp_buf_count s) of
        None \<Rightarrow> Wild
      | Some d \<Rightarrow>
          (let wrote = (\<lambda>n s.
                 (let s = s\<lparr>tcp_out := tcp_out s @ take n d, tcp_bytes_sent := tcp_bytes_sent s + of_nat n,
                            dev_to_tcp_buf_count := dev_to_tcp_buf_count s - int n\<rparr>
                  in if dev_to_tcp_buf_count s \<noteq> 0 then clear_output (int n) s else s))
           in case tcp_answers s of
                [] \<Rightarrow> Ret () (wrote (length d) s)
              | Wrote n # r \<Rightarrow> Ret () (wrote (min n (length d)) (s\<lparr>tcp_answers := r\<rparr>))
              | Winterrupted # r \<Rightarrow> tryNetWrite (s\<lparr>tcp_answers := r\<rparr>)
              | Wagain # r \<Rightarrow> Ret () (clear_output (-1) (s\<lparr>tcp_answers := r\<rparr>))
              | _ # r \<Rightarrow> Ret () (shutdown_port (s\<lparr>tcp_answers := r\<rparr>))))"
  by pat_completeness auto
termination
  by (relation "measure (\<lambda>s. length (tcp_answers s))") auto

declare tryNetWrite.simps [simp del]

text \<open>
  Doubling the 255 bytes among the first \<open>n\<close> of the buffer: \<open>for (j = n; j > i; j--) buf[j+1] = buf[j]\<close>, then
  the copy. \<open>None\<close> is a write beyond the buffer.
\<close>

function shift_up :: "byte list \<Rightarrow> nat \<Rightarrow> nat \<Rightarrow> byte list option" where
  "shift_up buf j i =
     (if j > i then
        (if Suc j < length buf then shift_up (buf[Suc j := buf ! j]) (j - 1) i else None)
      else Some buf)"
  by pat_completeness auto
termination
  by (relation "measure (\<lambda>(buf, j, i). j)") auto

declare shift_up.simps [simp del]

lemma shift_up_length: "shift_up buf j i = Some b \<Longrightarrow> length b = length buf"
proof (induction buf j i rule: shift_up.induct)
  case (1 buf j i)
  then show ?case by (subst (asm) (2) shift_up.simps) (auto split: if_splits)
qed

function double_loop :: "byte list \<Rightarrow> nat \<Rightarrow> nat \<Rightarrow> (byte list \<times> nat) option" where
  "double_loop buf i n =
     (if i < n then
        (if buf ! i = 255 then
           (case shift_up buf n i of
              None \<Rightarrow> None
            | Some b \<Rightarrow> if Suc i < length b then double_loop (b[Suc i := 255]) (Suc (Suc i)) (Suc n) else None)
         else double_loop buf (Suc i) n)
      else Some (buf, n))"
  by pat_completeness auto
termination
  by (relation "measure (\<lambda>(buf, i, n). n - i)") auto

declare double_loop.simps [simp del]

text \<open>
  \<open>handle_dev_fd_read\<close>. The new bytes are stored behind those still waiting, but the monitor, the traces and
  the doubling work on the beginning of the buffer. \<open>now\<close> is the answer of \<open>gettimeofday\<close>.
\<close>

definition start_age :: "int \<times> int \<Rightarrow> 'a xfer_scheme \<Rightarrow> 'a xfer_scheme" where
  "start_age now s =
     (if fst (maxAge (dinfo s)) \<noteq> 0 \<or> snd (maxAge (dinfo s)) \<noteq> 0 then
        (let usec = snd now + snd (maxAge (dinfo s));
             (sec, usec) = (if usec \<ge> 1000000 then (fst now + 1, usec - 1000000) else (fst now, usec))
         in s\<lparr>age_timer := Some (sec + fst (maxAge (dinfo s)), usec)\<rparr>)
      else s)"

definition dev_collected :: "int \<times> int \<Rightarrow> nat \<Rightarrow> 'a xfer_scheme \<Rightarrow> (unit, 'a xfer_scheme) outcome" where
  "dev_collected now n s =
     (let s = (reset_timer s)\<lparr>dev_to_tcp_buf_count := dev_to_tcp_buf_count s + int n\<rparr>
      in if dev_to_tcp_buf_count s < int (shortest (dinfo s)) then Ret () (start_age now s)
         else tryNetWrite (s\<lparr>age_timer := None\<rparr>))"

definition handle_dev_fd_read :: "int \<times> int \<Rightarrow> ranswer \<Rightarrow> 'a xfer_scheme \<Rightarrow> (unit, 'a xfer_scheme) outcome" where
  "handle_dev_fd_read now a s =
     (let room = (if enabled s = PORT_TELNET then 700 else 1400) - dev_to_tcp_buf_count s
      in if room < 0 \<or> dev_to_tcp_buf_count s < 0 then Wild
         else case a of
           Rerror \<Rightarrow> Ret () (shutdown_port s)
         | Data d \<Rightarrow>
             (let d = take (nat room) d;
                  n = length d;
                  s = s\<lparr>dev_to_tcp_buf := overlay (dev_to_tcp_buf s) (nat (dev_to_tcp_buf_count s)) d\<rparr>;
                  seen = take n (dev_to_tcp_buf s);
                  t = (if dev_monitored s then s\<lparr>monitor_out := monitor_out s @ seen\<rparr> else s);
                  t = (if rt_file t \<noteq> -1 then do_trace (rt_file t) seen t else t);
                  t = (if bt_file t \<noteq> -1 then do_trace (bt_file t) seen t else t);
                  t = t\<lparr>dev_bytes_received := dev_bytes_received t + of_nat n\<rparr>
              in if n = 0 then Ret () (shutdown_port s)
                 else if enabled t = PORT_TELNET then
                   (case double_loop (dev_to_tcp_buf t) 0 n of
                      None \<Rightarrow> Wild
                    | Some (b, m) \<Rightarrow> dev_collected now m (t\<lparr>dev_to_tcp_buf := b\<rparr>))
                 else dev_collected now n t))"

definition aged :: "'a xfer_scheme \<Rightarrow> (unit, 'a xfer_scheme) outcome" where
  "aged s = tryNetWrite (s\<lparr>age_timer := None\<rparr>)"

text \<open>\<open>handle_dev_fd_write\<close>: more of what came from the network goes to the device.\<close>

definition handle_dev_fd_write :: "'a xfer_scheme \<Rightarrow> (unit, 'a xfer_scheme) outcome" where
  "handle_dev_fd_write s =
     (case region (tcp_to_dev_buf s) (tcp_to_dev_buf_start s) (tcp_to_dev_buf_count s) of
        None \<Rightarrow> Wild
      | Some d \<Rightarrow>
          (let wrote = (\<lambda>n s.
                 (let s = s\<lparr>dev_out := dev_out s @ take n d, dev_bytes_sent := dev_bytes_sent s + of_nat n,
                            tcp_to_dev_buf_count := tcp_to_dev_buf_count s - int n\<rparr>
                  in reset_timer
                       (if tcp_to_dev_buf_count s \<noteq> 0 then s\<lparr>tcp_to_dev_buf_start := tcp_to_dev_buf_start s + int n\<rparr>
                        else (upd_sel (\<lambda>sel. sel_set_fd_write_handler (devfd s) False (sel_set_fd_read_handler (tcpfd s) True sel)) s)
                               \<lparr>tcp_to_dev_state := PORT_WAITING_INPUT\<rparr>)))
           in case dev_answers s of
                [] \<Rightarrow> Ret () (wrote (length d) s)
              | Wrote n # r \<Rightarrow> Ret () (wrote (min n (length d)) (s\<lparr>dev_answers := r\<rparr>))
              | Winterrupted # r \<Rightarrow> Ret () (s\<lparr>dev_answers := r\<rparr>)
              | Wagain # r \<Rightarrow> Ret () (reset_timer (s\<lparr>dev_answers := r\<rparr>))
              | _ # r \<Rightarrow> Ret () (shutdown_port (s\<lparr>dev_answers := r\<rparr>))))"

text \<open>\<open>handle_tcp_fd_read\<close>, from the \<open>write\<close> on: what is left waits until the device takes more.\<close>

definition wait_for_dev :: "'a xfer_scheme \<Rightarrow> 'a xfer_scheme" where
  "wait_for_dev s =
     (upd_sel (\<lambda>sel. sel_set_fd_write_handler (devfd s) True (sel_set_fd_read_handler (tcpfd s) False sel)) s)
       \<lparr>tcp_to_dev_state := PORT_WAITING_OUTPUT_CLEAR\<rparr>"

function tcp_to_dev_write :: "'a xfer_scheme \<Rightarrow> (unit, 'a xfer_scheme) outcome" where
  "tcp_to_dev_write s =
     (case region (tcp_to_dev_buf s) 0 (tcp_to_dev_buf_count s) of
        None \<Rightarrow> Wild
      | Some d \<Rightarrow>
          (let wrote = (\<lambda>n s.
                 (let s = s\<lparr>dev_out := dev_out s @ take n d, dev_bytes_sent := dev_bytes_sent s + of_nat n,
                            tcp_to_dev_buf_count := tcp_to_dev_buf_count s - int n\<rparr>
                  in reset_timer
                       (if tcp_to_dev_buf_count s \<noteq> 0
                        then wait_for_dev (s\<lparr>tcp_to_dev_buf_start := tcp_to_dev_buf_start s + int n\<rparr>) else s)))
           in case dev_answers s of
                [] \<Rightarrow> Ret () (wrote (length d) s)
              | Wrote n # r \<Rightarrow> Ret () (wrote (min n (length d)) (s\<lparr>dev_answers := r\<rparr>))
              | Winterrupted # r \<Rightarrow> tcp_to_dev_write (s\<lparr>dev_answers := r\<rparr>)
              | Wagain # r \<Rightarrow> Ret () (reset_timer (wait_for_dev (s\<lparr>dev_answers := r\<rparr>)))
              | _ # r \<Rightarrow> Ret () (shutdown_port (s\<lparr>dev_answers := r\<rparr>))))"
  by pat_completeness auto
termination
  by (relation "measure (\<lambda>s. length (dev_answers s))") auto

declare tcp_to_dev_write.simps [simp del]

definition tcp_data :: "'a xfer_scheme \<Rightarrow> (unit, 'a xfer_scheme) outcome" where
  "tcp_data s =
     (let seen = take (nat (tcp_to_dev_buf_count s)) (tcp_to_dev_buf s);
          s = (if tcp_monitored s then s\<lparr>monitor_out := monitor_out s @ seen\<rparr> else s);
          s = (if wt_file s \<noteq> -1 then do_trace (wt_file s) seen s else s);
          s = (if bt_file s \<noteq> -1 then do_trace (bt_file s) seen s else s)
      in tcp_to_dev_write s)"

text \<open>The port after \<open>read\<close> has stored \<open>d\<close> and the bytes have been counted.\<close>

definition loaded :: "byte list \<Rightarrow> 'a xfer_scheme \<Rightarrow> 'a xfer_scheme" where
  "loaded d s = s\<lparr>tcp_to_dev_buf_start := 0, tcp_to_dev_buf := overlay (tcp_to_dev_buf s) 0 d, tcp_to_dev_buf_count := int (length d),
     tcp_bytes_received := tcp_bytes_received s + of_nat (length d)\<rparr>"

definition handle_tcp_fd_read :: "ranswer \<Rightarrow> 'a xfer_scheme \<Rightarrow> (unit, 'a xfer_scheme) outcome" where
  "handle_tcp_fd_read a s =
     (case a of
        Rerror \<Rightarrow> Ret () (shutdown_port (s\<lparr>tcp_to_dev_buf_start := 0, tcp_to_dev_buf_count := -1\<rparr>))
      | Data d \<Rightarrow>
          (let d = take PORT_BUFSIZE d;
               s = loaded d s
           in if d = [] then (if enabled s \<noteq> PORT_UDP then Ret () (shutdown_port s) else Ret () s)
              else if enabled s = PORT_TELNET then
                kbind (process_telnet_data port_cb (tcp_to_dev_buf s) (length d) s) (\<lambda>(b, n) s.
                  (let s = s\<lparr>tcp_to_dev_buf := b, tcp_to_dev_buf_count := int n\<rparr>
                   in if td_error s then Ret () (shutdown_port s)
                      else if n = 0 then Ret () s
                      else tcp_data s))
              else tcp_data s))"

text \<open>
  \<open>handle_tcp_fd_write\<close>: first the telnet commands that wait, and only when there are none left the data.
\<close>

definition net_write :: "'a xfer_scheme \<Rightarrow> (unit, 'a xfer_scheme) outcome" where
  "net_write s =
     (case region (dev_to_tcp_buf s) (dev_to_tcp_buf_start s) (dev_to_tcp_buf_count s) of
        None \<Rightarrow> Wild
      | Some d \<Rightarrow>
          (let wrote = (\<lambda>n s.
                 (let s = s\<lparr>tcp_out := tcp_out s @ take n d, tcp_bytes_sent := tcp_bytes_sent s + of_nat n,
                            dev_to_tcp_buf_count := dev_to_tcp_buf_count s - int n\<rparr>
                  in reset_timer
                       (if dev_to_tcp_buf_count s \<noteq> 0 then s\<lparr>dev_to_tcp_buf_start := dev_to_tcp_buf_start s + int n\<rparr>
                        else (upd_sel (\<lambda>sel. sel_set_fd_write_handler (tcpfd s) False (sel_set_fd_read_handler (devfd s) True sel)) s)
                               \<lparr>dev_to_tcp_state := PORT_WAITING_INPUT\<rparr>)))
           in case tcp_answers s of
                [] \<Rightarrow> Ret () (wrote (length d) s)
              | Wrote n # r \<Rightarrow> Ret () (wrote (min n (length d)) (s\<lparr>tcp_answers := r\<rparr>))
              | Winterrupted # r \<Rightarrow> Ret () (s\<lparr>tcp_answers := r\<rparr>)
              | Wagain # r \<Rightarrow> Ret () (reset_timer (s\<lparr>tcp_answers := r\<rparr>))
              | _ # r \<Rightarrow> Ret () (shutdown_port (s\<lparr>tcp_answers := r\<rparr>))))"

definition handle_tcp_fd_write :: "'a xfer_scheme \<Rightarrow> (unit, 'a xfer_scheme) outcome" where
  "handle_tcp_fd_write s =
     (if out_telnet_cmd s = [] then net_write s
      else
        (let d = out_telnet_cmd s;
             wrote = (\<lambda>n s.
               (let s = s\<lparr>tcp_out := tcp_out s @ take n d, out_telnet_cmd := drop n d\<rparr>
                in if out_telnet_cmd s \<noteq> [] then Ret () s else net_write s))
         in case tcp_answers s of
              [] \<Rightarrow> wrote (length d) s
            | Wrote n # r \<Rightarrow> wrote (min n (length d)) (s\<lparr>tcp_answers := r\<rparr>)
            | Winterrupted # r \<Rightarrow> Ret () (s\<lparr>tcp_answers := r\<rparr>)
            | Wagain # r \<Rightarrow> net_write (s\<lparr>tcp_answers := r\<rparr>)
            | _ # r \<Rightarrow> Ret () (shutdown_port (s\<lparr>tcp_answers := r\<rparr>))))"

definition handle_fd_except :: "'a xfer_scheme \<Rightarrow> (unit, 'a xfer_scheme) outcome" where
  "handle_fd_except s = Ret () (shutdown_port s)"

text \<open>\<open>got_timeout\<close>: the idle timeout, and the state of the modem lines where the client watches them.\<close>

definition got_timeout :: "'a xfer_scheme \<Rightarrow> 'a xfer_scheme" where
  "got_timeout s =
     (let s = (if timeout s \<noteq> 0 then s\<lparr>timeout_left := timeout_left s - 1\<rparr> else s)
      in if timeout s \<noteq> 0 \<and> timeout_left s < 0 then shutdown_port s
         else
           (let s = (case (if is_2217 s then modem s else None) of
                       None \<Rightarrow> s
                     | Some val \<Rightarrow>
                         (let m = modemstate_of val AND modemstate_mask s
                          in if m \<noteq> last_modemstate s then reply [44, 107, m] (s\<lparr>last_modemstate := m\<rparr>) else s))
            in s\<lparr>port_timer := True\<rparr>))"

section \<open>From the network to the device\<close>

text \<open>The part of a port that the path from the network to the device uses, and what waits on it.\<close>

definition t2d :: "'a xfer_scheme \<Rightarrow> byte list \<times> int \<times> int \<times> byte list \<times> port_kind \<times> nat \<times> nat \<times> bool \<times> bool" where
  "t2d s = (tcp_to_dev_buf s, tcp_to_dev_buf_start s, tcp_to_dev_buf_count s, dev_out s, enabled s, tcpfd s, devfd s,
     tcpfd s \<noteq> devfd s \<and> tcpfd s \<in> set (read_set (port_sel s)), shut_down s)"

definition unsent :: "'a xfer_scheme \<Rightarrow> byte list" where
  "unsent s = take (nat (tcp_to_dev_buf_count s)) (drop (nat (tcp_to_dev_buf_start s)) (tcp_to_dev_buf s))"

definition t2d_ok :: "'a xfer_scheme \<Rightarrow> bool" where
  "t2d_ok s \<longleftrightarrow> length (tcp_to_dev_buf s) = PORT_BUFSIZE \<and> tcpfd s \<noteq> devfd s \<and> 0 \<le> tcp_to_dev_buf_start s \<and>
     0 \<le> tcp_to_dev_buf_count s \<and> tcp_to_dev_buf_start s + tcp_to_dev_buf_count s \<le> int PORT_BUFSIZE \<and>
     (tcpfd s \<in> set (read_set (port_sel s)) \<longrightarrow> tcp_to_dev_buf_count s = 0)"

lemma t2d_same:
  assumes "t2d t = t2d s"
  shows "t2d_ok t = t2d_ok s" "unsent t = unsent s" "dev_out t = dev_out s" "shut_down t = shut_down s"
  using assms by (auto simp: t2d_def t2d_ok_def unsent_def)

lemma xpart_t2d: "xpart t = xpart s \<Longrightarrow> t2d t = t2d s"
  by (cases s, cases t) (simp add: xpart_def t2d_def)

lemma t2d_upd [simp]:
  fixes s :: "'a xfer_scheme"
  shows "t2d (s\<lparr>timeout_left := i\<rparr>) = t2d s" "t2d (s\<lparr>dev_to_tcp_state := p\<rparr>) = t2d s" "t2d (s\<lparr>dev_to_tcp_buf := b\<rparr>) = t2d s"
    "t2d (s\<lparr>dev_to_tcp_buf_start := i\<rparr>) = t2d s" "t2d (s\<lparr>dev_to_tcp_buf_count := i\<rparr>) = t2d s" "t2d (s\<lparr>tcp_to_dev_state := p\<rparr>) = t2d s"
    "t2d (s\<lparr>tcp_bytes_received := w\<rparr>) = t2d s" "t2d (s\<lparr>tcp_bytes_sent := w\<rparr>) = t2d s" "t2d (s\<lparr>dev_bytes_received := w\<rparr>) = t2d s"
    "t2d (s\<lparr>dev_bytes_sent := w\<rparr>) = t2d s" "t2d (s\<lparr>rt_file := i\<rparr>) = t2d s" "t2d (s\<lparr>wt_file := i\<rparr>) = t2d s" "t2d (s\<lparr>bt_file := i\<rparr>) = t2d s"
    "t2d (s\<lparr>age_timer := a\<rparr>) = t2d s" "t2d (s\<lparr>port_timer := t\<rparr>) = t2d s" "t2d (s\<lparr>dev_answers := l\<rparr>) = t2d s" "t2d (s\<lparr>tcp_answers := l\<rparr>) = t2d s"
    "t2d (s\<lparr>trace_answers := l\<rparr>) = t2d s" "t2d (s\<lparr>tcp_out := b\<rparr>) = t2d s" "t2d (s\<lparr>traced := tr\<rparr>) = t2d s" "t2d (s\<lparr>monitor_out := b\<rparr>) = t2d s"
    "t2d (s\<lparr>out_telnet_cmd := b\<rparr>) = t2d s" "t2d (s\<lparr>last_modemstate := m\<rparr>) = t2d s"
  by (simp_all add: t2d_def)

lemma t2d_reset [simp]: "t2d (reset_timer s) = t2d s" "t2d (start_age now s) = t2d s"
  by (simp_all add: reset_timer_def start_age_def Let_def case_prod_unfold)

lemma t2d_net_sel [simp]:
  "x = tcpfd s \<Longrightarrow> y = devfd s \<Longrightarrow> t2d (upd_sel (\<lambda>sel. sel_set_fd_write_handler x b (sel_set_fd_read_handler y c sel)) s) = t2d s"
  by (auto simp: t2d_def upd_sel_def)

lemma t2d_trace [simp]: "t2d (do_trace f b s) = t2d s"
proof (induction f b s rule: do_trace.induct)
  case (1 f b s)
  then show ?case by (subst do_trace.simps) (auto split: list.split wanswer.split)
qed

lemma shut_down_shutdown [simp]: "shut_down (shutdown_port s)"
  by (simp add: shutdown_port_def Let_def request_def)

lemma t2d_clear_output [simp]: "t2d (clear_output n s) = t2d s"
  by (simp add: clear_output_def)

lemma tryNetWrite_t2d: "tryNetWrite s = Ret u t \<Longrightarrow> shut_down t \<or> t2d t = t2d s"
proof (induction s rule: tryNetWrite.induct)
  case (1 s)
  from 1(2) show ?case
    by (subst (asm) tryNetWrite.simps)
       (auto simp: Let_def split: option.splits list.splits wanswer.splits if_splits dest!: 1(1))
qed

lemma dev_collected_t2d: "dev_collected now n s = Ret u t \<Longrightarrow> shut_down t \<or> t2d t = t2d s"
  by (auto simp: dev_collected_def Let_def split: if_splits dest!: tryNetWrite_t2d)

lemma handle_dev_fd_read_t2d:
  assumes "handle_dev_fd_read now a s = Ret u t"
  shows "shut_down t \<or> t2d t = t2d s"
proof (cases a)
  case Rerror
  then show ?thesis using assms by (auto simp: handle_dev_fd_read_def Let_def split: if_splits)
next
  case (Data d)
  define e where "e = take (nat ((if enabled s = PORT_TELNET then 700 else 1400) - dev_to_tcp_buf_count s)) d"
  define s1 where "s1 = s\<lparr>dev_to_tcp_buf := overlay (dev_to_tcp_buf s) (nat (dev_to_tcp_buf_count s)) e\<rparr>"
  define s2 where "s2 = (if dev_monitored s1 then s1\<lparr>monitor_out := monitor_out s1 @ take (length e) (dev_to_tcp_buf s1)\<rparr> else s1)"
  define s3 where "s3 = (if rt_file s2 \<noteq> -1 then do_trace (rt_file s2) (take (length e) (dev_to_tcp_buf s1)) s2 else s2)"
  define s4 where "s4 = (if bt_file s3 \<noteq> -1 then do_trace (bt_file s3) (take (length e) (dev_to_tcp_buf s1)) s3 else s3)"
  define s5 where "s5 = s4\<lparr>dev_bytes_received := dev_bytes_received s4 + of_nat (length e)\<rparr>"
  have t: "t2d s5 = t2d s" by (simp add: s5_def s4_def s3_def s2_def s1_def)
  have "handle_dev_fd_read now a s =
    (if (if enabled s = PORT_TELNET then 700 else 1400) - dev_to_tcp_buf_count s < 0 \<or> dev_to_tcp_buf_count s < 0 then Wild
     else if length e = 0 then Ret () (shutdown_port s1) else if enabled s5 = PORT_TELNET then
      (case double_loop (dev_to_tcp_buf s5) 0 (length e) of None \<Rightarrow> Wild
       | Some (b, m) \<Rightarrow> dev_collected now m (s5\<lparr>dev_to_tcp_buf := b\<rparr>)) else dev_collected now (length e) s5)"
    unfolding handle_dev_fd_read_def Data ranswer.case Let_def s5_def s4_def s3_def s2_def s1_def e_def by (rule refl)
  with assms t show ?thesis by (auto split: if_splits option.splits dest!: dev_collected_t2d)
qed

lemma net_write_t2d: "net_write s = Ret u t \<Longrightarrow> shut_down t \<or> t2d t = t2d s"
  by (auto simp: net_write_def Let_def split: option.splits list.splits wanswer.splits if_splits)

lemma handle_tcp_fd_write_t2d: "handle_tcp_fd_write s = Ret u t \<Longrightarrow> shut_down t \<or> t2d t = t2d s"
  by (auto simp: handle_tcp_fd_write_def Let_def split: list.splits wanswer.splits if_splits dest!: net_write_t2d)

lemma got_timeout_t2d: "shut_down (got_timeout s) \<or> t2d (got_timeout s) = t2d s"
proof -
  have r: "t2d (reply d v) = t2d v" for d and v :: "'a xfer_scheme" by (rule xpart_t2d) simp
  show ?thesis by (auto simp: got_timeout_def Let_def r split: option.split)
qed

text \<open>Writing to the device: what is written and what waits together are what was there.\<close>

lemma region_unsent:
  assumes "t2d_ok s" "region (tcp_to_dev_buf s) (tcp_to_dev_buf_start s) (tcp_to_dev_buf_count s) = Some d"
  shows "d = unsent s" "length d = nat (tcp_to_dev_buf_count s)"
  using assms by (auto simp: t2d_ok_def region_def unsent_def split: if_splits)

lemma region_ok: "t2d_ok s \<Longrightarrow> region (tcp_to_dev_buf s) (tcp_to_dev_buf_start s) (tcp_to_dev_buf_count s) = Some (unsent s)"
  by (auto simp: t2d_ok_def region_def unsent_def)

lemma unsent_advance:
  assumes "t2d_ok s" "n \<le> length (unsent s)"
  shows "take (nat (tcp_to_dev_buf_count s - int n)) (drop (nat (tcp_to_dev_buf_start s + int n)) (tcp_to_dev_buf s)) = drop n (unsent s)"
proof -
  have "nat (tcp_to_dev_buf_count s - int n) = nat (tcp_to_dev_buf_count s) - n" by simp
  moreover have "nat (tcp_to_dev_buf_start s + int n) = n + nat (tcp_to_dev_buf_start s)" using assms(1) by (simp add: t2d_ok_def nat_add_distrib)
  ultimately show ?thesis by (simp add: unsent_def drop_take add.commute)
qed

lemma unsent_length: "t2d_ok s \<Longrightarrow> length (unsent s) = nat (tcp_to_dev_buf_count s)"
  by (auto simp: t2d_ok_def unsent_def)

text \<open>\<open>forwards s t\<close>: on the way from \<open>s\<close> to \<open>t\<close> nothing has been lost, added or put out of order.\<close>

definition forwards :: "'a xfer_scheme \<Rightarrow> byte list \<Rightarrow> 'a xfer_scheme \<Rightarrow> bool" where
  "forwards s d t \<longleftrightarrow> t2d_ok t \<and> dev_out t @ unsent t = dev_out s @ d"

lemma forwards_t2d: "t2d u = t2d t \<Longrightarrow> forwards s d t \<Longrightarrow> forwards s d u"
  using t2d_same [of u t] by (simp add: forwards_def)

lemma forwards_more:
  assumes "t2d_ok s" "n \<le> length (unsent s)" "t2d t = t2d s" "tcp_to_dev_buf_count s - int n \<noteq> 0"
  shows "forwards s (unsent s) (t\<lparr>dev_out := dev_out t @ take n (unsent s), tcp_to_dev_buf_count := tcp_to_dev_buf_count t - int n,
    tcp_to_dev_buf_start := tcp_to_dev_buf_start t + int n\<rparr>)"
proof -
  have f: "tcp_to_dev_buf t = tcp_to_dev_buf s" "tcp_to_dev_buf_start t = tcp_to_dev_buf_start s" "tcp_to_dev_buf_count t = tcp_to_dev_buf_count s"
    "dev_out t = dev_out s" "tcpfd t = tcpfd s" "devfd t = devfd s" using assms(3) by (auto simp: t2d_def)
  let ?v = "t\<lparr>dev_out := dev_out t @ take n (unsent s), tcp_to_dev_buf_count := tcp_to_dev_buf_count t - int n,
    tcp_to_dev_buf_start := tcp_to_dev_buf_start t + int n\<rparr>"
  have "unsent ?v = drop n (unsent s)" unfolding unsent_def [of ?v] using unsent_advance [OF assms(1,2)] f by simp
  moreover have "t2d_ok t" using t2d_same [OF assms(3)] assms(1) by simp
  then have "t2d_ok ?v" using assms(2,4) unsent_length [OF assms(1)] f by (auto simp: t2d_ok_def)
  ultimately show ?thesis by (simp add: forwards_def f)
qed

lemma forwards_all:
  assumes "t2d_ok s" "t2d t = t2d s" "tcp_to_dev_buf_count s - int n = 0"
  shows "forwards s (unsent s) (t\<lparr>dev_out := dev_out t @ take n (unsent s), tcp_to_dev_buf_count := 0\<rparr>)"
proof -
  have p: "take n (unsent s) = unsent s" using unsent_length [OF assms(1)] assms(3) by simp
  have "t2d_ok t" using t2d_same [OF assms(2)] assms(1) by simp
  moreover have "dev_out t = dev_out s" using t2d_same [OF assms(2)] by simp
  ultimately show ?thesis unfolding p by (auto simp: forwards_def t2d_ok_def unsent_def [of "t\<lparr>dev_out := x, tcp_to_dev_buf_count := 0\<rparr>" for x])
qed

lemma forwards_sel:
  assumes "forwards s d t" "b \<longrightarrow> tcp_to_dev_buf_count t = 0"
  shows "forwards s d (upd_sel (\<lambda>sel. sel_set_fd_write_handler x c (sel_set_fd_read_handler (tcpfd t) b sel)) t)"
  using assms by (auto simp: forwards_def t2d_ok_def unsent_def upd_sel_def)

lemma handle_dev_fd_write_step:
  fixes s :: "'a xfer_scheme"
  assumes ok: "t2d_ok s" and w: "handle_dev_fd_write s = Ret u t"
  shows "shut_down t \<or> forwards s (unsent s) t"
proof -
  define wrote where "wrote = (\<lambda>n (s' :: 'a xfer_scheme). (let s = s'\<lparr>dev_out := dev_out s' @ take n (unsent s), dev_bytes_sent := dev_bytes_sent s' + of_nat n,
        tcp_to_dev_buf_count := tcp_to_dev_buf_count s' - int n\<rparr>
      in reset_timer
           (if tcp_to_dev_buf_count s \<noteq> 0 then s\<lparr>tcp_to_dev_buf_start := tcp_to_dev_buf_start s + int n\<rparr>
            else (upd_sel (\<lambda>sel. sel_set_fd_write_handler (devfd s) False (sel_set_fd_read_handler (tcpfd s) True sel)) s)
                   \<lparr>tcp_to_dev_state := PORT_WAITING_INPUT\<rparr>)))"
  have wr: "forwards s (unsent s) (wrote n s')" if "t2d s' = t2d s" "n \<le> length (unsent s)" for n and s' :: "'a xfer_scheme"
  proof (cases "tcp_to_dev_buf_count s - int n = 0")
    case True
    have c: "tcp_to_dev_buf_count s' = tcp_to_dev_buf_count s" using that(1) by (simp add: t2d_def)
    let ?v = "s'\<lparr>dev_out := dev_out s' @ take n (unsent s), tcp_to_dev_buf_count := 0\<rparr>"
    have "forwards s (unsent s) (upd_sel (\<lambda>sel. sel_set_fd_write_handler (devfd ?v) False (sel_set_fd_read_handler (tcpfd ?v) True sel)) ?v)"
      by (rule forwards_sel [OF forwards_all [OF ok that(1) True]]) simp
    then show ?thesis using True c
      by (auto simp: wrote_def Let_def upd_sel_def elim!: forwards_t2d [rotated]) (simp add: t2d_def reset_timer_def)
  next
    case False
    have c: "tcp_to_dev_buf_count s' = tcp_to_dev_buf_count s" using that(1) by (simp add: t2d_def)
    show ?thesis using False c
      by (intro forwards_t2d [OF _ forwards_more [OF ok that(2,1) False]]) (simp add: wrote_def Let_def t2d_def reset_timer_def)
  qed
  have e: "handle_dev_fd_write s = (case dev_answers s of
                [] \<Rightarrow> Ret () (wrote (length (unsent s)) s)
              | Wrote n # r \<Rightarrow> Ret () (wrote (min n (length (unsent s))) (s\<lparr>dev_answers := r\<rparr>))
              | Winterrupted # r \<Rightarrow> Ret () (s\<lparr>dev_answers := r\<rparr>)
              | Wagain # r \<Rightarrow> Ret () (reset_timer (s\<lparr>dev_answers := r\<rparr>))
              | _ # r \<Rightarrow> Ret () (shutdown_port (s\<lparr>dev_answers := r\<rparr>)))"
    unfolding handle_dev_fd_write_def region_ok [OF ok] option.case wrote_def by (simp only: Let_def)
  have same: "forwards s (unsent s) v" if "t2d v = t2d s" for v :: "'a xfer_scheme"
    using ok t2d_same [OF that] by (simp add: forwards_def)
  show ?thesis
    using w unfolding e by (auto split: list.splits wanswer.splits intro: wr same)
qed

definition just_read :: "'a xfer_scheme \<Rightarrow> bool" where
  "just_read s \<longleftrightarrow> length (tcp_to_dev_buf s) = PORT_BUFSIZE \<and> tcpfd s \<noteq> devfd s \<and> tcp_to_dev_buf_start s = 0 \<and>
     0 \<le> tcp_to_dev_buf_count s \<and> tcp_to_dev_buf_count s \<le> int PORT_BUFSIZE"

lemma wait_for_dev_fields [simp]:
  "dev_out (wait_for_dev s) = dev_out s" "tcp_to_dev_buf (wait_for_dev s) = tcp_to_dev_buf s" "unsent (wait_for_dev s) = unsent s"
  "tcp_to_dev_buf_count (wait_for_dev s) = tcp_to_dev_buf_count s" "tcp_to_dev_buf_start (wait_for_dev s) = tcp_to_dev_buf_start s"
  by (simp_all add: wait_for_dev_def upd_sel_def unsent_def)

lemma wait_for_dev_ok: "just_read s \<Longrightarrow> t2d_ok (wait_for_dev s)"
  by (auto simp: just_read_def t2d_ok_def wait_for_dev_def upd_sel_def)

lemma tcp_to_dev_write_step:
  fixes s :: "'a xfer_scheme"
  shows "just_read s \<Longrightarrow> tcp_to_dev_write s = Ret u t \<Longrightarrow> shut_down t \<or> forwards s (unsent s) t"
proof (induction s rule: tcp_to_dev_write.induct)
  case (1 s)
  note ok = "1.prems"(1)
  let ?w = "wait_for_dev s"
  have reg: "region (tcp_to_dev_buf s) 0 (tcp_to_dev_buf_count s) = Some (unsent s)"
    using region_ok [OF wait_for_dev_ok [OF ok]] ok by (simp add: just_read_def)
  define wrote where "wrote = (\<lambda>n (s' :: 'a xfer_scheme). (let s = s'\<lparr>dev_out := dev_out s' @ take n (unsent s), dev_bytes_sent := dev_bytes_sent s' + of_nat n,
        tcp_to_dev_buf_count := tcp_to_dev_buf_count s' - int n\<rparr>
      in reset_timer
           (if tcp_to_dev_buf_count s \<noteq> 0
            then wait_for_dev (s\<lparr>tcp_to_dev_buf_start := tcp_to_dev_buf_start s + int n\<rparr>) else s)))"
  have wr: "forwards s (unsent s) (wrote n s')" if "t2d s' = t2d s" "n \<le> length (unsent s)" for n and s' :: "'a xfer_scheme"
  proof (cases "tcp_to_dev_buf_count s - int n = 0")
    case True
    have f: "tcp_to_dev_buf_count s' = tcp_to_dev_buf_count s" "dev_out s' = dev_out s" "tcpfd s' = tcpfd s" "devfd s' = devfd s"
      "tcp_to_dev_buf s' = tcp_to_dev_buf s" "tcp_to_dev_buf_start s' = tcp_to_dev_buf_start s"
      using that(1) by (auto simp: t2d_def)
    have "n = length (unsent s)" using unsent_length [OF wait_for_dev_ok [OF ok]] True by simp
    then show ?thesis using True f ok
      by (auto simp: wrote_def Let_def forwards_def t2d_ok_def just_read_def reset_timer_def unsent_def [of "_\<lparr>timeout_left := _\<rparr>"])
  next
    case False
    have f: "tcp_to_dev_buf_count s' = tcp_to_dev_buf_count s" using that(1) by (simp add: t2d_def)
    have p: "unsent ?w = unsent s" by simp
    let ?v = "?w\<lparr>dev_out := dev_out ?w @ take n (unsent s),
        tcp_to_dev_buf_count := tcp_to_dev_buf_count ?w - int n, tcp_to_dev_buf_start := tcp_to_dev_buf_start ?w + int n\<rparr>"
    have "forwards ?w (unsent s) ?v"
      using forwards_more [OF wait_for_dev_ok [OF ok], of n ?w] that(2) False by (simp add: p)
    moreover define q where "q = unsent s"
    moreover have "t2d (wrote n s') = t2d ?v"
      using that(1) False f ok unfolding wrote_def q_def [symmetric]
      by (auto simp: Let_def t2d_def reset_timer_def wait_for_dev_def upd_sel_def just_read_def)
    ultimately show ?thesis using forwards_t2d [of "wrote n s'" ?v ?w] by (simp add: forwards_def)
  qed
  have e: "tcp_to_dev_write s = (case dev_answers s of
                [] \<Rightarrow> Ret () (wrote (length (unsent s)) s)
              | Wrote n # r \<Rightarrow> Ret () (wrote (min n (length (unsent s))) (s\<lparr>dev_answers := r\<rparr>))
              | Winterrupted # r \<Rightarrow> tcp_to_dev_write (s\<lparr>dev_answers := r\<rparr>)
              | Wagain # r \<Rightarrow> Ret () (reset_timer (wait_for_dev (s\<lparr>dev_answers := r\<rparr>)))
              | _ # r \<Rightarrow> Ret () (shutdown_port (s\<lparr>dev_answers := r\<rparr>)))"
    unfolding wrote_def by (subst tcp_to_dev_write.simps) (simp only: Let_def reg option.case)
  have ih: "shut_down t \<or> forwards s (unsent s) t" if "dev_answers s = Winterrupted # r" "tcp_to_dev_write (s\<lparr>dev_answers := r\<rparr>) = Ret () t" for r
    using "1.IH" [OF reg refl that(1) refl _] that(2) ok by (simp add: just_read_def forwards_def unsent_def)
  have ag: "forwards s (unsent s) (reset_timer (wait_for_dev (s\<lparr>dev_answers := r\<rparr>)))" for r
    using wait_for_dev_ok [of "s\<lparr>dev_answers := r\<rparr>"] ok
    by (simp add: forwards_def just_read_def reset_timer_def t2d_ok_def unsent_def)
  show ?case
    using "1.prems"(2) unfolding e by (auto split: list.splits wanswer.splits intro: wr ag dest: ih)
qed

lemma tcp_data_step:
  assumes "just_read s" "tcp_data s = Ret u t"
  shows "shut_down t \<or> forwards s (unsent s) t"
proof -
  define d where "d = take (nat (tcp_to_dev_buf_count s)) (tcp_to_dev_buf s)"
  define s1 where "s1 = (if tcp_monitored s then s\<lparr>monitor_out := monitor_out s @ d\<rparr> else s)"
  define s2 where "s2 = (if wt_file s1 \<noteq> -1 then do_trace (wt_file s1) d s1 else s1)"
  define s3 where "s3 = (if bt_file s2 \<noteq> -1 then do_trace (bt_file s2) d s2 else s2)"
  have t: "t2d s3 = t2d s" by (simp add: s3_def s2_def s1_def)
  have "tcp_to_dev_write s3 = Ret u t"
    using assms(2) unfolding tcp_data_def Let_def s3_def s2_def s1_def d_def by assumption
  moreover have "just_read s3" using assms(1) t by (auto simp: t2d_def just_read_def)
  ultimately show ?thesis using tcp_to_dev_write_step t2d_same [OF t] by (fastforce simp: forwards_def)
qed

text \<open>What a segment \<open>d\<close> is for the device: itself, or on a telnet port what is left of it without the commands.\<close>

definition received :: "byte list \<Rightarrow> 'a xfer_scheme \<Rightarrow> byte list" where
  "received d s =
     (if enabled s = PORT_TELNET then (case telnet_stream port_cb d (loaded d s) of Ret x t \<Rightarrow> x | _ \<Rightarrow> []) else d)"

lemma handle_tcp_fd_read_step:
  fixes s :: "'a xfer_scheme"
  assumes ok: "t2d_ok s" and idle: "tcp_to_dev_buf_count s = 0" and d: "length d \<le> PORT_BUFSIZE"
    and r: "handle_tcp_fd_read (Data d) s = Ret u t"
  shows "shut_down t \<or> forwards s (received d s) t"
proof -
  define v where "v = loaded d s"
  have take: "take PORT_BUFSIZE d = d" using d by simp
  have e: "handle_tcp_fd_read (Data d) s = (if d = [] then (if enabled v \<noteq> PORT_UDP then Ret () (shutdown_port v) else Ret () v)
      else if enabled v = PORT_TELNET then
        kbind (process_telnet_data port_cb (tcp_to_dev_buf v) (length d) v) (\<lambda>(b, n) s.
          (let s = s\<lparr>tcp_to_dev_buf := b, tcp_to_dev_buf_count := int n\<rparr>
           in if td_error s then Ret () (shutdown_port s) else if n = 0 then Ret () s else tcp_data s))
      else tcp_data v)"
    unfolding handle_tcp_fd_read_def ranswer.case take v_def by (simp only: Let_def)
  have v: "just_read v" "dev_out v = dev_out s" "unsent v = d" "enabled v = enabled s" "take (length d) (tcp_to_dev_buf v) = d"
    "length (tcp_to_dev_buf v) = PORT_BUFSIZE"
    using ok d by (auto simp: v_def loaded_def just_read_def t2d_ok_def overlay_def unsent_def)
  have data: "shut_down t \<or> forwards s (unsent w) t"
    if "just_read w" "dev_out w = dev_out s" "tcp_data w = Ret u t" for w :: "'a xfer_scheme"
    using tcp_data_step [OF that(1,3)] that(2) by (simp add: forwards_def)
  consider "d = []" | "d \<noteq> []" "enabled v \<noteq> PORT_TELNET" | "d \<noteq> []" "enabled v = PORT_TELNET" by blast
  then show ?thesis
  proof cases
    case 1
    then show ?thesis using r e v ok
      by (auto simp: forwards_def received_def t2d_ok_def v_def loaded_def overlay_def unsent_def split: if_splits)
  next
    case 2
    then show ?thesis using r e data [OF v(1,2)] v(3,4) by (simp add: received_def)
  next
    case 3
    from r e 3 obtain b n w where p: "process_telnet_data port_cb (tcp_to_dev_buf v) (length d) v = Ret (b, n) w"
      and c: "(let s = w\<lparr>tcp_to_dev_buf := b, tcp_to_dev_buf_count := int n\<rparr>
           in if td_error s then Ret () (shutdown_port s) else if n = 0 then Ret () s else tcp_data s) = Ret u t"
      by (auto simp: kbind_Ret_iff)
    have x: "telnet_stream port_cb d v = Ret (take n b) w"
      using process_stream [of "length d" "tcp_to_dev_buf v" port_cb v] p v(5,6) d by simp
    have tw: "t2d w = t2d v" by (rule xpart_t2d) (rule port_frame.part_process [OF p])
    let ?w = "w\<lparr>tcp_to_dev_buf := b, tcp_to_dev_buf_count := int n\<rparr>"
    have l: "length b = PORT_BUFSIZE" "n \<le> length d" using process_lengths [OF p] v(6) by simp_all
    have w: "just_read ?w" "dev_out ?w = dev_out s" "unsent ?w = take n b"
      using tw v(1,2) l d by (auto simp: t2d_def just_read_def unsent_def)
    have "received d s = take n b" using 3 v(4) x by (simp add: received_def v_def)
    moreover have "forwards s [] ?w" if "n = 0" using w that by (auto simp: forwards_def just_read_def t2d_ok_def)
    ultimately show ?thesis using c data [OF w(1,2)] w(3) by (auto simp: Let_def split: if_splits)
  qed
qed

text \<open>
  A port at work: any sequence of the events the selector reports, as long as the port is not shut down;
  the network is read only while it is watched. The list collects what has been received for the device.
\<close>

inductive port_run :: "'a xfer_scheme \<Rightarrow> byte list \<Rightarrow> 'a xfer_scheme \<Rightarrow> bool" for s where
  start: "port_run s [] s"
| net_read: "port_run s r t \<Longrightarrow> \<not> shut_down t \<Longrightarrow> tcpfd t \<in> set (read_set (port_sel t)) \<Longrightarrow> length d \<le> PORT_BUFSIZE \<Longrightarrow>
    handle_tcp_fd_read (Data d) t = Ret () u \<Longrightarrow> port_run s (r @ received d t) u"
| net_error: "port_run s r t \<Longrightarrow> \<not> shut_down t \<Longrightarrow> handle_tcp_fd_read Rerror t = Ret () u \<Longrightarrow> port_run s r u"
| net_write: "port_run s r t \<Longrightarrow> \<not> shut_down t \<Longrightarrow> handle_tcp_fd_write t = Ret () u \<Longrightarrow> port_run s r u"
| dev_read: "port_run s r t \<Longrightarrow> \<not> shut_down t \<Longrightarrow> handle_dev_fd_read now a t = Ret () u \<Longrightarrow> port_run s r u"
| dev_write: "port_run s r t \<Longrightarrow> \<not> shut_down t \<Longrightarrow> handle_dev_fd_write t = Ret () u \<Longrightarrow> port_run s r u"
| exception: "port_run s r t \<Longrightarrow> \<not> shut_down t \<Longrightarrow> handle_fd_except t = Ret () u \<Longrightarrow> port_run s r u"
| age: "port_run s r t \<Longrightarrow> \<not> shut_down t \<Longrightarrow> aged t = Ret () u \<Longrightarrow> port_run s r u"
| second: "port_run s r t \<Longrightarrow> \<not> shut_down t \<Longrightarrow> port_run s r (got_timeout t)"

lemma forwards_trans: "forwards s r t \<Longrightarrow> shut_down u \<or> forwards t (unsent t) u \<Longrightarrow> shut_down u \<or> forwards s r u"
  by (auto simp: forwards_def)

lemma forwards_frame: "forwards s r t \<Longrightarrow> shut_down u \<or> t2d u = t2d t \<Longrightarrow> shut_down u \<or> forwards s r u"
  using forwards_t2d by blast

lemma port_run_forwards:
  assumes "port_run s r t" "t2d_ok s" "unsent s = []"
  shows "shut_down t \<or> forwards s r t"
  using assms(1)
proof induction
  case start
  then show ?case using assms(2,3) by (simp add: forwards_def)
next
  case (net_read r t d u)
  then have f: "forwards s r t" by simp
  then have c: "tcp_to_dev_buf_count t = 0" "t2d_ok t" using net_read(3) by (auto simp: forwards_def t2d_ok_def)
  then have "unsent t = []" by (simp add: unsent_def)
  with handle_tcp_fd_read_step [OF c(2,1) net_read(4,5)] f show ?case by (auto simp: forwards_def)
next
  case (net_error r t u)
  then show ?case by (auto simp: handle_tcp_fd_read_def)
next
  case (net_write r t u)
  then show ?case using handle_tcp_fd_write_t2d forwards_frame by blast
next
  case (dev_read r t now a u)
  then show ?case using handle_dev_fd_read_t2d forwards_frame by blast
next
  case (dev_write r t u)
  then have f: "forwards s r t" by simp
  then have "t2d_ok t" by (simp add: forwards_def)
  from forwards_trans [OF f handle_dev_fd_write_step [OF this dev_write(3)]] show ?case .
next
  case (exception r t u)
  then show ?case by (auto simp: handle_fd_except_def)
next
  case (age r t u)
  then show ?case using tryNetWrite_t2d [of "t\<lparr>age_timer := None\<rparr>" "()" u] forwards_frame [of s r t u] by (simp add: aged_def)
next
  case (second r t)
  then show ?case using got_timeout_t2d forwards_frame by blast
qed

text \<open>
  C5: however the events of a port follow each other, and however the device takes the data,
  piece by piece, interrupted or refused for a while: until the port is shut down, what has been written to
  the device and what still waits in the buffer are together exactly what came from the network, in order,
  without the telnet commands; and the buffer is never read again before it has been emptied.
\<close>

theorem network_to_device:
  assumes "port_run s r t" "t2d_ok s" "unsent s = []"
  shows "shut_down t \<or> dev_out t @ unsent t = dev_out s @ r \<and> t2d_ok t"
  using port_run_forwards [OF assms] by (auto simp: forwards_def)

definition xfer0 :: xfer where
  "xfer0 = port_info.extend (port0\<lparr>enabled := PORT_RAW, port_sel := sel_set_fd_read_handler 6 True (port_sel port0)\<rparr>)
     \<lparr>acceptfd = 7, timeout = 0, timeout_left = 0, tcp_to_dev_state = PORT_WAITING_INPUT, tcp_to_dev_buf = replicate 1400 0, tcp_to_dev_buf_start = 0,
      tcp_to_dev_buf_count = 0, dev_to_tcp_state = PORT_WAITING_INPUT, dev_to_tcp_buf = replicate 1400 0, dev_to_tcp_buf_start = 0,
      dev_to_tcp_buf_count = 0, tcp_bytes_received = 0, tcp_bytes_sent = 0, dev_bytes_received = 0, dev_bytes_sent = 0,
      rt_file = -1, wt_file = -1, bt_file = -1, tcp_monitored = False, dev_monitored = False, age_timer = None, port_timer = True,
      shut_down = False, dev_answers = [], tcp_answers = [], trace_answers = [], dev_out = [], tcp_out = [], traced = [], monitor_out = []\<rparr>"

lemmas xfer0_defs = xfer0_def port_info.defs port0_defs

theorem network_to_device_witness:
  "\<exists>t. port_run (xfer0\<lparr>dev_answers := [Wrote 1]\<rparr>) [65, 66] t \<and>
     (shut_down t \<or> dev_out t @ unsent t = dev_out (xfer0\<lparr>dev_answers := [Wrote 1]\<rparr>) @ [65, 66] \<and> t2d_ok t)"
proof -
  let ?s = "xfer0\<lparr>dev_answers := [Wrote 1]\<rparr>"
  have f: "tcpfd ?s \<in> set (read_set (port_sel ?s))" "enabled ?s = PORT_RAW" "\<not> shut_down ?s" "t2d_ok ?s" "unsent ?s = []"
    by (simp_all add: xfer0_defs t2d_ok_def unsent_def)
  obtain t where "handle_tcp_fd_read (Data [65, 66]) ?s = Ret () t"
    by (simp add: handle_tcp_fd_read_def loaded_def tcp_data_def Let_def tcp_to_dev_write.simps region_def overlay_def xfer0_defs)
  then have "port_run ?s ([] @ received [65, 66] ?s) t"
    by (intro port_run.net_read [OF port_run.start]) (use f in simp_all)
  then have r: "port_run ?s [65, 66] t" using f by (simp add: received_def)
  from network_to_device [OF this f(4,5)] r show ?thesis by blast
qed

section \<open>From the device to the network\<close>

lemma shift_up_nth:
  "i \<le> j \<Longrightarrow> Suc j < length buf \<Longrightarrow> \<exists>b. shift_up buf j i = Some b \<and> length b = length buf \<and>
     (\<forall>k < length buf. b ! k = (if Suc i < k \<and> k \<le> Suc j then buf ! (k - 1) else buf ! k))"
proof (induction buf j i rule: shift_up.induct)
  case (1 buf j i)
  show ?case
  proof (cases "j > i")
    case True
    then have "i \<le> j - 1" "Suc (j - 1) < length (buf[Suc j := buf ! j])" using 1(3) by simp_all
    with 1(1) [OF True 1(3)] True obtain b where "shift_up (buf[Suc j := buf ! j]) (j - 1) i = Some b" "length b = length buf"
      "\<forall>k < length buf. b ! k = (if Suc i < k \<and> k \<le> Suc (j - 1) then buf[Suc j := buf ! j] ! (k - 1) else buf[Suc j := buf ! j] ! k)"
      by auto
    with True 1(3) show ?thesis by (subst shift_up.simps) (auto simp: nth_list_update le_Suc_eq)
  next
    case False
    then show ?thesis using 1(2,3) by (subst shift_up.simps) auto
  qed
qed

lemma double_step:
  assumes "i < n" "Suc n < length buf"
  shows "\<exists>b. shift_up buf n i = Some b \<and> length b = length buf \<and>
    take (Suc n) (b[Suc i := 255]) = take (Suc i) buf @ 255 # drop (Suc i) (take n buf)"
proof -
  from shift_up_nth [of i n buf] assms obtain b where b: "shift_up buf n i = Some b" "length b = length buf"
    "\<forall>k < length buf. b ! k = (if Suc i < k \<and> k \<le> Suc n then buf ! (k - 1) else buf ! k)" by auto
  have "take (Suc n) (b[Suc i := 255]) = take (Suc i) buf @ 255 # drop (Suc i) (take n buf)"
  proof (rule nth_equalityI)
    show "length (take (Suc n) (b[Suc i := 255])) = length (take (Suc i) buf @ 255 # drop (Suc i) (take n buf))" using assms b(2) by simp
    fix k assume "k < length (take (Suc n) (b[Suc i := 255]))"
    then have k: "k \<le> n" by simp
    have p: "Suc (k - 2) = k - Suc 0" if "Suc i < k" using that by simp
    consider "k < Suc i" | "k = Suc i" | "Suc i < k" by linarith
    then show "take (Suc n) (b[Suc i := 255]) ! k = (take (Suc i) buf @ 255 # drop (Suc i) (take n buf)) ! k"
      using assms b k by cases (auto simp: nth_append nth_Cons' min_def p)
  qed
  with b show ?thesis by blast
qed

lemma double_loop_correct:
  "i \<le> n \<Longrightarrow> i + length (double_iac (drop i (take n buf))) < length buf \<Longrightarrow>
   \<exists>b. double_loop buf i n = Some (b, i + length (double_iac (drop i (take n buf)))) \<and> length b = length buf \<and>
     take (i + length (double_iac (drop i (take n buf)))) b = take i buf @ double_iac (drop i (take n buf))"
proof (induction buf i n rule: double_loop.induct)
  case (1 buf i n)
  have l: "length w \<le> length (double_iac w)" for w by (induction w) auto
  have nl: "n < length buf" using 1(3,4) l [of "drop i (take n buf)"] by simp
  show ?case
  proof (cases "i < n")
    case True
    have d: "drop i (take n buf) = buf ! i # drop (Suc i) (take n buf)"
      using Cons_nth_drop_Suc [of i "take n buf"] True nl by simp
    let ?r = "drop (Suc i) (take n buf)"
    show ?thesis
    proof (cases "buf ! i = 255")
      case iac: True
      have "Suc n < length buf" using 1(4) l [of ?r] iac True nl by (simp add: d)
      from double_step [OF True this] obtain b where b: "shift_up buf n i = Some b" "length b = length buf"
        "take (Suc n) (b[Suc i := 255]) = take (Suc i) buf @ 255 # ?r" by blast
      let ?b = "b[Suc i := 255]"
      have e: "drop (Suc (Suc i)) (take (Suc n) ?b) = ?r" "take (Suc (Suc i)) ?b = take i buf @ [255, 255]"
      proof -
        show "drop (Suc (Suc i)) (take (Suc n) ?b) = ?r" using True nl by (simp add: b(3))
        have "take (Suc (Suc i)) ?b = take (Suc (Suc i)) (take (Suc n) ?b)" using True by (simp add: min_def)
        also have "\<dots> = take (Suc i) buf @ [255]" using True nl by (simp add: b(3))
        also have "take (Suc i) buf = take i buf @ [255]" using iac True nl by (simp add: take_Suc_conv_app_nth)
        finally show "take (Suc (Suc i)) ?b = take i buf @ [255, 255]" by simp
      qed
      have si: "Suc i < length b" using True nl b(2) by simp
      have "\<exists>c. double_loop ?b (Suc (Suc i)) (Suc n) = Some (c, Suc (Suc i) + length (double_iac ?r)) \<and> length c = length buf \<and>
          take (Suc (Suc i) + length (double_iac ?r)) c = take i buf @ [255, 255] @ double_iac ?r"
        using "1.IH"(1) [OF True iac b(1) si] "1.prems" True iac b(2) by (simp add: e d)
      then show ?thesis using True iac b(1) si by (subst double_loop.simps) (simp add: d)
    next
      case False
      have "take (Suc i) buf = take i buf @ [buf ! i]" using True nl by (simp add: take_Suc_conv_app_nth)
      then show ?thesis using "1.IH"(2) [OF True False] "1.prems" True False by (subst double_loop.simps) (simp add: d)
    qed
  qed (use 1 in \<open>subst double_loop.simps, auto\<close>)
qed

text \<open>The path from the device to the network, as \<open>t2d\<close> for the other one.\<close>

definition d2t :: "'a xfer_scheme \<Rightarrow> byte list \<times> int \<times> int \<times> byte list \<times> wanswer list \<times> port_kind \<times> dev_info \<times> byte list" where
  "d2t s = (dev_to_tcp_buf s, dev_to_tcp_buf_start s, dev_to_tcp_buf_count s, tcp_out s, tcp_answers s, enabled s, dinfo s, out_telnet_cmd s)"

lemma d2t_trace [simp]: "d2t (do_trace f b s) = d2t s"
proof (induction f b s rule: do_trace.induct)
  case (1 f b s)
  then show ?case by (subst do_trace.simps) (auto simp: d2t_def split: list.split wanswer.split)
qed

text \<open>What a read from the device leaves for the network side, before it is sent.\<close>

lemma handle_dev_fd_read_eq:
  assumes "dev_to_tcp_buf_count s = 0" "d \<noteq> []" "length d \<le> (if enabled s = PORT_TELNET then 700 else 1400)" "length (dev_to_tcp_buf s) = PORT_BUFSIZE"
  obtains v where "d2t v = d2t (s\<lparr>dev_to_tcp_buf := overlay (dev_to_tcp_buf s) 0 d\<rparr>)"
    "handle_dev_fd_read now (Data d) s = (if enabled s = PORT_TELNET then
       (case double_loop (dev_to_tcp_buf v) 0 (length d) of None \<Rightarrow> Wild
        | Some (b, m) \<Rightarrow> dev_collected now m (v\<lparr>dev_to_tcp_buf := b\<rparr>)) else dev_collected now (length d) v)"
proof -
  have e: "take (nat ((if enabled s = PORT_TELNET then 700 else 1400) - dev_to_tcp_buf_count s)) d = d" using assms(1,3) by auto
  define s1 where "s1 = s\<lparr>dev_to_tcp_buf := overlay (dev_to_tcp_buf s) (nat (dev_to_tcp_buf_count s)) d\<rparr>"
  define s2 where "s2 = (if dev_monitored s1 then s1\<lparr>monitor_out := monitor_out s1 @ take (length d) (dev_to_tcp_buf s1)\<rparr> else s1)"
  define s3 where "s3 = (if rt_file s2 \<noteq> -1 then do_trace (rt_file s2) (take (length d) (dev_to_tcp_buf s1)) s2 else s2)"
  define s4 where "s4 = (if bt_file s3 \<noteq> -1 then do_trace (bt_file s3) (take (length d) (dev_to_tcp_buf s1)) s3 else s3)"
  define s5 where "s5 = s4\<lparr>dev_bytes_received := dev_bytes_received s4 + of_nat (length d)\<rparr>"
  have "handle_dev_fd_read now (Data d) s =
    (if (if enabled s = PORT_TELNET then 700 else 1400) - dev_to_tcp_buf_count s < 0 \<or> dev_to_tcp_buf_count s < 0 then Wild
     else if length d = 0 then Ret () (shutdown_port s1) else if enabled s5 = PORT_TELNET then
      (case double_loop (dev_to_tcp_buf s5) 0 (length d) of None \<Rightarrow> Wild
       | Some (b, m) \<Rightarrow> dev_collected now m (s5\<lparr>dev_to_tcp_buf := b\<rparr>)) else dev_collected now (length d) s5)"
    unfolding handle_dev_fd_read_def ranswer.case Let_def e s5_def s4_def s3_def s2_def s1_def by (rule refl)
  moreover have d: "d2t s5 = d2t (s\<lparr>dev_to_tcp_buf := overlay (dev_to_tcp_buf s) 0 d\<rparr>)"
  proof -
    have "d2t s5 = d2t s4" by (simp add: d2t_def s5_def)
    also have "\<dots> = d2t s3" by (simp add: s4_def)
    also have "\<dots> = d2t s2" by (simp add: s3_def)
    also have "\<dots> = d2t s1" by (simp add: d2t_def s2_def)
    finally show ?thesis using assms(1) by (simp add: s1_def)
  qed
  moreover from d have "enabled s5 = enabled s" by (simp add: d2t_def)
  ultimately show ?thesis using assms(1,2) by (intro that [of s5]) simp_all
qed

lemma tryNetWrite_complete:
  assumes "tcp_answers s = []" "dev_to_tcp_buf_count s = int n" "n \<le> length (dev_to_tcp_buf s)"
  shows "\<exists>t. tryNetWrite s = Ret () t \<and> tcp_out t = tcp_out s @ take n (dev_to_tcp_buf s) \<and> dev_to_tcp_buf_count t = 0"
  using assms by (subst tryNetWrite.simps) (auto simp: region_def Let_def)

text \<open>
  C6: bytes read from the device of a telnet port go to the network with every 255 doubled, and
  a telnet connection at the other end gets back exactly these bytes: when the port collects no bytes,
  the network takes them at once and the doubled bytes leave one cell of the buffer free.
\<close>

theorem serial_to_telnet:
  assumes "enabled s = PORT_TELNET" "dev_to_tcp_buf_count s = 0" "length (dev_to_tcp_buf s) = PORT_BUFSIZE" "tcp_answers s = []"
    and "shortest (dinfo s) = 0" "d \<noteq> []" "length d \<le> 700" "length (double_iac d) < PORT_BUFSIZE" "idle p"
  shows "\<exists>t w b n p'. handle_dev_fd_read now (Data d) s = Ret () t \<and> tcp_out t = tcp_out s @ w \<and> dev_to_tcp_buf_count t = 0 \<and>
    process_telnet_data cb w (length w) p = Ret (b, n) p' \<and> take n b = d \<and> but_rx p' = but_rx p"
proof -
  obtain v where v: "d2t v = d2t (s\<lparr>dev_to_tcp_buf := overlay (dev_to_tcp_buf s) 0 d\<rparr>)"
    "handle_dev_fd_read now (Data d) s = (if enabled s = PORT_TELNET then
       (case double_loop (dev_to_tcp_buf v) 0 (length d) of None \<Rightarrow> Wild
        | Some (b, m) \<Rightarrow> dev_collected now m (v\<lparr>dev_to_tcp_buf := b\<rparr>)) else dev_collected now (length d) v)"
    using assms by (elim handle_dev_fd_read_eq [of s d]) auto
  have f: "take (length d) (dev_to_tcp_buf v) = d" "length (dev_to_tcp_buf v) = PORT_BUFSIZE" "dev_to_tcp_buf_count v = 0"
    "tcp_answers v = []" "tcp_out v = tcp_out s" "shortest (dinfo v) = 0"
    using v(1) assms by (auto simp: d2t_def overlay_def)
  from double_loop_correct [of 0 "length d" "dev_to_tcp_buf v"] f assms(8)
  obtain b where b: "double_loop (dev_to_tcp_buf v) 0 (length d) = Some (b, length (double_iac d))" "length b = PORT_BUFSIZE"
    "take (length (double_iac d)) b = double_iac d" by auto
  let ?u = "(reset_timer (v\<lparr>dev_to_tcp_buf := b\<rparr>))\<lparr>dev_to_tcp_buf_count := int (length (double_iac d)), age_timer := None\<rparr>"
  have u: "handle_dev_fd_read now (Data d) s = tryNetWrite ?u"
    using v(2) b(1) assms(1) f by (simp add: dev_collected_def Let_def reset_timer_def)
  obtain t where "tryNetWrite ?u = Ret () t" "tcp_out t = tcp_out s @ double_iac d" "dev_to_tcp_buf_count t = 0"
    using tryNetWrite_complete [of ?u "length (double_iac d)"] b f assms(8) by (auto simp: reset_timer_def)
  moreover obtain p' where "telnet_stream cb (double_iac d) p = Ret d p'" "but_rx p' = but_rx p"
    using stream_doubled [OF assms(9)] by blast
  moreover from this obtain c n where "process_telnet_data cb (double_iac d) (length (double_iac d)) p = Ret (c, n) p'" "take n c = d"
    using process_stream [of "length (double_iac d)" "double_iac d" cb p] by (auto simp: kbind_Ret_iff)
  ultimately show ?thesis using u by metis
qed

theorem serial_to_telnet_witness:
  "\<exists>t w b n p'. handle_dev_fd_read (0, 0) (Data [65, 255]) (xfer0\<lparr>enabled := PORT_TELNET\<rparr>) = Ret () t \<and>
    tcp_out t = tcp_out (xfer0\<lparr>enabled := PORT_TELNET\<rparr>) @ w \<and> dev_to_tcp_buf_count t = 0 \<and>
    process_telnet_data echo_cb w (length w) (td0 []) = Ret (b, n) p' \<and> take n b = [65, 255] \<and> but_rx p' = but_rx (td0 [])"
  by (rule serial_to_telnet) (simp_all add: xfer0_defs dev0_def idle_def)

section \<open>Where the way to the network goes wrong\<close>

lemma double_loop_overflow:
  "0 < k \<Longrightarrow> n = i + k \<Longrightarrow> length buf = i + 2 * k \<Longrightarrow> drop i (take n buf) = replicate k 255 \<Longrightarrow> double_loop buf i n = None"
proof (induction k arbitrary: i n buf)
  case (Suc k)
  have i: "i < n" "n \<le> length buf" using Suc.prems by simp_all
  have d: "drop i (take n buf) = buf ! i # drop (Suc i) (take n buf)" using Cons_nth_drop_Suc [of i "take n buf"] i by simp
  have iac: "buf ! i = 255" and rest: "drop (Suc i) (take n buf) = replicate k 255" using Suc.prems(4) by (simp_all add: d)
  show ?case
  proof (cases "k = 0")
    case True
    then have "shift_up buf n i = None" using Suc.prems(2,3) by (subst shift_up.simps) simp
    then show ?thesis using i iac by (subst double_loop.simps) simp
  next
    case False
    then have "Suc n < length buf" using Suc.prems(2,3) by simp
    from double_step [OF i(1) this] obtain b where b: "shift_up buf n i = Some b" "length b = length buf"
      "take (Suc n) (b[Suc i := 255]) = take (Suc i) buf @ 255 # drop (Suc i) (take n buf)" by blast
    have "double_loop (b[Suc i := 255]) (Suc (Suc i)) (Suc n) = None"
      by (rule Suc.IH) (use False Suc.prems b rest i in simp_all)
    then show ?thesis using i iac b(1,2) Suc.prems(3) False by (subst double_loop.simps) simp
  qed
qed simp

text \<open>
  C39: a full read of 700 bytes that are all 255 on a telnet port writes one byte beyond the
  buffer: the loop that makes room for a doubled byte also moves the cell behind the data.
\<close>

theorem iac_doubling_overflow:
  assumes "enabled s = PORT_TELNET" "dev_to_tcp_buf_count s = 0" "length (dev_to_tcp_buf s) = PORT_BUFSIZE"
  shows "handle_dev_fd_read now (Data (replicate 700 255)) s = Wild"
proof -
  obtain v where v: "d2t v = d2t (s\<lparr>dev_to_tcp_buf := overlay (dev_to_tcp_buf s) 0 (replicate 700 255)\<rparr>)"
    "handle_dev_fd_read now (Data (replicate 700 255)) s = (if enabled s = PORT_TELNET then
       (case double_loop (dev_to_tcp_buf v) 0 (length (replicate 700 (255 :: byte))) of None \<Rightarrow> Wild
        | Some (b, m) \<Rightarrow> dev_collected now m (v\<lparr>dev_to_tcp_buf := b\<rparr>)) else dev_collected now (length (replicate 700 (255 :: byte))) v)"
    using assms by (elim handle_dev_fd_read_eq [of s "replicate 700 255"]) auto
  have "double_loop (dev_to_tcp_buf v) 0 700 = None"
    using v(1) assms(3) by (intro double_loop_overflow [of 700]) (auto simp: d2t_def overlay_def)
  then show ?thesis using v(2) assms(1) by simp
qed

theorem iac_doubling_overflow_witness:
  "handle_dev_fd_read (0, 0) (Data (replicate 700 255)) (xfer0\<lparr>enabled := PORT_TELNET\<rparr>) = Wild"
  by (rule iac_doubling_overflow) (simp_all add: xfer0_defs)

text \<open>Two bytes read from a raw port of which the network takes one, and the call that sends the other.\<close>

lemma raw_read_partial:
  assumes "enabled s = PORT_RAW" "dev_to_tcp_buf_count s = 0" "length (dev_to_tcp_buf s) = PORT_BUFSIZE"
    "shortest (dinfo s) = 0" "tcp_answers s = Wrote 1 # r"
  shows "\<exists>t. handle_dev_fd_read now (Data [x, y]) s = Ret () t \<and>
    d2t t = (overlay (dev_to_tcp_buf s) 0 [x, y], dev_to_tcp_buf_start s + 1, 1, tcp_out s @ [x], r, PORT_RAW, dinfo s, out_telnet_cmd s)"
proof -
  obtain v where v: "d2t v = d2t (s\<lparr>dev_to_tcp_buf := overlay (dev_to_tcp_buf s) 0 [x, y]\<rparr>)"
    "handle_dev_fd_read now (Data [x, y]) s = dev_collected now 2 v"
    using assms(1-3) by (elim handle_dev_fd_read_eq [of s "[x, y]" now]) (auto simp: numeral_2_eq_2)
  have f: "dev_to_tcp_buf v = x # y # drop 2 (dev_to_tcp_buf s)" "dev_to_tcp_buf_start v = dev_to_tcp_buf_start s" "dev_to_tcp_buf_count v = 0"
    "tcp_out v = tcp_out s" "tcp_answers v = Wrote 1 # r" "enabled v = PORT_RAW" "dinfo v = dinfo s" "out_telnet_cmd v = out_telnet_cmd s"
    using v(1) assms by (simp_all add: d2t_def overlay_def numeral_2_eq_2)
  let ?u = "(reset_timer v)\<lparr>dev_to_tcp_buf_count := 2, age_timer := None\<rparr>"
  have u: "d2t ?u = (x # y # drop 2 (dev_to_tcp_buf s), dev_to_tcp_buf_start s, 2, tcp_out s, Wrote 1 # r, PORT_RAW, dinfo s, out_telnet_cmd s)"
    by (simp add: d2t_def reset_timer_def f)
  have "dev_collected now 2 v = tryNetWrite ?u"
    using f assms(4) by (simp add: dev_collected_def Let_def reset_timer_def)
  moreover have "\<exists>t. tryNetWrite ?u = Ret () t \<and>
    d2t t = (x # y # drop 2 (dev_to_tcp_buf s), dev_to_tcp_buf_start s + 1, 1, tcp_out s @ [x], r, PORT_RAW, dinfo s, out_telnet_cmd s)"
    using u by (subst tryNetWrite.simps) (simp add: d2t_def region_def Let_def clear_output_def upd_sel_def)
  ultimately show ?thesis using v(2) by (simp add: overlay_def numeral_2_eq_2)
qed

lemma net_write_last:
  assumes "out_telnet_cmd s = []" "dev_to_tcp_buf_count s = 1" "dev_to_tcp_buf_start s = int k" "k < length (dev_to_tcp_buf s)"
    "tcp_answers s = Wrote 1 # r"
  shows "\<exists>t. handle_tcp_fd_write s = Ret () t \<and>
    d2t t = (dev_to_tcp_buf s, int k, 0, tcp_out s @ [dev_to_tcp_buf s ! k], r, enabled s, dinfo s, [])"
  using assms by (simp add: handle_tcp_fd_write_def net_write_def region_def Let_def d2t_def reset_timer_def upd_sel_def take_Suc_conv_app_nth hd_drop_conv_nth take_Suc)

text \<open>
  C40: on a raw port, two reads of two bytes of which the network takes one at first: the
  second byte of the second read is lost, and an old byte of the buffer is sent in its place. The start of the
  waiting data is not set back when the buffer has been emptied.
\<close>

theorem partial_writes_corrupt:
  assumes "enabled s = PORT_RAW" "dev_to_tcp_buf_count s = 0" "dev_to_tcp_buf_start s = 0" "length (dev_to_tcp_buf s) = PORT_BUFSIZE"
    "shortest (dinfo s) = 0" "out_telnet_cmd s = []" "tcp_answers s = replicate 4 (Wrote 1)"
  shows "\<exists>t. kbind (handle_dev_fd_read now (Data [x, y]) s) (\<lambda>_ s. kbind (handle_tcp_fd_write s) (\<lambda>_ s.
    kbind (handle_dev_fd_read now (Data [z, w]) s) (\<lambda>_ s. handle_tcp_fd_write s))) = Ret () t \<and>
    tcp_out t = tcp_out s @ [x, y, z, dev_to_tcp_buf s ! 2] \<and> dev_to_tcp_buf_count t = 0"
proof -
  have a: "tcp_answers s = [Wrote 1, Wrote 1, Wrote 1, Wrote 1]" using assms(7) by (simp add: numeral_eq_Suc)
  obtain s1 where s1: "handle_dev_fd_read now (Data [x, y]) s = Ret () s1" and d1: "d2t s1 = (overlay (dev_to_tcp_buf s) 0 [x, y], 1, 1,
    tcp_out s @ [x], [Wrote 1, Wrote 1, Wrote 1], PORT_RAW, dinfo s, [])"
    using raw_read_partial [OF assms(1,2,4,5) a, of now x y] assms(3,6) by auto
  obtain s2 where s2: "handle_tcp_fd_write s1 = Ret () s2" and d2: "d2t s2 = (overlay (dev_to_tcp_buf s) 0 [x, y], 1, 0,
    tcp_out s @ [x, y], [Wrote 1, Wrote 1], PORT_RAW, dinfo s, [])"
    using net_write_last [of s1 1] d1 assms(4) by (auto simp: d2t_def overlay_def)
  obtain s3 where s3: "handle_dev_fd_read now (Data [z, w]) s2 = Ret () s3" and d3: "d2t s3 = (overlay (dev_to_tcp_buf s) 0 [z, w], 2, 1,
    tcp_out s @ [x, y, z], [Wrote 1], PORT_RAW, dinfo s, [])"
    using raw_read_partial [of s2 "[Wrote 1]" now z w] d2 assms(4,5) by (auto simp: d2t_def overlay_def)
  obtain s4 where "handle_tcp_fd_write s3 = Ret () s4" "tcp_out s4 = tcp_out s @ [x, y, z, dev_to_tcp_buf s ! 2]" "dev_to_tcp_buf_count s4 = 0"
    using net_write_last [of s3 2] d3 assms(4) by (auto simp: d2t_def overlay_def numeral_2_eq_2)
  then show ?thesis by (simp add: s1 s2 s3)
qed

theorem partial_writes_corrupt_witness:
  "\<exists>t. kbind (handle_dev_fd_read (0, 0) (Data [65, 66]) (xfer0\<lparr>tcp_answers := replicate 4 (Wrote 1)\<rparr>)) (\<lambda>_ s. kbind (handle_tcp_fd_write s) (\<lambda>_ s.
    kbind (handle_dev_fd_read (0, 0) (Data [67, 68]) s) (\<lambda>_ s. handle_tcp_fd_write s))) = Ret () t \<and>
    tcp_out t = tcp_out (xfer0\<lparr>tcp_answers := replicate 4 (Wrote 1)\<rparr>) @ [65, 66, 67, dev_to_tcp_buf (xfer0\<lparr>tcp_answers := replicate 4 (Wrote 1)\<rparr>) ! 2] \<and>
    dev_to_tcp_buf_count t = 0"
  by (rule partial_writes_corrupt) (simp_all add: xfer0_defs dev0_def)

end
