(* ===== verification/Spec2Isabelle.thy ===== *)
theory Spec2Isabelle
  imports Kermit_Cmdline Timer_Queue Dataxfer
begin

text \<open>
  A verification development for programs of the ESP Linux distribution.

  The repository is the software of an instrument computer: build recipes, patches, scripts and a number of C
  programs. Two programs carry the work of moving data in and out of the instrument, and these are modelled:

  \<^item> G-Kermit (src/gkermit), a file transfer program with its own small protocol compiler gwart;
  \<^item> ser2net (src/esp/ser2net/ser2net-2.7), a server that connects serial ports to network connections, with
    the telnet protocol and the remote control of the serial line of RFC 2217.

  \<^bold>\<open>Conventions.\<close> Bytes are \<open>8 word\<close>, C integers are \<open>int\<close>, \<open>nat\<close> or words where wrap-around or bits matter;
  arrays are lists of their full length, and a read or write outside an array is an explicit value: \<open>None\<close>, or
  \<open>Wild\<close> in the type \<open>outcome\<close> of \<^theory_text>\<open>Prelude\<close>, beside \<open>Ret\<close> for a normal return and the value for a call of
  \<open>exit\<close>. What the operating system answers (reads, partial or refused writes, access checks) is a list of
  answers in the state, so that every theorem holds for all of its behaviours. Loops are recursive functions
  with termination proofs; loops that may not end take their events from such a list, or fuel. States are
  records that extend each other in the order in which the parts of a program build on each other.

  \<^bold>\<open>Shared theories.\<close>
  \<^item> \<^theory_text>\<open>Prelude\<close>: types, arrays, outcomes and generic lemmas; \<^theory_text>\<open>Ctext\<close>: text as C programs handle it.

  \<^bold>\<open>G-Kermit.\<close>
  \<^item> \<^theory_text>\<open>Kermit_Check\<close> (gkermit.c, gunixio.c): block checks and parity. The nibble-wise CRC is CRC-16/CCITT and
    detects every burst within two adjacent characters.
  \<^item> \<^theory_text>\<open>Kermit_File\<close> (\<open>zfillbuf\<close>, \<open>zgetc\<close>): buffered file input. The locale \<open>byte_source\<close> is what the packet filler
    relies on; the file buffer and, in \<^theory_text>\<open>Kermit_Encode\<close>, file or memory are its instances.
  \<^item> \<^theory_text>\<open>Kermit_Encode\<close> (\<open>encode\<close>, \<open>getpkt\<close>, \<open>encstr\<close>) and \<^theory_text>\<open>Kermit_Decode\<close> (\<open>decode\<close>, \<open>decstr\<close>, with the locale
    \<open>byte_sink\<close>): the data fields made of a file restore it, and where the buffers of the filler overflow.
  \<^item> \<^theory_text>\<open>Kermit_Packet\<close> (\<open>spacket\<close>, \<open>rpacket\<close>, \<open>ttinl\<close>, \<open>ttol\<close>, \<open>resend\<close>): a packet sent is received intact, reading is
    memory safe under a parity (every store of \<open>ttinl\<close> into its buffer is checked), and what goes wrong without one.
  \<^item> \<^theory_text>\<open>Kermit_Params\<close> (\<open>spar\<close>, \<open>rpar\<close>): after negotiation both sides agree.
  \<^item> \<^theory_text>\<open>Kermit_Names\<close> (\<open>zltor\<close>, \<open>zrtol\<close>, \<open>zbackup\<close>, ...): names survive the way through the common form, and a
    backup never loses a file. The file system is a map from names to files with the answers of the calls.
  \<^item> \<^theory_text>\<open>Kermit_Session\<close> (\<open>input\<close>, \<open>rcvfil\<close>, \<open>sattr\<close>, \<open>gattr\<close>, ...): retransmission ends with an error packet, only
    packets with a right block check reach the automaton, received files do not destroy others, and where the
    program does not live up to this.
  \<^item> \<^theory_text>\<open>Kermit_Proto\<close> (gproto.w and the loop gwart generates): an invariant of every reachable state.
  \<^item> \<^theory_text>\<open>Gwart\<close> (gwart.c): the symbol table is a map (locale \<open>symbol_table\<close>), the table has the first rule that
    applies. \<^theory_text>\<open>Gwart_Parse\<close>: what the parser makes of any well-formed specification. \<^theory_text>\<open>Gproto\<close>: the text of gproto.w, and
    what gwart reads from it. \<^theory_text>\<open>Kermit_Table\<close>: the loop gwart generates, going through the table it builds from that
    text, does what the automaton of \<^theory_text>\<open>Kermit_Proto\<close> does, for every state and packet type.
  \<^item> \<^theory_text>\<open>Kermit_Cmdline\<close> (gcmdline.c, \<open>main\<close>): an accepted command line gives parameters in range, and which
    settings of the variable GKERMIT are never accepted.

  \<^bold>\<open>ser2net.\<close>
  \<^item> \<^theory_text>\<open>Telnet\<close> (telnet.c): the receiver that takes commands out of a buffer in place, negotiation, and sending.
    The functions a client registers are a record \<open>telnet_cb\<close>; the locales \<open>telnet_client\<close> and \<open>telnet_frame\<close> say
    what the receiver relies on of them. How the stream is cut into reads makes no difference, and an option
    sent is received byte for byte.
  \<^item> \<^theory_text>\<open>Devcfg\<close> (devcfg.c): device settings as the flag words of Linux, their text form read and printed. What is
    shown reads back as the same settings. \<open>strtod\<close> is a parameter.
  \<^item> \<^theory_text>\<open>Selector\<close> (selector.c): descriptor table, watched sets and dispatch, with an invariant of the sets.
  \<^item> \<^theory_text>\<open>Timers\<close> and \<^theory_text>\<open>Timer_Queue\<close> (selector.c): the heap of timers, nodes linked by pointers in a store. The heap
    represents a list of nodes (\<open>rep\<close>); exchanging nodes, finding the next and the previous position, adding and
    removing are proved against it, and the locale \<open>timer_queue\<close> states what the program relies on: a map of
    running timers and an earliest one on top. Loops over links are partial functions whose value is \<open>None\<close> when
    they do not return, and the theorems show that they do; the loop that lets timers go off takes the answers of
    the clock from a list, and a bound on its length is part of its theorem.
  \<^item> \<^theory_text>\<open>Rfc2217\<close> (dataxfer.c, the com port option): all commands of the option, interpreted as the client of
    \<^theory_text>\<open>Telnet\<close>. Whatever a client sends, memory is safe except for the call of a missing option handler; requests
    for rate, data bits, parity and stop bits are carried out and confirmed. What a driver makes of settings
    is the field \<open>tc_adopt\<close>, and the theorems that need it name their hypothesis on it.
  \<^item> \<^theory_text>\<open>Dataxfer\<close> (dataxfer.c, the handlers of an open port): the inductive relation \<open>port_run\<close> is any sequence of
    events; nothing that comes from the network is lost, doubled or put out of order on its way to the device.
    In the other direction the round trip through telnet holds when the network takes the data at once, and
    the theorems at the end show what happens when it does not.

  \<^bold>\<open>Not modelled.\<close> Of G-Kermit: terminal settings, messages and the debug log. Of ser2net: the
  call of \<open>select\<close> (the model has the dispatch of what it reports), opening and configuring ports, lock files,
  banners, the control port, reading the configuration file. Of the repository: sercd, vi, picocom, the
  camera programs, the copies of kernel drivers and headers, and the single files that replace parts of
  packages whose sources are not here; they are third-party code around hardware, terminals or
  libraries that the repository does not contain. Build recipes, patches and scripts are not programs in C.
\<close>

end
